(* ===== verification/EqPrelude.thy ===== *)
theory EqPrelude
  imports Main
    "HOL-Library.AList"
    "HOL-Library.Word"
    "HOL-Library.List_Lexorder"
    "HOL-Library.Char_ord"
    "HOL-Library.Signed_Division"
    "HOL-Library.Multiset"
begin

text \<open>
  Shared vocabulary of the development: the types the Go code uses (instants and durations in
  nanoseconds, 32-bit versions, strings, maps), the lemma collections, and the generic facts on
  lists and association lists that the component theories use.
\<close>

section \<open>Types of the Go code\<close>

text \<open>
  An instant (time.Time) is its distance in nanoseconds from the zero instant of Go, so that
  \<open>IsZero\<close> is equality with 0, \<open>Before\<close> and \<open>After\<close> are the orders of \<open>int\<close>, and \<open>Add\<close> is
  addition. A time.Duration counts nanoseconds. An int32 is a 32-bit word: addition wraps, and a
  signed comparison reads the word with \<^term>\<open>sint\<close>. A string is its list of bytes; the order of
  strings is the bytewise lexicographic one of Go.
\<close>

type_synonym time = int
type_synonym duration = int
type_synonym int32 = "32 word"
type_synonym bytes = "string option"   \<comment> \<open>json.RawMessage: \<open>None\<close> is the nil slice\<close>
type_synonym ('k, 'v) gomap = "('k \<times> 'v) list"

definition zero_time :: time where
  "zero_time = 0"

definition time_Second :: duration where
  "time_Second = 1000000000"

definition time_Minute :: duration where
  "time_Minute = 60 * time_Second"

definition time_Hour :: duration where
  "time_Hour = 60 * time_Minute"

lemmas duration_defs = time_Second_def time_Minute_def time_Hour_def

text \<open>Two's complement wrap-around of a 64-bit integer, for arithmetic on durations.\<close>

definition wrap64 :: "int \<Rightarrow> int" where
  "wrap64 x = (x + 2 ^ 63) mod 2 ^ 64 - 2 ^ 63"

lemma wrap64_id: "- (2 ^ 63) \<le> x \<Longrightarrow> x < 2 ^ 63 \<Longrightarrow> wrap64 x = x"
  by (simp add: wrap64_def)

lemma wrap64_range: "- (2 ^ 63) \<le> wrap64 x \<and> wrap64 x < 2 ^ 63"
proof -
  have "0 \<le> (x + 2 ^ 63) mod 2 ^ 64 \<and> (x + 2 ^ 63) mod 2 ^ 64 < (2 ^ 64 :: int)"
    by simp
  then show ?thesis
    by (auto simp: wrap64_def)
qed

text \<open>strings.Join: the parts with a separator between them.\<close>

fun strings_Join :: "string \<Rightarrow> string list \<Rightarrow> string" where
  "strings_Join sep [] = []"
| "strings_Join sep [s] = s"
| "strings_Join sep (s # ss) = s @ sep @ strings_Join sep ss"

section \<open>Lemma collections\<close>

named_theorems eq_simps \<open>equations of the model's operations, for unfolding in proofs\<close>
named_theorems wf_intros \<open>preservation of well-formedness by the model's operations\<close>

section \<open>Errors and early returns\<close>

text \<open>
  A check that returns an error or nil is an option; a loop over checks that returns at the first
  failure is \<open>first_some\<close>, and checks one after the other are joined by \<open>err_or\<close>. A loop that
  threads a state and may return early with an error is \<open>foldE\<close> over a sum.
\<close>

fun first_some :: "('a \<Rightarrow> 'e option) \<Rightarrow> 'a list \<Rightarrow> 'e option" where
  "first_some f [] = None"
| "first_some f (x # xs) = (case f x of Some e \<Rightarrow> Some e | None \<Rightarrow> first_some f xs)"

definition err_or :: "'e option \<Rightarrow> 'e option \<Rightarrow> 'e option" where
  "err_or a b = (case a of Some e \<Rightarrow> Some e | None \<Rightarrow> b)"

definition sbind :: "'e + 'a \<Rightarrow> ('a \<Rightarrow> 'e + 'b) \<Rightarrow> 'e + 'b" where
  "sbind r f = (case r of Inl e \<Rightarrow> Inl e | Inr x \<Rightarrow> f x)"

fun foldE :: "('a \<Rightarrow> 's \<Rightarrow> 'e + 's) \<Rightarrow> 'a list \<Rightarrow> 's \<Rightarrow> 'e + 's" where
  "foldE f [] s = Inr s"
| "foldE f (x # xs) s = sbind (f x s) (foldE f xs)"

lemma first_some_None [simp]: "first_some f xs = None \<longleftrightarrow> (\<forall>x \<in> set xs. f x = None)"
  by (induction xs) (auto split: option.splits)

lemma first_some_SomeD: "first_some f xs = Some e \<Longrightarrow> \<exists>x \<in> set xs. f x = Some e"
  by (induction xs) (auto split: option.splits)

lemma err_or_None [simp]: "err_or a b = None \<longleftrightarrow> a = None \<and> b = None"
  by (auto simp: err_or_def split: option.splits)

lemma err_or_Some: "err_or a b = Some e \<longleftrightarrow> a = Some e \<or> a = None \<and> b = Some e"
  by (auto simp: err_or_def split: option.splits)

lemma sbind_simps [simp]: "sbind (Inl e) f = Inl e" "sbind (Inr x) f = f x"
  by (simp_all add: sbind_def)

lemma sbind_Inr_iff: "sbind r f = Inr y \<longleftrightarrow> (\<exists>x. r = Inr x \<and> f x = Inr y)"
  by (auto simp: sbind_def split: sum.splits)

lemma sbind_Inl_iff: "sbind r f = Inl e \<longleftrightarrow> r = Inl e \<or> (\<exists>x. r = Inr x \<and> f x = Inl e)"
  by (auto simp: sbind_def split: sum.splits)

lemma sbind_assoc: "sbind (sbind r f) g = sbind r (\<lambda>x. sbind (f x) g)"
  by (simp add: sbind_def split: sum.splits)

lemma foldE_append: "foldE f (xs @ ys) s = sbind (foldE f xs s) (foldE f ys)"
  by (induction xs arbitrary: s) (auto simp: sbind_def split: sum.splits)

text \<open>An invariant that every successful step keeps is kept by the whole loop.\<close>

lemma foldE_inv:
  assumes "foldE f xs s = Inr s'" and "P s"
    and "\<And>x s s'. x \<in> set xs \<Longrightarrow> P s \<Longrightarrow> f x s = Inr s' \<Longrightarrow> P s'"
  shows "P s'"
  using assms
proof (induction xs arbitrary: s)
  case (Cons x xs)
  from Cons.prems(1) obtain s1 where "f x s = Inr s1" and rest: "foldE f xs s1 = Inr s'"
    by (auto simp: sbind_Inr_iff)
  then have "P s1" using Cons.prems(2) Cons.prems(3)[of x s s1] by simp
  from rest this show ?case
    by (rule Cons.IH) (use Cons.prems(3) in auto)
qed simp

section \<open>Association lists as Go maps\<close>

text \<open>
  A Go map is an association list with distinct keys. Lookup is \<^term>\<open>map_of\<close>, assignment is
  \<^term>\<open>AList.update\<close> and the builtin delete is \<^term>\<open>AList.delete\<close>.
\<close>

abbreviation gm_set :: "'k \<Rightarrow> 'v \<Rightarrow> ('k, 'v) gomap \<Rightarrow> ('k, 'v) gomap" where
  "gm_set \<equiv> AList.update"

abbreviation gm_del :: "'k \<Rightarrow> ('k, 'v) gomap \<Rightarrow> ('k, 'v) gomap" where
  "gm_del \<equiv> AList.delete"

definition gm_ok :: "('k, 'v) gomap \<Rightarrow> bool" where
  "gm_ok m \<longleftrightarrow> distinct (map fst m)"

lemma gm_ok_Nil [simp]: "gm_ok []"
  by (simp add: gm_ok_def)

lemma gm_ok_set [simp]: "gm_ok m \<Longrightarrow> gm_ok (gm_set k v m)"
  by (simp add: gm_ok_def distinct_update)

lemma gm_ok_del [simp]: "gm_ok m \<Longrightarrow> gm_ok (gm_del k m)"
  by (simp add: gm_ok_def distinct_delete)

lemma map_of_gm_set [simp]: "map_of (gm_set k v m) = (map_of m)(k \<mapsto> v)"
  by (rule update_conv')

lemma map_of_gm_del [simp]: "map_of (gm_del k m) = (map_of m)(k := None)"
  by (rule delete_conv')

lemma gm_ok_mem: "gm_ok m \<Longrightarrow> (k, v) \<in> set m \<longleftrightarrow> map_of m k = Some v"
  by (auto simp: gm_ok_def intro: map_of_is_SomeI dest: map_of_SomeD)

lemma length_gm_set:
  "length (gm_set k v m) = (case map_of m k of None \<Rightarrow> Suc (length m) | Some _ \<Rightarrow> length m)"
  by (induction m) (auto split: option.splits)

lemma length_gm_del:
  "gm_ok m \<Longrightarrow> length (gm_del k m) = (case map_of m k of None \<Rightarrow> length m | Some _ \<Rightarrow> length m - 1)"
proof (induction m)
  case (Cons a m)
  obtain x y where [simp]: "a = (x, y)" by (cases a)
  have ok: "gm_ok m" and notin: "x \<notin> fst ` set m"
    using Cons.prems by (auto simp: gm_ok_def)
  show ?case
  proof (cases "x = k")
    case True
    then have "gm_del k m = m"
      using notin by simp
    with True show ?thesis by simp
  next
    case False
    with Cons.IH ok show ?thesis
      by (cases "map_of m k") (auto simp: length_greater_0_conv dest!: map_of_SomeD intro: Suc_pred)
  qed
qed simp

lemma map_of_map_key: "map_of (map (\<lambda>(k, v). (k, f k v)) m) k = map_option (f k) (map_of m k)"
  by (induction m) auto

end
