(* ===== verification/EntroqTypes.thy ===== *)
theory EntroqTypes
  imports EqPrelude
begin

text \<open>
  The data of the client package (task.go, doc.go, arrival.go, entroq.go, stats.go): tasks, docs,
  doc sets, modifications, queries, responses and errors. Every struct is a record whose fields
  carry a short prefix for their struct; pointers to structs that the code never shares across
  mutations are the structs themselves, and lists of pointers are lists of non-nil values.
\<close>

section \<open>Tasks\<close>

record TaskID =
  tid_ID :: string
  tid_Version :: int32
  tid_Queue :: string

record TaskData =
  td_Queue :: string
  td_by :: duration
  td_Value :: bytes
  td_Attempt :: int32
  td_Err :: string
  td_ID :: string
  td_At :: time
  td_Created :: time
  td_Modified :: time

record Task =
  t_Queue :: string
  t_ID :: string
  t_Version :: int32
  t_At :: time
  t_Claimant :: string
  t_Claims :: int32
  t_Value :: bytes
  t_Created :: time
  t_Modified :: time
  t_FromQueue :: string
  t_by :: duration
  t_Attempt :: int32
  t_Err :: string

record TaskArrival =
  ta_TaskID :: TaskID
  ta_By :: duration

section \<open>Docs and doc sets\<close>

record DocID =
  did_Namespace :: string
  did_ID :: string
  did_Key :: string
  did_Version :: int32

record DocData =
  dd_Namespace :: string
  dd_ID :: string
  dd_by :: duration
  dd_At :: time
  dd_Key :: string
  dd_SecondaryKey :: string
  dd_Content :: bytes
  dd_Created :: time
  dd_Modified :: time

record Doc =
  d_Namespace :: string
  d_ID :: string
  d_Version :: int32
  d_Claimant :: string
  d_by :: duration
  d_At :: time
  d_Key :: string
  d_SecondaryKey :: string
  d_Content :: bytes
  d_Created :: time
  d_Modified :: time

record DocArrival =
  da_DocID :: DocID
  da_By :: duration

record DocSet =
  ds_Namespace :: string
  ds_Key :: string
  ds_Version :: int32
  ds_Claimant :: string
  ds_At :: time
  ds_NumDocs :: int
  ds_Docs :: "Doc list"

record DocSetClaim =
  dsc_Namespace :: string
  dsc_Key :: string
  dsc_OmitMembers :: bool

record DocClaim =
  dc_Sets :: "DocSetClaim list"
  dc_Claimant :: string
  dc_Duration :: duration
  dc_TaskToMatch :: "TaskID option"
  dc_leases :: int

record DocQuery =
  dq_Namespace :: string
  dq_IDs :: "string list"
  dq_KeyExact :: string
  dq_KeyStart :: string
  dq_KeyEnd :: string
  dq_Limit :: int
  dq_OmitValues :: bool

section \<open>Modifications, responses and queries\<close>

record Modification =
  m_resetClaims :: "string set"   \<comment> \<open>map from ID to true\<close>
  m_Claimant :: string
  m_Inserts :: "TaskData list"
  m_Changes :: "Task list"
  m_Deletes :: "TaskID list"
  m_Depends :: "TaskID list"
  m_Arrives :: "TaskArrival list"
  m_DocInserts :: "DocData list"
  m_DocChanges :: "Doc list"
  m_DocDeletes :: "DocID list"
  m_DocDepends :: "DocID list"
  m_DocArrives :: "DocArrival list"

type_synonym ModifyArg = "Modification \<Rightarrow> Modification"

record ModifyResponse =
  mr_InsertedTasks :: "Task list"
  mr_ChangedTasks :: "Task list"
  mr_InsertedDocs :: "Doc list"
  mr_ChangedDocs :: "Doc list"
  mr_ChangedSets :: "DocSet list"

record ClaimQuery =
  cq_Queues :: "string list"
  cq_Claimant :: string
  cq_Duration :: duration
  cq_PollTime :: duration

record TasksQuery =
  tq_Queue :: string
  tq_Claimant :: string
  tq_Limit :: int
  tq_IDs :: "string list"
  tq_OmitValues :: bool
  tq_claimedBySelf :: bool

record MatchQuery =
  mq_MatchPrefix :: "string list"
  mq_MatchExact :: "string list"
  mq_Limit :: int

record QueueStat =
  qs_Name :: string
  qs_Size :: int
  qs_Claimed :: int
  qs_Available :: int
  qs_Future :: int
  qs_MaxClaims :: int

record NamespaceStat =
  nst_Name :: string
  nst_Size :: int
  nst_Claimed :: int

text \<open>The zero values of the structs that the code builds field by field.\<close>

definition zero_Task :: Task where
  "zero_Task = \<lparr>t_Queue = [], t_ID = [], t_Version = 0, t_At = zero_time, t_Claimant = [],
     t_Claims = 0, t_Value = None, t_Created = zero_time, t_Modified = zero_time, t_FromQueue = [],
     t_by = 0, t_Attempt = 0, t_Err = []\<rparr>"

definition zero_Modification :: Modification where
  "zero_Modification = \<lparr>m_resetClaims = {}, m_Claimant = [], m_Inserts = [], m_Changes = [],
     m_Deletes = [], m_Depends = [], m_Arrives = [], m_DocInserts = [], m_DocChanges = [],
     m_DocDeletes = [], m_DocDepends = [], m_DocArrives = []\<rparr>"

definition zero_ModifyResponse :: ModifyResponse where
  "zero_ModifyResponse = \<lparr>mr_InsertedTasks = [], mr_ChangedTasks = [], mr_InsertedDocs = [],
     mr_ChangedDocs = [], mr_ChangedSets = []\<rparr>"

section \<open>Errors\<close>

text \<open>
  The text of an error is not modelled; what it says is. A dependency error's message is the
  format it is built from with its arguments, and an invalid argument is the check that failed
  with what it names. Wrapping an error with more text (fmt.Errorf with the \<open>%w\<close> verb) keeps the
  error that \<open>errors.As\<close> finds, so it is the same value here.
\<close>

datatype dep_msg =
    NoMsg
  | QueueMismatchMsg
  | SetHeldMsg string string string time   \<comment> \<open>key, namespace, claimant, until\<close>
  | ClaimDependsMsg string                 \<comment> \<open>what the doc claim depends on\<close>

record DependencyError =
  de_Inserts :: "TaskID list"
  de_Depends :: "TaskID list"
  de_Deletes :: "TaskID list"
  de_Changes :: "TaskID list"
  de_Claims :: "TaskID list"
  de_Arrives :: "TaskID list"
  de_DocInserts :: "DocID list"
  de_DocDepends :: "DocID list"
  de_DocDeletes :: "DocID list"
  de_DocChanges :: "DocID list"
  de_DocClaims :: "DocID list"
  de_DocArrives :: "DocID list"
  de_Message :: dep_msg

definition zero_DependencyError :: DependencyError where
  "zero_DependencyError = \<lparr>de_Inserts = [], de_Depends = [], de_Deletes = [], de_Changes = [],
     de_Claims = [], de_Arrives = [], de_DocInserts = [], de_DocDepends = [], de_DocDeletes = [],
     de_DocChanges = [], de_DocClaims = [], de_DocArrives = [], de_Message = NoMsg\<rparr>"

datatype invalid_arg =
    ClaimNoQueue
  | ClaimNoClaimant
  | ClaimDurationNotPositive duration
  | ClaimDurationTooLong duration
  | NothingToDo
  | InsertNoQueue string
  | ChangeNoQueue string
  | ArriveNoQueue string
  | DocInsertNoNamespace string
  | DocArriveNotSet DocID
  | DocArriveNoNamespace string
  | DocArriveTwice string string
  | TaskInTwoOps string
  | DocInTwoOps string string
  | UpdateArrivalEmpty
  | TasksQueryEmpty
  | DocsQueryNoNamespace
  | DocClaimNoSet
  | DocClaimSetNoNamespace
  | DocClaimSetNoKey
  | DocClaimSetTwice string string
  | DocClaimNoClaimant
  | DocClaimTwoLeases
  | DocClaimNegative duration
  | DocClaimTooLong duration
  | DocClaimDurationAndTask
  | DocClaimBadTask TaskID
  | DocClaimNoLease
  | DocClaimUntilPast time time
  | TooLong string nat nat
  | DocRefBoth string DocID
  | DocDeleteNamesSet DocID
  | DocPlaceTwice string string string
  | SubjectTooLong string nat

datatype goerror =
    InvalidArgumentError invalid_arg
  | DependencyErr DependencyError
  | Canceled           \<comment> \<open>context.Canceled\<close>
  | DeadlineExceeded   \<comment> \<open>context.DeadlineExceeded\<close>
  | UnavailableError string
  | UnsupportedError string
  | PlainError string
  | Panic string

text \<open>
  \<open>errors.As\<close> for a dependency error: AsDependency of entroq.go.
\<close>

fun AsDependency :: "goerror \<Rightarrow> DependencyError option" where
  "AsDependency (DependencyErr e) = Some e"
| "AsDependency _ = None"

definition IsDependency :: "goerror \<Rightarrow> bool" where
  "IsDependency e \<longleftrightarrow> AsDependency e \<noteq> None"

definition IsCanceled :: "goerror \<Rightarrow> bool" where
  "IsCanceled e \<longleftrightarrow> e = Canceled"

definition IsTimeout :: "goerror \<Rightarrow> bool" where
  "IsTimeout e \<longleftrightarrow> e = DeadlineExceeded"

fun IsUnavailable :: "goerror \<Rightarrow> bool" where
  "IsUnavailable (UnavailableError _) \<longleftrightarrow> True"
| "IsUnavailable _ \<longleftrightarrow> False"

fun IsUnsupported :: "goerror \<Rightarrow> bool" where
  "IsUnsupported (UnsupportedError _) \<longleftrightarrow> True"
| "IsUnsupported _ \<longleftrightarrow> False"

fun IsInvalidArgument :: "goerror \<Rightarrow> bool" where
  "IsInvalidArgument (InvalidArgumentError _) \<longleftrightarrow> True"
| "IsInvalidArgument _ \<longleftrightarrow> False"

lemma IsDependency_simps [simp]:
  "IsDependency (DependencyErr e)" "\<not> IsDependency (InvalidArgumentError i)"
  "\<not> IsDependency (PlainError s)" "\<not> IsDependency (Panic s)"
  by (simp_all add: IsDependency_def)

end
