(* ===== verification/TaskOps.thy ===== *)
theory TaskOps
  imports EntroqTypes
begin

text \<open>
  Tasks and the arguments that build modifications from them: task.go, and the arrivals of
  arrival.go. An InsertArg or ChangeArg is a function on the modification and the task it
  builds, as in the source; a ModifyArg is a function on the modification.
\<close>

section \<open>Task identifiers and insertion\<close>

type_synonym InsertArg = "Modification \<Rightarrow> TaskData \<Rightarrow> Modification \<times> TaskData"
type_synonym ChangeArg = "Modification \<Rightarrow> Task \<Rightarrow> Modification \<times> Task"

definition NewTaskID :: "string \<Rightarrow> int32 \<Rightarrow> string \<Rightarrow> TaskID" where
  "NewTaskID i version q = \<lparr>tid_ID = i, tid_Version = version, tid_Queue = q\<rparr>"

definition TaskID_Delete :: "TaskID \<Rightarrow> ModifyArg" where
  "TaskID_Delete t m = m\<lparr>m_Deletes := m_Deletes m @ [t]\<rparr>"

definition TaskID_Depend :: "TaskID \<Rightarrow> ModifyArg" where
  "TaskID_Depend t m = m\<lparr>m_Depends := m_Depends m @ [t]\<rparr>"

definition WithArrivalTimeIn :: "duration \<Rightarrow> InsertArg" where
  "WithArrivalTimeIn du m d = (m, d\<lparr>td_by := du\<rparr>)"

definition WithRawValue :: "bytes \<Rightarrow> InsertArg" where
  "WithRawValue v m d = (m, d\<lparr>td_Value := v\<rparr>)"

definition WithAttempt :: "int32 \<Rightarrow> InsertArg" where
  "WithAttempt v m d = (m, d\<lparr>td_Attempt := v\<rparr>)"

definition WithErr :: "string \<Rightarrow> InsertArg" where
  "WithErr v m d = (m, d\<lparr>td_Err := v\<rparr>)"

definition WithID :: "string \<Rightarrow> InsertArg" where
  "WithID i m d = (m, d\<lparr>td_ID := i\<rparr>)"

definition Inserting :: "TaskData list \<Rightarrow> ModifyArg" where
  "Inserting tds m = m\<lparr>m_Inserts := m_Inserts m @ tds\<rparr>"

definition new_TaskData :: "string \<Rightarrow> TaskData" where
  "new_TaskData q = \<lparr>td_Queue = q, td_by = 0, td_Value = None, td_Attempt = 0, td_Err = [],
     td_ID = [], td_At = 0, td_Created = 0, td_Modified = 0\<rparr>"

definition InsertingInto :: "string \<Rightarrow> InsertArg list \<Rightarrow> ModifyArg" where
  "InsertingInto q insertArgs m =
     (case fold (\<lambda>arg (m', d). arg m' d) insertArgs (m, new_TaskData q) of
        (m', d) \<Rightarrow> m'\<lparr>m_Inserts := m_Inserts m' @ [d]\<rparr>)"

section \<open>Changing tasks\<close>

definition IDVersion :: "Task \<Rightarrow> TaskID" where
  "IDVersion t = NewTaskID (t_ID t) (t_Version t) (t_Queue t)"

definition Task_Delete :: "Task \<Rightarrow> ModifyArg" where
  "Task_Delete t = TaskID_Delete (IDVersion t)"

definition Task_Depend :: "Task \<Rightarrow> ModifyArg" where
  "Task_Depend t = TaskID_Depend (IDVersion t)"

definition QueueTo :: "string \<Rightarrow> ChangeArg" where
  "QueueTo q m t = (m, t\<lparr>t_FromQueue := t_Queue t, t_Queue := q\<rparr>)"

definition ArrivalTimeBy :: "duration \<Rightarrow> ChangeArg" where
  "ArrivalTimeBy d m t = (m, t\<lparr>t_by := d\<rparr>)"

definition RawValueTo :: "bytes \<Rightarrow> ChangeArg" where
  "RawValueTo v m t = (m, t\<lparr>t_Value := v\<rparr>)"

definition AppendingErr :: "string \<Rightarrow> ChangeArg" where
  "AppendingErr e m t =
     (let strs = (if t_Err t \<noteq> [] then [t_Err t] else []) @ (if e \<noteq> [] then [e] else [])
      in if strs \<noteq> [] then (m, t\<lparr>t_Err := strings_Join [CHR 0x0A] strs\<rparr>)
         else (m, t))"

definition ErrTo :: "string \<Rightarrow> ChangeArg" where
  "ErrTo e m t = (m, t\<lparr>t_Err := e\<rparr>)"

definition ErrToZero :: ChangeArg where
  "ErrToZero = ErrTo []"

text \<open>Modification.ResetClaims and ResetsClaims of entroq.go.\<close>

definition ResetClaims :: "Modification \<Rightarrow> string \<Rightarrow> Modification" where
  "ResetClaims m i = m\<lparr>m_resetClaims := insert i (m_resetClaims m)\<rparr>"

definition ResetsClaims :: "Modification \<Rightarrow> string \<Rightarrow> bool" where
  "ResetsClaims m i \<longleftrightarrow> i \<in> m_resetClaims m"

definition ResettingClaims :: ChangeArg where
  "ResettingClaims m t = (ResetClaims m (t_ID t), t)"

definition AttemptToNext :: ChangeArg where
  "AttemptToNext m t = (m, t\<lparr>t_Attempt := t_Attempt t + 1\<rparr>)"

definition AttemptToZero :: ChangeArg where
  "AttemptToZero m t = (m, t\<lparr>t_Attempt := 0\<rparr>)"

definition Task_Change :: "Task \<Rightarrow> ChangeArg list \<Rightarrow> ModifyArg" where
  "Task_Change t args m =
     (let newTask = t\<lparr>t_FromQueue := t_Queue t, t_At := zero_time, t_by := 0\<rparr>
      in case fold (\<lambda>a (m', t'). a m' t') args (m, newTask) of
           (m', t') \<Rightarrow> m'\<lparr>m_Changes := m_Changes m' @ [t']\<rparr>)"

definition quarantining :: "Task \<Rightarrow> string \<Rightarrow> int32 \<Rightarrow> bool" where
  "quarantining t quarantineTo afterMaxAttempts \<longleftrightarrow>
     quarantineTo \<noteq> [] \<and> afterMaxAttempts \<noteq> 0 \<and> sint (t_Attempt t + 1) \<ge> sint afterMaxAttempts"

definition RetryOrQuarantine ::
    "Task \<Rightarrow> string \<Rightarrow> string \<Rightarrow> int32 \<Rightarrow> ChangeArg list \<Rightarrow> ModifyArg" where
  "RetryOrQuarantine t errMsg quarantineTo afterMaxAttempts overrides =
     (let args = [AttemptToNext, AppendingErr errMsg, ResettingClaims];
          quar = quarantining t quarantineTo afterMaxAttempts;
          args = (if quar then args @ [QueueTo quarantineTo] else args);
          args = args @ overrides;
          args = (if quar then args @ [ArrivalTimeBy 0] else args)
      in Task_Change t args)"

definition Retry :: "Task \<Rightarrow> string \<Rightarrow> ChangeArg list \<Rightarrow> ModifyArg" where
  "Retry t errMsg overrides = RetryOrQuarantine t errMsg [] 0 overrides"

definition Quarantine :: "Task \<Rightarrow> string \<Rightarrow> string \<Rightarrow> ChangeArg list \<Rightarrow> ModifyArg" where
  "Quarantine t errMsg toQ overrides = RetryOrQuarantine t errMsg toQ 1 overrides"

section \<open>Copies\<close>

text \<open>Appending an empty slice to nil is nil, so a copied empty value becomes nil.\<close>

definition copy_bytes :: "bytes \<Rightarrow> bytes" where
  "copy_bytes v = (if v = Some [] then None else v)"

definition Task_Data :: "Task \<Rightarrow> TaskData" where
  "Task_Data t = \<lparr>td_Queue = t_Queue t, td_by = t_by t, td_Value = t_Value t,
     td_Attempt = t_Attempt t, td_Err = t_Err t, td_ID = t_ID t, td_At = t_At t,
     td_Created = t_Created t, td_Modified = t_Modified t\<rparr>"

definition Task_Copy :: "Task \<Rightarrow> Task" where
  "Task_Copy t = t\<lparr>t_Value := copy_bytes (t_Value t)\<rparr>"

definition CopyOmitValue :: "Task \<Rightarrow> Task" where
  "CopyOmitValue t = t\<lparr>t_Value := None\<rparr>"

definition CopyWithValue :: "Task \<Rightarrow> bool \<Rightarrow> Task" where
  "CopyWithValue t ok = (if ok then Task_Copy t else CopyOmitValue t)"

section \<open>Arrivals\<close>

definition new_Task :: "string \<Rightarrow> Task" where
  "new_Task i = \<lparr>t_Queue = [], t_ID = i, t_Version = 0, t_At = 0, t_Claimant = [], t_Claims = 0,
     t_Value = None, t_Created = 0, t_Modified = 0, t_FromQueue = [], t_by = 0, t_Attempt = 0,
     t_Err = []\<rparr>"

definition TaskArrival_Change :: "TaskArrival \<Rightarrow> Task option \<Rightarrow> Task" where
  "TaskArrival_Change a stored =
     (let i = ta_TaskID a;
          c = (case stored of None \<Rightarrow> new_Task (tid_ID i) | Some t \<Rightarrow> Task_Copy t)
      in c\<lparr>t_Version := tid_Version i, t_Queue := tid_Queue i, t_FromQueue := tid_Queue i,
           t_At := zero_time, t_by := ta_By a\<rparr>)"

definition NewDocSetRef :: "string \<Rightarrow> string \<Rightarrow> int32 \<Rightarrow> DocID" where
  "NewDocSetRef ns key version =
     \<lparr>did_Namespace = ns, did_ID = [], did_Key = key, did_Version = version\<rparr>"

definition DocSet_Ref :: "DocSet \<Rightarrow> DocID" where
  "DocSet_Ref g = NewDocSetRef (ds_Namespace g) (ds_Key g) (ds_Version g)"

record ArrivalEntry =
  ae_rel :: bool
  ae_in :: duration
  ae_at :: time
  ae_tasks :: "Task list"
  ae_sets :: "DocSet list"

definition ReadyNow :: ArrivalEntry where
  "ReadyNow = \<lparr>ae_rel = False, ae_in = 0, ae_at = zero_time, ae_tasks = [], ae_sets = []\<rparr>"

definition ReadyIn :: "duration \<Rightarrow> ArrivalEntry" where
  "ReadyIn d = ReadyNow\<lparr>ae_rel := True, ae_in := d\<rparr>"

definition ReadyAt :: "time \<Rightarrow> ArrivalEntry" where
  "ReadyAt t = ReadyNow\<lparr>ae_at := t\<rparr>"

text \<open>time.Time.Sub saturates at the least and greatest durations.\<close>

definition time_Sub :: "time \<Rightarrow> time \<Rightarrow> duration" where
  "time_Sub t u = max (- (2 ^ 63)) (min (2 ^ 63 - 1) (t - u))"

definition ArrivalEntry_By :: "ArrivalEntry \<Rightarrow> time \<Rightarrow> duration" where
  "ArrivalEntry_By e now =
     (if ae_rel e then ae_in e else if ae_at e = zero_time then 0 else time_Sub (ae_at e) now)"

definition ArrivalEntry_Tasks :: "ArrivalEntry \<Rightarrow> Task list \<Rightarrow> ArrivalEntry" where
  "ArrivalEntry_Tasks e ts = e\<lparr>ae_tasks := ae_tasks e @ ts\<rparr>"

definition ArrivalEntry_Docs :: "ArrivalEntry \<Rightarrow> DocSet list \<Rightarrow> ArrivalEntry" where
  "ArrivalEntry_Docs e gs = e\<lparr>ae_sets := ae_sets e @ gs\<rparr>"

definition Arriving :: "ArrivalEntry list \<Rightarrow> time \<Rightarrow> ModifyArg" where
  "Arriving entries now m =
     fold (\<lambda>e m'. let by = ArrivalEntry_By e now in
        m'\<lparr>m_Arrives := m_Arrives m' @ map (\<lambda>t. \<lparr>ta_TaskID = IDVersion t, ta_By = by\<rparr>) (ae_tasks e),
           m_DocArrives := m_DocArrives m' @ map (\<lambda>g. \<lparr>da_DocID = DocSet_Ref g, da_By = by\<rparr>) (ae_sets e)\<rparr>)
       entries m"

text \<open>Package arrival: a modification's task arrivals as ordinary changes.\<close>

definition arrival_Changes :: "Modification \<Rightarrow> (string \<Rightarrow> Task option) \<Rightarrow> Modification" where
  "arrival_Changes md stored =
     (if m_Arrives md = [] then md
      else md\<lparr>m_Changes := m_Changes md @
                 map (\<lambda>a. TaskArrival_Change a (stored (tid_ID (ta_TaskID a)))) (m_Arrives md),
               m_Arrives := []\<rparr>)"

lemmas change_arg_defs =
  QueueTo_def ArrivalTimeBy_def RawValueTo_def AppendingErr_def ErrTo_def ErrToZero_def
  ResettingClaims_def ResetClaims_def AttemptToNext_def AttemptToZero_def

end
