(* ===== verification/DocOps.thy ===== *)
theory DocOps
  imports TaskOps
begin

text \<open>
  Docs, doc references and doc claims, with the arguments that build modifications and claims
  from them: doc.go.
\<close>

definition MaxClaimDuration :: duration where
  "MaxClaimDuration = 30 * 24 * time_Hour"

section \<open>Doc options\<close>

record docOpts =
  do_id :: string
  do_key :: string
  do_secondaryKey :: string
  do_content :: bytes
  do_by :: duration

type_synonym DocOpt = "docOpts \<Rightarrow> docOpts"

definition zero_docOpts :: docOpts where
  "zero_docOpts = \<lparr>do_id = [], do_key = [], do_secondaryKey = [], do_content = None, do_by = 0\<rparr>"

definition WithKeys :: "string \<Rightarrow> string \<Rightarrow> DocOpt" where
  "WithKeys key secondary o' = o'\<lparr>do_key := key, do_secondaryKey := secondary\<rparr>"

definition WithIDKeys :: "string \<Rightarrow> string \<Rightarrow> string \<Rightarrow> DocOpt" where
  "WithIDKeys i key secondary o' = o'\<lparr>do_id := i, do_key := key, do_secondaryKey := secondary\<rparr>"

definition WithRawContent :: "bytes \<Rightarrow> DocOpt" where
  "WithRawContent val o' = o'\<lparr>do_content := val\<rparr>"

definition WithDocArrivalTimeBy :: "duration \<Rightarrow> DocOpt" where
  "WithDocArrivalTimeBy d o' = o'\<lparr>do_by := d\<rparr>"

section \<open>Doc references\<close>

definition NewDocID :: "string \<Rightarrow> string \<Rightarrow> int32 \<Rightarrow> DocID" where
  "NewDocID ns i version =
     \<lparr>did_Namespace = ns, did_ID = i, did_Key = [], did_Version = version\<rparr>"

definition IsSetRef :: "DocID \<Rightarrow> bool" where
  "IsSetRef r \<longleftrightarrow> did_ID r = [] \<and> did_Key r \<noteq> []"

definition DocID_Delete :: "DocID \<Rightarrow> ModifyArg" where
  "DocID_Delete r m = m\<lparr>m_DocDeletes := m_DocDeletes m @ [r]\<rparr>"

definition DocID_Depend :: "DocID \<Rightarrow> ModifyArg" where
  "DocID_Depend r m = m\<lparr>m_DocDepends := m_DocDepends m @ [r]\<rparr>"

section \<open>Docs\<close>

definition Doc_Data :: "Doc \<Rightarrow> DocData" where
  "Doc_Data r = \<lparr>dd_Namespace = d_Namespace r, dd_ID = d_ID r, dd_by = d_by r, dd_At = d_At r,
     dd_Key = d_Key r, dd_SecondaryKey = d_SecondaryKey r,
     dd_Content = copy_bytes (d_Content r), dd_Created = d_Created r, dd_Modified = d_Modified r\<rparr>"

text \<open>Copy duplicates the content's bytes: the same value.\<close>

definition Doc_Copy :: "Doc \<Rightarrow> Doc" where
  "Doc_Copy r = r"

definition Doc_Change :: "Doc \<Rightarrow> DocOpt list \<Rightarrow> ModifyArg" where
  "Doc_Change r opts m =
     (let o' = fold (\<lambda>opt. opt) opts zero_docOpts;
          nr = (Doc_Copy r)\<lparr>d_At := zero_time, d_by := do_by o'\<rparr>;
          nr = (case do_content o' of
                  Some (c # cs) \<Rightarrow> nr\<lparr>d_Content := Some (c # cs)\<rparr>
                | _ \<Rightarrow> nr)
      in m\<lparr>m_DocChanges := m_DocChanges m @ [nr]\<rparr>)"

definition Doc_IDVersion :: "Doc \<Rightarrow> DocID" where
  "Doc_IDVersion r =
     \<lparr>did_Namespace = d_Namespace r, did_ID = d_ID r, did_Key = [], did_Version = d_Version r\<rparr>"

definition Doc_Delete :: "Doc \<Rightarrow> ModifyArg" where
  "Doc_Delete r = DocID_Delete (Doc_IDVersion r)"

definition Doc_Depend :: "Doc \<Rightarrow> ModifyArg" where
  "Doc_Depend r = DocID_Depend (Doc_IDVersion r)"

definition PuttingDoc :: "DocData \<Rightarrow> ModifyArg" where
  "PuttingDoc rd m = m\<lparr>m_DocInserts := m_DocInserts m @ [rd]\<rparr>"

definition PuttingDocInto :: "string \<Rightarrow> DocOpt list \<Rightarrow> ModifyArg" where
  "PuttingDocInto ns opts m =
     (let o' = fold (\<lambda>opt. opt) opts zero_docOpts;
          rd = \<lparr>dd_Namespace = ns, dd_ID = do_id o', dd_by = do_by o', dd_At = 0,
                dd_Key = do_key o', dd_SecondaryKey = do_secondaryKey o',
                dd_Content = do_content o', dd_Created = 0, dd_Modified = 0\<rparr>
      in m\<lparr>m_DocInserts := m_DocInserts m @ [rd]\<rparr>)"

definition DocsIn :: "DocSet list \<Rightarrow> Doc list" where
  "DocsIn sets = concat (map ds_Docs sets)"

definition DocQuery_Validate :: "DocQuery \<Rightarrow> goerror option" where
  "DocQuery_Validate q =
     (if dq_Namespace q = [] then Some (InvalidArgumentError DocsQueryNoNamespace) else None)"

section \<open>Doc claims\<close>

type_synonym DocClaimArg = "DocClaim \<Rightarrow> DocClaim"

definition ClaimKey :: "string \<Rightarrow> string \<Rightarrow> DocSetClaim" where
  "ClaimKey ns key = \<lparr>dsc_Namespace = ns, dsc_Key = key, dsc_OmitMembers = False\<rparr>"

definition WithoutMembers :: "DocSetClaim \<Rightarrow> DocSetClaim" where
  "WithoutMembers s = s\<lparr>dsc_OmitMembers := True\<rparr>"

definition applyDocClaim :: "DocSetClaim \<Rightarrow> DocClaimArg" where
  "applyDocClaim s c = c\<lparr>dc_Sets := dc_Sets c @ [s]\<rparr>"

definition ClaimingSetsFor :: "duration \<Rightarrow> DocClaimArg" where
  "ClaimingSetsFor d c =
     c\<lparr>dc_Duration := d, dc_TaskToMatch := None, dc_leases := dc_leases c + 1\<rparr>"

definition MatchingLeaseOf :: "Task \<Rightarrow> DocClaimArg" where
  "MatchingLeaseOf t c =
     c\<lparr>dc_Duration := 0, dc_TaskToMatch := Some (IDVersion t), dc_leases := dc_leases c + 1\<rparr>"

definition ClaimingSetsAs :: "string \<Rightarrow> DocClaimArg" where
  "ClaimingSetsAs claimant c = c\<lparr>dc_Claimant := claimant\<rparr>"

definition NewDocClaim :: "DocClaimArg list \<Rightarrow> DocClaim" where
  "NewDocClaim args =
     fold (\<lambda>a. a) args
       \<lparr>dc_Sets = [], dc_Claimant = [], dc_Duration = 0, dc_TaskToMatch = None, dc_leases = 0\<rparr>"

text \<open>The loop of Validate over the sets, with the namespace and key pairs already seen.\<close>

fun check_claim_sets :: "(string \<times> string) list \<Rightarrow> DocSetClaim list \<Rightarrow> goerror option" where
  "check_claim_sets seen [] = None"
| "check_claim_sets seen (s # ss) =
     (if dsc_Namespace s = [] then Some (InvalidArgumentError DocClaimSetNoNamespace)
      else if dsc_Key s = [] then Some (InvalidArgumentError DocClaimSetNoKey)
      else let k = (dsc_Namespace s, dsc_Key s) in
        if k \<in> set seen
        then Some (InvalidArgumentError (DocClaimSetTwice (dsc_Key s) (dsc_Namespace s)))
        else check_claim_sets (k # seen) ss)"

definition DocClaim_Validate :: "DocClaim \<Rightarrow> goerror option" where
  "DocClaim_Validate q =
     (if dc_Sets q = [] then Some (InvalidArgumentError DocClaimNoSet)
      else err_or (check_claim_sets [] (dc_Sets q))
        (if dc_Claimant q = [] then Some (InvalidArgumentError DocClaimNoClaimant)
         else if dc_leases q > 1 then Some (InvalidArgumentError DocClaimTwoLeases)
         else if dc_Duration q < 0 then Some (InvalidArgumentError (DocClaimNegative (dc_Duration q)))
         else if dc_Duration q > MaxClaimDuration
              then Some (InvalidArgumentError (DocClaimTooLong (dc_Duration q)))
         else case dc_TaskToMatch q of
                None \<Rightarrow> None
              | Some t \<Rightarrow>
                  if dc_Duration q > 0 then Some (InvalidArgumentError DocClaimDurationAndTask)
                  else if tid_ID t = [] \<or> tid_Queue t = []
                       then Some (InvalidArgumentError (DocClaimBadTask t))
                  else None))"

definition set_of_claim :: "DocSetClaim \<Rightarrow> string \<times> string" where
  "set_of_claim s = (dsc_Namespace s, dsc_Key s)"

lemma check_claim_sets_None:
  "check_claim_sets seen ss = None \<longleftrightarrow>
     (\<forall>s \<in> set ss. dsc_Namespace s \<noteq> [] \<and> dsc_Key s \<noteq> []) \<and>
     distinct (map set_of_claim ss) \<and> set (map set_of_claim ss) \<inter> set seen = {}"
  by (induction ss arbitrary: seen) (auto simp: Let_def set_of_claim_def split: if_splits)

lemma DocClaim_Validate_None:
  "DocClaim_Validate q = None \<longleftrightarrow>
     dc_Sets q \<noteq> [] \<and> (\<forall>s \<in> set (dc_Sets q). dsc_Namespace s \<noteq> [] \<and> dsc_Key s \<noteq> []) \<and>
     distinct (map set_of_claim (dc_Sets q)) \<and> dc_Claimant q \<noteq> [] \<and> dc_leases q \<le> 1 \<and>
     0 \<le> dc_Duration q \<and> dc_Duration q \<le> MaxClaimDuration \<and>
     (\<forall>t. dc_TaskToMatch q = Some t \<longrightarrow> dc_Duration q = 0 \<and> tid_ID t \<noteq> [] \<and> tid_Queue t \<noteq> [])"
  by (auto simp: DocClaim_Validate_def check_claim_sets_None not_less split: option.splits if_splits)

end
