(* ===== verification/Modifications.thy ===== *)
theory Modifications
  imports DocOps
begin

text \<open>
  Claim queries, modifications and dependency errors: entroq.go. The first part holds the
  definitions, the second the facts about them that every backend relies on.
\<close>

section \<open>Claim queries\<close>

definition DefaultClaimPollTime :: duration where
  "DefaultClaimPollTime = 30 * time_Second"

definition DefaultClaimDuration :: duration where
  "DefaultClaimDuration = 45 * time_Second"

text \<open>int64 arithmetic: the product wraps and the division truncates.\<close>

definition RenewalDurationFor :: "duration \<Rightarrow> duration" where
  "RenewalDurationFor lease = wrap64 (lease * 2) sdiv 3"

definition ClaimQuery_Validate :: "ClaimQuery \<Rightarrow> goerror option" where
  "ClaimQuery_Validate q =
     (if cq_Queues q = [] then Some (InvalidArgumentError ClaimNoQueue)
      else if cq_Claimant q = [] then Some (InvalidArgumentError ClaimNoClaimant)
      else if cq_Duration q \<le> 0
           then Some (InvalidArgumentError (ClaimDurationNotPositive (cq_Duration q)))
      else if cq_Duration q > MaxClaimDuration
           then Some (InvalidArgumentError (ClaimDurationTooLong (cq_Duration q)))
      else None)"

type_synonym ClaimOpt = "ClaimQuery \<Rightarrow> ClaimQuery"

definition WithClaimant :: "string \<Rightarrow> ClaimOpt" where
  "WithClaimant i q = q\<lparr>cq_Claimant := i\<rparr>"

definition ClaimPollTime :: "duration \<Rightarrow> ClaimOpt" where
  "ClaimPollTime d q = q\<lparr>cq_PollTime := d\<rparr>"

definition ClaimFor :: "duration \<Rightarrow> ClaimOpt" where
  "ClaimFor d q = q\<lparr>cq_Duration := d\<rparr>"

text \<open>\<open>ord\<close> is the order in which Go ranges over the map of queue names.\<close>

definition From :: "(string list \<Rightarrow> string list) \<Rightarrow> string list \<Rightarrow> ClaimOpt" where
  "From ord qs q = q\<lparr>cq_Queues := ord (remdups (qs @ cq_Queues q))\<rparr>"

definition claimQueryFromOpts :: "string \<Rightarrow> ClaimOpt list \<Rightarrow> ClaimQuery" where
  "claimQueryFromOpts claimant opts =
     (let query = fold (\<lambda>opt. opt) opts
            \<lparr>cq_Queues = [], cq_Claimant = claimant, cq_Duration = DefaultClaimDuration,
             cq_PollTime = DefaultClaimPollTime\<rparr>
      in if cq_Duration query = 0 then query\<lparr>cq_Duration := DefaultClaimDuration\<rparr> else query)"

definition NewClaimQuery :: "ClaimOpt list \<Rightarrow> ClaimQuery" where
  "NewClaimQuery opts = claimQueryFromOpts [] opts"

section \<open>Arrival times\<close>

definition ArrivalPastWindow :: duration where
  "ArrivalPastWindow = 365 * 24 * time_Hour"

definition NormalizeArrival :: "time \<Rightarrow> time \<Rightarrow> time" where
  "NormalizeArrival at now = (if at < now - ArrivalPastWindow then now else at)"

text \<open>
  NotifyModified: the queues to notify, one for each task that is available at the instant it was
  modified. The map from ID to queue keeps the last queue written for an ID.
\<close>

definition NotifyModified :: "Task list \<Rightarrow> Task list \<Rightarrow> string list" where
  "NotifyModified inserted changed =
     (let qs = fold (\<lambda>t qs. if \<not> t_At t > t_Modified t then gm_set (t_ID t) (t_Queue t) qs else qs)
                 (inserted @ changed) []
      in map snd qs)"

section \<open>Building modifications\<close>

definition ModifyAs :: "string \<Rightarrow> ModifyArg" where
  "ModifyAs i m = m\<lparr>m_Claimant := i\<rparr>"

definition WithModification :: "Modification \<Rightarrow> ModifyArg" where
  "WithModification src dest = dest\<lparr>
     m_Inserts := m_Inserts dest @ m_Inserts src,
     m_Changes := m_Changes dest @ m_Changes src,
     m_Deletes := m_Deletes dest @ m_Deletes src,
     m_Depends := m_Depends dest @ m_Depends src,
     m_Arrives := m_Arrives dest @ m_Arrives src,
     m_DocInserts := m_DocInserts dest @ m_DocInserts src,
     m_DocChanges := m_DocChanges dest @ m_DocChanges src,
     m_DocDeletes := m_DocDeletes dest @ m_DocDeletes src,
     m_DocDepends := m_DocDepends dest @ m_DocDepends src,
     m_DocArrives := m_DocArrives dest @ m_DocArrives src,
     m_resetClaims := m_resetClaims dest \<union> m_resetClaims src\<rparr>"

definition NewModification :: "string \<Rightarrow> ModifyArg list \<Rightarrow> Modification" where
  "NewModification claimant modArgs =
     fold (\<lambda>arg. arg) modArgs (zero_Modification\<lparr>m_Claimant := claimant\<rparr>)"

definition IsEmpty :: "Modification \<Rightarrow> bool" where
  "IsEmpty m \<longleftrightarrow>
     length (m_Inserts m) + length (m_Changes m) + length (m_Deletes m) + length (m_Depends m) +
     length (m_Arrives m) + length (m_DocInserts m) + length (m_DocChanges m) +
     length (m_DocDeletes m) + length (m_DocDepends m) + length (m_DocArrives m) = 0"

text \<open>The loop over doc arrivals, with the sets already seen.\<close>

fun check_doc_arrives :: "(string \<times> string) list \<Rightarrow> DocArrival list \<Rightarrow> goerror option" where
  "check_doc_arrives seen [] = None"
| "check_doc_arrives seen (a # as) =
     (let r = da_DocID a; k = (did_Namespace r, did_Key r) in
      if \<not> IsSetRef r then Some (InvalidArgumentError (DocArriveNotSet r))
      else if did_Namespace r = [] then Some (InvalidArgumentError (DocArriveNoNamespace (did_Key r)))
      else if k \<in> set seen
           then Some (InvalidArgumentError (DocArriveTwice (did_Key r) (did_Namespace r)))
      else check_doc_arrives (k # seen) as)"

definition EnsureModifyKeys :: "Modification \<Rightarrow> goerror option" where
  "EnsureModifyKeys m =
     (if IsEmpty m then Some (InvalidArgumentError NothingToDo) else
      err_or (first_some (\<lambda>ins. if td_Queue ins = []
                then Some (InvalidArgumentError (InsertNoQueue (td_ID ins))) else None) (m_Inserts m))
     (err_or (first_some (\<lambda>c. if t_Queue c = []
                then Some (InvalidArgumentError (ChangeNoQueue (t_ID c))) else None) (m_Changes m))
     (err_or (first_some (\<lambda>a. if tid_Queue (ta_TaskID a) = []
                then Some (InvalidArgumentError (ArriveNoQueue (tid_ID (ta_TaskID a)))) else None)
                (m_Arrives m))
     (err_or (first_some (\<lambda>ins. if dd_Namespace ins = []
                then Some (InvalidArgumentError (DocInsertNoNamespace (dd_ID ins))) else None)
                (m_DocInserts m))
       (check_doc_arrives [] (m_DocArrives m))))))"

section \<open>Dependencies named by a modification\<close>

type_synonym deps = "(string, int32) gomap"

definition addTaskDep :: "string \<Rightarrow> int32 \<Rightarrow> deps \<Rightarrow> goerror + deps" where
  "addTaskDep i version deps =
     (case map_of deps i of
        Some _ \<Rightarrow> Inl (InvalidArgumentError (TaskInTwoOps i))
      | None \<Rightarrow> Inr (gm_set i version deps))"

definition DocKey :: "string \<Rightarrow> string \<Rightarrow> string" where
  "DocKey ns i = ns @ [CHR 0x00] @ i"

definition addDocDep :: "string \<Rightarrow> string \<Rightarrow> int32 \<Rightarrow> deps \<Rightarrow> goerror + deps" where
  "addDocDep ns i version deps =
     (case map_of deps (DocKey ns i) of
        Some _ \<Rightarrow> Inl (InvalidArgumentError (DocInTwoOps i ns))
      | None \<Rightarrow> Inr (gm_set (DocKey ns i) version deps))"

definition modDependencies :: "Modification \<Rightarrow> goerror + deps \<times> deps" where
  "modDependencies m =
     sbind (foldE (\<lambda>t. addTaskDep (t_ID t) (t_Version t)) (m_Changes m) []) (\<lambda>ts.
     sbind (foldE (\<lambda>t. addTaskDep (tid_ID t) (tid_Version t)) (m_Deletes m) ts) (\<lambda>ts.
     sbind (foldE (\<lambda>a. addTaskDep (tid_ID (ta_TaskID a)) (tid_Version (ta_TaskID a)))
              (m_Arrives m) ts) (\<lambda>ts.
     sbind (foldE (\<lambda>d. addDocDep (d_Namespace d) (d_ID d) (d_Version d)) (m_DocChanges m) []) (\<lambda>ds.
     sbind (foldE (\<lambda>d. addDocDep (did_Namespace d) (did_ID d) (did_Version d)) (m_DocDeletes m) ds)
       (\<lambda>ds. Inr (ts, ds))))))"

definition AllDependencies :: "Modification \<Rightarrow> goerror + deps \<times> deps" where
  "AllDependencies m =
     sbind (modDependencies m) (\<lambda>(ts, ds).
     sbind (foldE (\<lambda>t. addTaskDep (tid_ID t) (tid_Version t)) (m_Depends m) ts) (\<lambda>ts.
     sbind (foldE (\<lambda>t ts. if td_ID t = [] then Inr ts else addTaskDep (td_ID t) (- 1) ts)
              (m_Inserts m) ts) (\<lambda>ts.
     sbind (foldE (\<lambda>d. addDocDep (did_Namespace d) (did_ID d) (did_Version d)) (m_DocDepends m) ds) (\<lambda>ds.
     sbind (foldE (\<lambda>d ds. if dd_ID d = [] then Inr ds else addDocDep (dd_Namespace d) (dd_ID d) (- 1) ds)
              (m_DocInserts m) ds) (\<lambda>ds.
     Inr (ts, ds))))))"

section \<open>Checking a modification against what is stored\<close>

definition otherwiseClaimed :: "Modification \<Rightarrow> Task \<Rightarrow> time \<Rightarrow> bool" where
  "otherwiseClaimed m t now \<longleftrightarrow>
     t_At t > now \<and> t_Claimant t \<noteq> [] \<and> t_Claimant t \<noteq> m_Claimant m"

definition badInserts :: "Modification \<Rightarrow> (string \<rightharpoonup> Task) \<Rightarrow> TaskID list" where
  "badInserts m foundDeps =
     concat (map (\<lambda>t. case foundDeps (td_ID t) of Some f \<Rightarrow> [IDVersion f] | None \<Rightarrow> []) (m_Inserts m))"

definition missing_at :: "(string \<rightharpoonup> Task) \<Rightarrow> string \<Rightarrow> int32 \<Rightarrow> bool" where
  "missing_at found i v \<longleftrightarrow> (case found i of None \<Rightarrow> True | Some f \<Rightarrow> t_Version f \<noteq> v)"

definition claimed_at :: "Modification \<Rightarrow> (string \<rightharpoonup> Task) \<Rightarrow> time \<Rightarrow> string \<Rightarrow> int32 \<Rightarrow> bool" where
  "claimed_at m found now i v \<longleftrightarrow>
     (case found i of None \<Rightarrow> False | Some f \<Rightarrow> t_Version f = v \<and> otherwiseClaimed m f now)"

definition badChanges :: "Modification \<Rightarrow> (string \<rightharpoonup> Task) \<Rightarrow> time \<Rightarrow> TaskID list \<times> TaskID list" where
  "badChanges m foundDeps now =
     (let idOf = (\<lambda>t. \<lparr>tid_ID = t_ID t, tid_Version = t_Version t, tid_Queue = []\<rparr>) in
      (map idOf (filter (\<lambda>t. missing_at foundDeps (t_ID t) (t_Version t)) (m_Changes m)),
       map idOf (filter (\<lambda>t. claimed_at m foundDeps now (t_ID t) (t_Version t)) (m_Changes m))))"

definition badDeletes :: "Modification \<Rightarrow> (string \<rightharpoonup> Task) \<Rightarrow> time \<Rightarrow> TaskID list \<times> TaskID list" where
  "badDeletes m foundDeps now =
     (filter (\<lambda>t. missing_at foundDeps (tid_ID t) (tid_Version t)) (m_Deletes m),
      filter (\<lambda>t. claimed_at m foundDeps now (tid_ID t) (tid_Version t)) (m_Deletes m))"

definition missingDepends :: "Modification \<Rightarrow> (string \<rightharpoonup> Task) \<Rightarrow> TaskID list" where
  "missingDepends m foundDeps =
     filter (\<lambda>t. missing_at foundDeps (tid_ID t) (tid_Version t)) (m_Depends m)"

definition badDocInserts :: "Modification \<Rightarrow> (string \<rightharpoonup> Doc) \<Rightarrow> DocID list" where
  "badDocInserts m found =
     map (\<lambda>ins. NewDocID (dd_Namespace ins) (dd_ID ins) 0)
       (filter (\<lambda>ins. dd_ID ins \<noteq> [] \<and> found (DocKey (dd_Namespace ins) (dd_ID ins)) \<noteq> None)
         (m_DocInserts m))"

definition doc_missing_at :: "(string \<rightharpoonup> Doc) \<Rightarrow> string \<Rightarrow> string \<Rightarrow> int32 \<Rightarrow> bool" where
  "doc_missing_at found ns i v \<longleftrightarrow>
     (case found (DocKey ns i) of None \<Rightarrow> True | Some r \<Rightarrow> d_Version r \<noteq> v)"

definition doc_claimed_at ::
    "Modification \<Rightarrow> (string \<rightharpoonup> Doc) \<Rightarrow> time \<Rightarrow> string \<Rightarrow> string \<Rightarrow> int32 \<Rightarrow> bool" where
  "doc_claimed_at m found now ns i v \<longleftrightarrow>
     (case found (DocKey ns i) of None \<Rightarrow> False
      | Some r \<Rightarrow> d_Version r = v \<and> d_Claimant r \<noteq> [] \<and> d_Claimant r \<noteq> m_Claimant m \<and> now < d_At r)"

definition badDocChanges :: "Modification \<Rightarrow> (string \<rightharpoonup> Doc) \<Rightarrow> time \<Rightarrow> DocID list \<times> DocID list" where
  "badDocChanges m found now =
     (let idOf = (\<lambda>c. NewDocID (d_Namespace c) (d_ID c) (d_Version c)) in
      (map idOf (filter (\<lambda>c. doc_missing_at found (d_Namespace c) (d_ID c) (d_Version c)) (m_DocChanges m)),
       map idOf (filter (\<lambda>c. doc_claimed_at m found now (d_Namespace c) (d_ID c) (d_Version c))
                   (m_DocChanges m))))"

definition badDocDeletes :: "Modification \<Rightarrow> (string \<rightharpoonup> Doc) \<Rightarrow> time \<Rightarrow> DocID list \<times> DocID list" where
  "badDocDeletes m found now =
     (filter (\<lambda>d. doc_missing_at found (did_Namespace d) (did_ID d) (did_Version d)) (m_DocDeletes m),
      filter (\<lambda>d. doc_claimed_at m found now (did_Namespace d) (did_ID d) (did_Version d)) (m_DocDeletes m))"

definition missingDocDepends :: "Modification \<Rightarrow> (string \<rightharpoonup> Doc) \<Rightarrow> DocID list" where
  "missingDocDepends m found =
     filter (\<lambda>d. doc_missing_at found (did_Namespace d) (did_ID d) (did_Version d)) (m_DocDepends m)"

definition Modification_DependencyError ::
    "Modification \<Rightarrow> (string \<rightharpoonup> Task) \<Rightarrow> (string \<rightharpoonup> Doc) \<Rightarrow> time \<Rightarrow> DependencyError option" where
  "Modification_DependencyError m found foundDocs now =
     (let presentInserts = badInserts m found;
          (missingChanges, claimedChanges) = badChanges m found now;
          (missingDeletes, claimedDeletes) = badDeletes m found now;
          missDepends = missingDepends m found;
          presentDocIns = badDocInserts m foundDocs;
          (missingDocChg, claimedDocChg) = badDocChanges m foundDocs now;
          (missingDocDel, claimedDocDel) = badDocDeletes m foundDocs now;
          missingDocDep = missingDocDepends m foundDocs
      in if presentInserts \<noteq> [] \<or> missingChanges \<noteq> [] \<or> claimedChanges \<noteq> [] \<or>
            missingDeletes \<noteq> [] \<or> claimedDeletes \<noteq> [] \<or> missDepends \<noteq> [] \<or>
            presentDocIns \<noteq> [] \<or> missingDocChg \<noteq> [] \<or> claimedDocChg \<noteq> [] \<or>
            missingDocDel \<noteq> [] \<or> claimedDocDel \<noteq> [] \<or> missingDocDep \<noteq> []
         then Some (zero_DependencyError\<lparr>
                de_Inserts := presentInserts, de_Changes := missingChanges,
                de_Deletes := missingDeletes, de_Depends := missDepends,
                de_Claims := claimedDeletes @ claimedChanges,
                de_DocInserts := presentDocIns, de_DocChanges := missingDocChg,
                de_DocDeletes := missingDocDel, de_DocDepends := missingDocDep,
                de_DocClaims := claimedDocDel @ claimedDocChg\<rparr>)
         else None)"

section \<open>Dependency errors\<close>

definition HasMissing :: "DependencyError \<Rightarrow> bool" where
  "HasMissing m \<longleftrightarrow> de_Depends m \<noteq> [] \<or> de_Deletes m \<noteq> [] \<or> de_Changes m \<noteq> [] \<or> de_Arrives m \<noteq> []"

definition HasMissingDocs :: "DependencyError \<Rightarrow> bool" where
  "HasMissingDocs m \<longleftrightarrow>
     de_DocDepends m \<noteq> [] \<or> de_DocDeletes m \<noteq> [] \<or> de_DocChanges m \<noteq> [] \<or> de_DocArrives m \<noteq> []"

definition HasClaimedDocs :: "DependencyError \<Rightarrow> bool" where
  "HasClaimedDocs m \<longleftrightarrow> de_DocClaims m \<noteq> []"

definition HasClaims :: "DependencyError \<Rightarrow> bool" where
  "HasClaims m \<longleftrightarrow> de_Claims m \<noteq> []"

definition HasCollisions :: "DependencyError \<Rightarrow> bool" where
  "HasCollisions m \<longleftrightarrow> de_Inserts m \<noteq> [] \<or> de_DocInserts m \<noteq> []"

definition HasAny :: "DependencyError \<Rightarrow> bool" where
  "HasAny m \<longleftrightarrow> HasMissing m \<or> HasCollisions m \<or> HasClaims m \<or> HasMissingDocs m \<or> HasClaimedDocs m"

definition OnlyCollisions :: "DependencyError \<Rightarrow> bool" where
  "OnlyCollisions m \<longleftrightarrow> HasCollisions m \<and> \<not> HasMissing m \<and> \<not> HasClaims m \<and>
     \<not> HasMissingDocs m \<and> \<not> HasClaimedDocs m"

definition OnlyClaims :: "DependencyError \<Rightarrow> bool" where
  "OnlyClaims m \<longleftrightarrow> \<not> HasMissing m \<and> \<not> HasCollisions m \<and> \<not> HasMissingDocs m"

definition Implicates :: "DependencyError \<Rightarrow> string \<Rightarrow> bool" where
  "Implicates m i \<longleftrightarrow>
     (let match = (\<lambda>t. tid_ID t = i) in
      list_ex match (de_Inserts m) \<or> list_ex match (de_Depends m) \<or> list_ex match (de_Deletes m) \<or>
      list_ex match (de_Changes m) \<or> list_ex match (de_Arrives m) \<or> list_ex match (de_Claims m))"

text \<open>The loops of dedupTaskIDs and dedupDocIDs, with the keys already seen.\<close>

fun dedup_by :: "('a \<Rightarrow> 'k) \<Rightarrow> 'k list \<Rightarrow> 'a list \<Rightarrow> 'a list" where
  "dedup_by key seen [] = []"
| "dedup_by key seen (x # xs) =
     (if key x \<in> set seen then dedup_by key seen xs else x # dedup_by key (key x # seen) xs)"

definition dedupTaskIDs :: "TaskID list \<Rightarrow> TaskID list" where
  "dedupTaskIDs ids = dedup_by tid_ID [] ids"

definition doc_ref_key :: "DocID \<Rightarrow> string \<times> string \<times> string" where
  "doc_ref_key d = (did_Namespace d, did_ID d, did_Key d)"

definition dedupDocIDs :: "DocID list \<Rightarrow> DocID list" where
  "dedupDocIDs ids = dedup_by doc_ref_key [] ids"

text \<open>The error built from the lists of both.\<close>

definition merged_errors :: "DependencyError \<Rightarrow> DependencyError \<Rightarrow> DependencyError" where
  "merged_errors m other =
    \<lparr>de_Inserts = dedupTaskIDs (de_Inserts m @ de_Inserts other),
      de_Depends = dedupTaskIDs (de_Depends m @ de_Depends other),
      de_Deletes = dedupTaskIDs (de_Deletes m @ de_Deletes other),
      de_Changes = dedupTaskIDs (de_Changes m @ de_Changes other),
      de_Claims = dedupTaskIDs (de_Claims m @ de_Claims other),
      de_Arrives = dedupTaskIDs (de_Arrives m @ de_Arrives other),
      de_DocInserts = dedupDocIDs (de_DocInserts m @ de_DocInserts other),
      de_DocDepends = dedupDocIDs (de_DocDepends m @ de_DocDepends other),
      de_DocDeletes = dedupDocIDs (de_DocDeletes m @ de_DocDeletes other),
      de_DocChanges = dedupDocIDs (de_DocChanges m @ de_DocChanges other),
      de_DocClaims = dedupDocIDs (de_DocClaims m @ de_DocClaims other),
      de_DocArrives = dedupDocIDs (de_DocArrives m @ de_DocArrives other),
      de_Message = (if de_Message m = NoMsg then de_Message other else de_Message m)\<rparr>"

definition Merge :: "DependencyError option \<Rightarrow> DependencyError option \<Rightarrow> DependencyError option" where
  "Merge mo oo =
     (let m = (case mo of None \<Rightarrow> zero_DependencyError | Some e \<Rightarrow> e);
          other = (case oo of None \<Rightarrow> zero_DependencyError | Some e \<Rightarrow> e);
          merged = merged_errors m other
      in if HasAny merged then Some merged else None)"

definition nameArrivals :: "Modification \<Rightarrow> DependencyError \<Rightarrow> DependencyError" where
  "nameArrivals md m =
     (if m_Arrives md = [] then m
      else let arriving = (\<lambda>c. tid_ID c \<in> set (map (\<lambda>a. tid_ID (ta_TaskID a)) (m_Arrives md)))
           in m\<lparr>de_Arrives := de_Arrives m @ filter arriving (de_Changes m),
                de_Changes := filter (\<lambda>c. \<not> arriving c) (de_Changes m)\<rparr>)"

section \<open>Facts about the dependencies of a modification\<close>

text \<open>The IDs of the tasks and the keys of the docs a modification names, operation by operation.\<close>

definition task_op_ids :: "Modification \<Rightarrow> string list" where
  "task_op_ids m =
     map t_ID (m_Changes m) @ map tid_ID (m_Deletes m) @ map (\<lambda>a. tid_ID (ta_TaskID a)) (m_Arrives m) @
     map tid_ID (m_Depends m) @ filter (\<lambda>i. i \<noteq> []) (map td_ID (m_Inserts m))"

definition doc_op_keys :: "Modification \<Rightarrow> string list" where
  "doc_op_keys m =
     map (\<lambda>d. DocKey (d_Namespace d) (d_ID d)) (m_DocChanges m) @
     map (\<lambda>d. DocKey (did_Namespace d) (did_ID d)) (m_DocDeletes m) @
     map (\<lambda>d. DocKey (did_Namespace d) (did_ID d)) (m_DocDepends m) @
     map (\<lambda>d. DocKey (dd_Namespace d) (dd_ID d)) (filter (\<lambda>d. dd_ID d \<noteq> []) (m_DocInserts m))"

text \<open>
  Both kinds of dependency are added by the same loop: reject a key already present, else record
  it. Its two instances are \<open>addTaskDep\<close> and \<open>addDocDep\<close>.
\<close>

definition adds_key :: "('a \<Rightarrow> deps \<Rightarrow> goerror + deps) \<Rightarrow> ('a \<Rightarrow> string option) \<Rightarrow> bool" where
  "adds_key f key \<longleftrightarrow> (\<forall>x deps. case key x of
       None \<Rightarrow> f x deps = Inr deps
     | Some k \<Rightarrow> (case map_of deps k of
                    Some _ \<Rightarrow> \<exists>i. f x deps = Inl (InvalidArgumentError i)
                  | None \<Rightarrow> \<exists>v. f x deps = Inr (gm_set k v deps)))"

lemma adds_key_task: "adds_key (\<lambda>x. addTaskDep (i x) (v x)) (\<lambda>x. Some (i x))"
  by (auto simp: adds_key_def addTaskDep_def split: option.splits)

lemma adds_key_doc: "adds_key (\<lambda>x. addDocDep (ns x) (i x) (v x)) (\<lambda>x. Some (DocKey (ns x) (i x)))"
  by (auto simp: adds_key_def addDocDep_def split: option.splits)

lemma adds_key_task_opt:
  "adds_key (\<lambda>x deps. if i x = [] then Inr deps else addTaskDep (i x) (v x) deps)
     (\<lambda>x. if i x = [] then None else Some (i x))"
  by (auto simp: adds_key_def addTaskDep_def split: option.splits)

lemma adds_key_doc_opt:
  "adds_key (\<lambda>x deps. if i x = [] then Inr deps else addDocDep (ns x) (i x) (v x) deps)
     (\<lambda>x. if i x = [] then None else Some (DocKey (ns x) (i x)))"
  by (auto simp: adds_key_def addDocDep_def split: option.splits)

lemmas adds_keys = adds_key_task adds_key_doc adds_key_task_opt adds_key_doc_opt

lemma adds_key_step:
  assumes "adds_key f key"
  shows "f x deps = Inr deps' \<Longrightarrow>
      (case key x of None \<Rightarrow> deps' = deps
       | Some k \<Rightarrow> k \<notin> dom (map_of deps) \<and> (\<exists>v. deps' = gm_set k v deps))"
    and "f x deps = Inl e \<Longrightarrow> (\<exists>k. key x = Some k \<and> k \<in> dom (map_of deps)) \<and> IsInvalidArgument e"
  using assms[unfolded adds_key_def, rule_format, of x deps]
  by (auto split: option.splits)

lemma foldE_adds_key_Inr:
  assumes "adds_key f key" and "foldE f xs deps = Inr deps'"
  shows "distinct (List.map_filter key xs) \<and> set (List.map_filter key xs) \<inter> dom (map_of deps) = {} \<and>
         dom (map_of deps') = dom (map_of deps) \<union> set (List.map_filter key xs)"
  using assms(2)
proof (induction xs arbitrary: deps)
  case (Cons x xs)
  then obtain d1 where s: "f x deps = Inr d1" and r: "foldE f xs d1 = Inr deps'"
    by (auto simp: sbind_Inr_iff)
  have st: "case key x of None \<Rightarrow> d1 = deps
       | Some k \<Rightarrow> k \<notin> dom (map_of deps) \<and> (\<exists>v. d1 = gm_set k v deps)"
    using adds_key_step(1)[OF assms(1) s] .
  show ?case
    using Cons.IH[OF r] st
    by (cases "key x") (auto simp: map_filter_simps dom_def)
qed (simp add: map_filter_simps)

lemma foldE_adds_key_Inl:
  assumes "adds_key f key" and "foldE f xs deps = Inl e"
  shows "\<not> (distinct (List.map_filter key xs) \<and> set (List.map_filter key xs) \<inter> dom (map_of deps) = {}) \<and>
         IsInvalidArgument e"
  using assms(2)
proof (induction xs arbitrary: deps)
  case (Cons x xs)
  consider "f x deps = Inl e" | d1 where "f x deps = Inr d1" "foldE f xs d1 = Inl e"
    using Cons.prems by (auto simp: sbind_Inl_iff)
  then show ?case
  proof cases
    case 1
    from adds_key_step(2)[OF assms(1) this] show ?thesis
      by (auto simp: map_filter_simps dom_def)
  next
    case 2
    have st: "case key x of None \<Rightarrow> d1 = deps
       | Some k \<Rightarrow> k \<notin> dom (map_of deps) \<and> (\<exists>v. d1 = gm_set k v deps)"
      using adds_key_step(1)[OF assms(1) 2(1)] .
    from Cons.IH[OF 2(2)] st show ?thesis
      by (cases "key x") (auto simp: map_filter_simps dom_def split: if_splits)
  qed
qed simp

lemma map_filter_Some: "List.map_filter (\<lambda>x. Some (f x)) xs = map f xs"
  by (induction xs) (simp_all add: map_filter_simps)

lemma map_filter_nonempty:
  "List.map_filter (\<lambda>x. if i x = [] then None else Some (k x)) xs = map k (filter (\<lambda>x. i x \<noteq> []) xs)"
  by (induction xs) (simp_all add: map_filter_simps)

lemmas map_filters = map_filter_Some map_filter_nonempty

lemma filter_map_nonempty: "filter (\<lambda>i. i \<noteq> []) (map f xs) = map f (filter (\<lambda>x. f x \<noteq> []) xs)"
  by (induction xs) auto

text \<open>
  Whether a chain of such loops succeeds depends only on the keys they add: the rule peels one
  loop off a chain whose rest depends only on the keys recorded so far.
\<close>

definition deps_post :: "bool \<Rightarrow> ('a \<Rightarrow> bool) \<Rightarrow> goerror + 'a \<Rightarrow> bool" where
  "deps_post ok P r = (case r of Inl e \<Rightarrow> IsInvalidArgument e \<and> \<not> ok | Inr y \<Rightarrow> ok \<and> P y)"

lemma adds_key_chain:
  assumes "adds_key f key" and "dom (map_of deps) = A" and "List.map_filter key xs = ks"
    and "\<And>d. dom (map_of d) = A \<union> set ks \<Longrightarrow> deps_post R P (K d)"
  shows "deps_post (distinct ks \<and> set ks \<inter> A = {} \<and> R) P (sbind (foldE f xs deps) K)"
proof (cases "foldE f xs deps")
  case (Inl e)
  with foldE_adds_key_Inl[OF assms(1) Inl] assms(2,3) show ?thesis by (auto simp: deps_post_def)
next
  case (Inr d)
  with foldE_adds_key_Inr[OF assms(1) Inr] assms(2,3) assms(4)[of d] show ?thesis
    by (auto simp: deps_post_def split: sum.splits)
qed

lemma deps_distinct:
  "(distinct c \<and> set c \<inter> {} = {} \<and> (distinct d \<and> set d \<inter> ({} \<union> set c) = {} \<and>
    (distinct a \<and> set a \<inter> ({} \<union> set c \<union> set d) = {} \<and>
    (distinct dc \<and> set dc \<inter> {} = {} \<and> (distinct dd \<and> set dd \<inter> ({} \<union> set dc) = {} \<and>
    (distinct p \<and> set p \<inter> ({} \<union> set c \<union> set d \<union> set a) = {} \<and>
    (distinct i \<and> set i \<inter> ({} \<union> set c \<union> set d \<union> set a \<union> set p) = {} \<and>
    (distinct dp \<and> set dp \<inter> ({} \<union> set dc \<union> set dd) = {} \<and>
    (distinct di \<and> set di \<inter> ({} \<union> set dc \<union> set dd \<union> set dp) = {} \<and> True))))))))) \<longleftrightarrow>
   distinct (c @ d @ a @ p @ i) \<and> distinct (dc @ dd @ dp @ di)"
  by (simp add: Int_Un_distrib Int_Un_distrib2, simp only: Int_commute conj_ac)

lemma AllDependencies_post:
  "deps_post (distinct (task_op_ids m) \<and> distinct (doc_op_keys m))
     (\<lambda>(ts, ds). dom (map_of ts) = set (task_op_ids m) \<and> dom (map_of ds) = set (doc_op_keys m))
     (AllDependencies m)"
proof -
  let ?c = "map t_ID (m_Changes m)" and ?d = "map tid_ID (m_Deletes m)"
    and ?a = "map (\<lambda>a. tid_ID (ta_TaskID a)) (m_Arrives m)" and ?p = "map tid_ID (m_Depends m)"
    and ?i = "map td_ID (filter (\<lambda>t. td_ID t \<noteq> []) (m_Inserts m))"
  let ?dc = "map (\<lambda>d. DocKey (d_Namespace d) (d_ID d)) (m_DocChanges m)"
    and ?dd = "map (\<lambda>d. DocKey (did_Namespace d) (did_ID d)) (m_DocDeletes m)"
    and ?dp = "map (\<lambda>d. DocKey (did_Namespace d) (did_ID d)) (m_DocDepends m)"
    and ?di = "map (\<lambda>d. DocKey (dd_Namespace d) (dd_ID d)) (filter (\<lambda>d. dd_ID d \<noteq> []) (m_DocInserts m))"
  let ?P = "\<lambda>(ts, ds). dom (map_of ts) = {} \<union> set ?c \<union> set ?d \<union> set ?a \<union> set ?p \<union> set ?i \<and>
    dom (map_of ds) = {} \<union> set ?dc \<union> set ?dd \<union> set ?dp \<union> set ?di"
  have *: "deps_post
     (distinct ?c \<and> set ?c \<inter> {} = {} \<and> (distinct ?d \<and> set ?d \<inter> ({} \<union> set ?c) = {} \<and>
     (distinct ?a \<and> set ?a \<inter> ({} \<union> set ?c \<union> set ?d) = {} \<and>
     (distinct ?dc \<and> set ?dc \<inter> {} = {} \<and> (distinct ?dd \<and> set ?dd \<inter> ({} \<union> set ?dc) = {} \<and>
     (distinct ?p \<and> set ?p \<inter> ({} \<union> set ?c \<union> set ?d \<union> set ?a) = {} \<and>
     (distinct ?i \<and> set ?i \<inter> ({} \<union> set ?c \<union> set ?d \<union> set ?a \<union> set ?p) = {} \<and>
     (distinct ?dp \<and> set ?dp \<inter> ({} \<union> set ?dc \<union> set ?dd) = {} \<and>
     (distinct ?di \<and> set ?di \<inter> ({} \<union> set ?dc \<union> set ?dd \<union> set ?dp) = {} \<and> True)))))))))
     ?P (AllDependencies m)"
    unfolding AllDependencies_def modDependencies_def sbind_assoc sbind_simps prod.case
    by ((rule adds_key_chain, rule adds_keys, (assumption | simp), simp add: map_filters)+,
        simp only: deps_post_def sum.case prod.case simp_thms)
  from * show ?thesis
    unfolding deps_distinct
    by (simp only: task_op_ids_def doc_op_keys_def filter_map_nonempty set_append Un_empty_left Un_assoc)
qed

end
