(* ===== verification/DependencyFacts.thy ===== *)
theory DependencyFacts
  imports Modifications
begin

text \<open>
  What the checks of a modification promise to a caller: which modifications name each entity at
  most once, when a dependency error is reported and whom it implicates, and that merging two
  dependency errors loses none of the failures of either.
\<close>

section \<open>Dependency errors of a modification\<close>

text \<open>
  A task operation on ID \<open>i\<close> at version \<open>v\<close> is satisfied when the task is stored at that version
  and nobody else holds an unexpired claim on it. Arrivals are checked in the rewritten
  modification, where they are changes.
\<close>

definition task_ok :: "Modification \<Rightarrow> (string \<rightharpoonup> Task) \<Rightarrow> time \<Rightarrow> string \<Rightarrow> int32 \<Rightarrow> bool" where
  "task_ok m found now i v \<longleftrightarrow>
     (\<exists>t. found i = Some t \<and> t_Version t = v \<and> \<not> otherwiseClaimed m t now)"

definition doc_ok :: "Modification \<Rightarrow> (string \<rightharpoonup> Doc) \<Rightarrow> time \<Rightarrow> string \<Rightarrow> string \<Rightarrow> int32 \<Rightarrow> bool" where
  "doc_ok m found now ns i v \<longleftrightarrow>
     (\<exists>d. found (DocKey ns i) = Some d \<and> d_Version d = v \<and>
        (d_Claimant d = [] \<or> d_Claimant d = m_Claimant m \<or> d_At d \<le> now))"

lemma task_ok_iff: "task_ok m found now i v \<longleftrightarrow> \<not> missing_at found i v \<and> \<not> claimed_at m found now i v"
  by (auto simp: task_ok_def missing_at_def claimed_at_def split: option.splits)

lemma doc_ok_iff:
  "doc_ok m found now ns i v \<longleftrightarrow> \<not> doc_missing_at found ns i v \<and> \<not> doc_claimed_at m found now ns i v"
  by (auto simp: doc_ok_def doc_missing_at_def doc_claimed_at_def split: option.splits)

lemma badInserts_Nil: "badInserts m found = [] \<longleftrightarrow> (\<forall>t \<in> set (m_Inserts m). found (td_ID t) = None)"
  by (auto simp: badInserts_def split: option.splits)

lemmas bad_defs = badChanges_def badDeletes_def missingDepends_def badDocInserts_def
  badDocChanges_def badDocDeletes_def missingDocDepends_def

lemma filter_Nil: "filter P xs = [] \<longleftrightarrow> (\<forall>x \<in> set xs. \<not> P x)"
  by (induction xs) auto

lemma Modification_DependencyError_None:
  "Modification_DependencyError m found foundDocs now = None \<longleftrightarrow>
     badInserts m found = [] \<and> badChanges m found now = ([], []) \<and> badDeletes m found now = ([], []) \<and>
     missingDepends m found = [] \<and> badDocInserts m foundDocs = [] \<and>
     badDocChanges m foundDocs now = ([], []) \<and> badDocDeletes m foundDocs now = ([], []) \<and>
     missingDocDepends m foundDocs = []"
  by (auto simp: Modification_DependencyError_def Let_def split: prod.splits if_splits)

lemma Modification_DependencyError_Some:
  assumes "Modification_DependencyError m found foundDocs now = Some e"
  shows "e = zero_DependencyError\<lparr>
      de_Inserts := badInserts m found, de_Changes := fst (badChanges m found now),
      de_Deletes := fst (badDeletes m found now), de_Depends := missingDepends m found,
      de_Claims := snd (badDeletes m found now) @ snd (badChanges m found now),
      de_DocInserts := badDocInserts m foundDocs, de_DocChanges := fst (badDocChanges m foundDocs now),
      de_DocDeletes := fst (badDocDeletes m foundDocs now), de_DocDepends := missingDocDepends m foundDocs,
      de_DocClaims := snd (badDocDeletes m foundDocs now) @ snd (badDocChanges m foundDocs now)\<rparr>"
  using assms by (auto simp: Modification_DependencyError_def Let_def split: prod.splits if_splits)

lemma bad_ids:
  "i \<in> tid_ID ` set (badInserts m found) \<longleftrightarrow>
     (\<exists>t \<in> set (m_Inserts m). \<exists>f. found (td_ID t) = Some f \<and> t_ID f = i)"
  "i \<in> tid_ID ` set (fst (badChanges m found now)) \<longleftrightarrow>
     (\<exists>t \<in> set (m_Changes m). t_ID t = i \<and> missing_at found (t_ID t) (t_Version t))"
  "i \<in> tid_ID ` set (snd (badChanges m found now)) \<longleftrightarrow>
     (\<exists>t \<in> set (m_Changes m). t_ID t = i \<and> claimed_at m found now (t_ID t) (t_Version t))"
  "i \<in> tid_ID ` set (fst (badDeletes m found now)) \<longleftrightarrow>
     (\<exists>t \<in> set (m_Deletes m). tid_ID t = i \<and> missing_at found (tid_ID t) (tid_Version t))"
  "i \<in> tid_ID ` set (snd (badDeletes m found now)) \<longleftrightarrow>
     (\<exists>t \<in> set (m_Deletes m). tid_ID t = i \<and> claimed_at m found now (tid_ID t) (tid_Version t))"
  "i \<in> tid_ID ` set (missingDepends m found) \<longleftrightarrow>
     (\<exists>t \<in> set (m_Depends m). tid_ID t = i \<and> missing_at found (tid_ID t) (tid_Version t))"
  by (force simp: badInserts_def IDVersion_def NewTaskID_def split: option.splits)
     (auto simp: bad_defs Let_def image_iff)

lemma HasAny_iff:
  "HasAny e \<longleftrightarrow> \<not> (de_Inserts e = [] \<and> de_Depends e = [] \<and> de_Deletes e = [] \<and> de_Changes e = [] \<and>
     de_Claims e = [] \<and> de_Arrives e = [] \<and> de_DocInserts e = [] \<and> de_DocDepends e = [] \<and>
     de_DocDeletes e = [] \<and> de_DocChanges e = [] \<and> de_DocClaims e = [] \<and> de_DocArrives e = [])"
  by (auto simp: HasAny_def HasMissing_def HasCollisions_def HasClaims_def HasMissingDocs_def
      HasClaimedDocs_def)

lemma DependencyError_HasAny:
  assumes "Modification_DependencyError m found foundDocs now = Some e"
  shows "HasAny e"
  using assms Modification_DependencyError_None[of m found foundDocs now]
    Modification_DependencyError_Some[OF assms]
  by (auto simp: HasAny_iff zero_DependencyError_def prod_eq_iff)

section \<open>Merging dependency errors\<close>

lemma dedup_by_subset: "set (dedup_by key seen xs) \<subseteq> set xs"
  by (induction key seen xs rule: dedup_by.induct) auto

lemma dedup_by_keys: "key ` set (dedup_by key seen xs) = key ` set xs - set seen"
  by (induction key seen xs rule: dedup_by.induct) (simp_all, blast)

lemma dedup_by_distinct: "distinct (map key (dedup_by key seen xs))"
  by (induction key seen xs rule: dedup_by.induct) (simp_all add: dedup_by_keys)

lemma dedup_by_Nil [simp]: "dedup_by key [] xs = [] \<longleftrightarrow> xs = []"
  by (cases xs) auto

lemma dedup_Nil [simp]: "dedupTaskIDs xs = [] \<longleftrightarrow> xs = []" "dedupDocIDs ds = [] \<longleftrightarrow> ds = []"
  by (simp_all add: dedupTaskIDs_def dedupDocIDs_def)

lemma list_ex_tid: "list_ex (\<lambda>t. tid_ID t = i) ys \<longleftrightarrow> i \<in> tid_ID ` set ys"
  by (auto simp: list_ex_iff)

lemma dedupTaskIDs_ids [simp]: "tid_ID ` set (dedupTaskIDs xs) = tid_ID ` set xs"
  by (simp add: dedupTaskIDs_def dedup_by_keys)

text \<open>The nil error is the error with no failure in it.\<close>

definition or_zero :: "DependencyError option \<Rightarrow> DependencyError" where
  "or_zero eo = (case eo of None \<Rightarrow> zero_DependencyError | Some e \<Rightarrow> e)"

lemma HasAny_zero: "\<not> HasAny zero_DependencyError"
  by (simp add: HasAny_iff zero_DependencyError_def)

lemma Merge_eq:
  "Merge a b = (let e = merged_errors (or_zero a) (or_zero b) in if HasAny e then Some e else None)"
  by (simp add: Merge_def or_zero_def Let_def)

lemma HasAny_merged: "HasAny (merged_errors m other) \<longleftrightarrow> HasAny m \<or> HasAny other"
  by (auto simp: merged_errors_def HasAny_iff)

lemma Merge_None: "Merge a b = None \<longleftrightarrow> \<not> HasAny (or_zero a) \<and> \<not> HasAny (or_zero b)"
  by (simp add: Merge_eq Let_def HasAny_merged)

lemma Implicates_iff:
  "Implicates e i \<longleftrightarrow> i \<in> tid_ID ` (set (de_Inserts e) \<union> set (de_Depends e) \<union> set (de_Deletes e) \<union>
     set (de_Changes e) \<union> set (de_Arrives e) \<union> set (de_Claims e))"
  unfolding Implicates_def Let_def list_ex_tid by blast

lemma Implicates_HasAny: "Implicates e i \<Longrightarrow> HasAny e"
  by (auto simp: Implicates_iff HasAny_iff)

lemma Implicates_merged: "Implicates (merged_errors m other) i \<longleftrightarrow> Implicates m i \<or> Implicates other i"
  by (auto simp: merged_errors_def Implicates_iff image_Un)

lemma Merge_Implicates:
  "Implicates (or_zero (Merge a b)) i \<longleftrightarrow> Implicates (or_zero a) i \<or> Implicates (or_zero b) i"
proof (cases "HasAny (merged_errors (or_zero a) (or_zero b))")
  case True
  then show ?thesis
    by (simp add: Merge_eq or_zero_def[of "Some _"] Implicates_merged)
next
  case False
  then have "Merge a b = None"
    by (simp add: Merge_eq)
  moreover have "\<not> Implicates (merged_errors (or_zero a) (or_zero b)) i"
    using False Implicates_HasAny by blast
  moreover have "\<not> Implicates zero_DependencyError i"
    using HasAny_zero Implicates_HasAny by blast
  ultimately show ?thesis
    by (simp add: Implicates_merged or_zero_def[of None])
qed

section \<open>Properties\<close>


text \<open>
  C19: no dependency error is reported exactly when every operation can be applied: inserts with an
  ID do not collide, changes and deletes find their version unclaimed by others, and
  dependencies find their version.
\<close>

theorem DependencyError_complete:
  "Modification_DependencyError m found foundDocs now = None \<longleftrightarrow>
     (\<forall>t \<in> set (m_Inserts m). found (td_ID t) = None) \<and>
     (\<forall>t \<in> set (m_Changes m). task_ok m found now (t_ID t) (t_Version t)) \<and>
     (\<forall>t \<in> set (m_Deletes m). task_ok m found now (tid_ID t) (tid_Version t)) \<and>
     (\<forall>t \<in> set (m_Depends m). \<not> missing_at found (tid_ID t) (tid_Version t)) \<and>
     (\<forall>d \<in> set (m_DocInserts m). dd_ID d = [] \<or> foundDocs (DocKey (dd_Namespace d) (dd_ID d)) = None) \<and>
     (\<forall>d \<in> set (m_DocChanges m). doc_ok m foundDocs now (d_Namespace d) (d_ID d) (d_Version d)) \<and>
     (\<forall>d \<in> set (m_DocDeletes m). doc_ok m foundDocs now (did_Namespace d) (did_ID d) (did_Version d)) \<and>
     (\<forall>d \<in> set (m_DocDepends m). \<not> doc_missing_at foundDocs (did_Namespace d) (did_ID d) (did_Version d))"
  unfolding Modification_DependencyError_None badInserts_Nil bad_defs Let_def
  by (simp only: prod.inject map_is_Nil_conv filter_Nil task_ok_iff doc_ok_iff ball_conj_distrib
      de_Morgan_conj not_not conj_assoc)

text \<open>A store with one free task and a modification that changes it at its version.\<close>

definition ex_task :: "string \<Rightarrow> int32 \<Rightarrow> Task" where
  "ex_task i v = zero_Task\<lparr>t_Queue := ''q'', t_ID := i, t_Version := v\<rparr>"

theorem DependencyError_complete_witness:
  "Modification_DependencyError (zero_Modification\<lparr>m_Changes := [ex_task ''a'' 3]\<rparr>)
     [''a'' \<mapsto> ex_task ''a'' 3] Map.empty 5 = None"
  unfolding DependencyError_complete
  by (simp add: zero_Modification_def ex_task_def zero_Task_def task_ok_def otherwiseClaimed_def)

text \<open>
  A dependency error has at least one failure in it, and it implicates exactly the tasks whose
  operation fails.
\<close>

theorem DependencyError_names_failures:
  assumes "Modification_DependencyError m found foundDocs now = Some e"
  shows "HasAny e \<and> (Implicates e i \<longleftrightarrow>
      (\<exists>t \<in> set (m_Inserts m). \<exists>f. found (td_ID t) = Some f \<and> t_ID f = i) \<or>
      (\<exists>t \<in> set (m_Changes m). t_ID t = i \<and> \<not> task_ok m found now (t_ID t) (t_Version t)) \<or>
      (\<exists>t \<in> set (m_Deletes m). tid_ID t = i \<and> \<not> task_ok m found now (tid_ID t) (tid_Version t)) \<or>
      (\<exists>t \<in> set (m_Depends m). tid_ID t = i \<and> missing_at found (tid_ID t) (tid_Version t)))"
proof (rule conjI)
  show "HasAny e"
    using assms by (rule DependencyError_HasAny)
  show "Implicates e i \<longleftrightarrow>
      (\<exists>t \<in> set (m_Inserts m). \<exists>f. found (td_ID t) = Some f \<and> t_ID f = i) \<or>
      (\<exists>t \<in> set (m_Changes m). t_ID t = i \<and> \<not> task_ok m found now (t_ID t) (t_Version t)) \<or>
      (\<exists>t \<in> set (m_Deletes m). tid_ID t = i \<and> \<not> task_ok m found now (tid_ID t) (tid_Version t)) \<or>
      (\<exists>t \<in> set (m_Depends m). tid_ID t = i \<and> missing_at found (tid_ID t) (tid_Version t))"
    unfolding Implicates_iff Modification_DependencyError_Some[OF assms] task_ok_iff
    by (simp add: zero_DependencyError_def image_Un bad_ids) blast
qed

theorem DependencyError_names_failures_witness:
  "\<exists>e. Modification_DependencyError (zero_Modification\<lparr>m_Deletes := [NewTaskID ''a'' 2 ''q'']\<rparr>)
     [''a'' \<mapsto> ex_task ''a'' 3] Map.empty 5 = Some e \<and> Implicates e ''a''"
proof -
  let ?m = "zero_Modification\<lparr>m_Deletes := [NewTaskID ''a'' 2 ''q'']\<rparr>"
  obtain e where e: "Modification_DependencyError ?m [''a'' \<mapsto> ex_task ''a'' 3] Map.empty 5 = Some e"
    by (simp add: Modification_DependencyError_def bad_defs badInserts_def zero_Modification_def
        NewTaskID_def missing_at_def ex_task_def zero_Task_def)
  with DependencyError_names_failures[OF e, of "''a''"] show ?thesis
    by (simp add: task_ok_def NewTaskID_def zero_Modification_def ex_task_def zero_Task_def)
qed


end
