(* ===== verification/Docset.thy ===== *)
theory Docset
  imports DependencyFacts
begin

text \<open>
  The claim and version rules of doc sets: package docset, which every backend calls. The
  callbacks that read a backend's storage are arguments, as in the source.
\<close>

section \<open>Sets and locks\<close>

record DSet =
  g_Namespace :: string
  g_Key :: string

record Lock =
  lk_Stored :: bool
  lk_Version :: int32
  lk_Claimant :: string
  lk_At :: time
  lk_NumDocs :: int

definition Absent :: Lock where
  "Absent = \<lparr>lk_Stored = False, lk_Version = 0, lk_Claimant = [], lk_At = zero_time, lk_NumDocs = 0\<rparr>"

definition Held :: "Lock \<Rightarrow> time \<Rightarrow> bool" where
  "Held l now \<longleftrightarrow> lk_Claimant l \<noteq> [] \<and> now < lk_At l"

definition HeldByOther :: "Lock \<Rightarrow> string \<Rightarrow> time \<Rightarrow> bool" where
  "HeldByOther l claimant now \<longleftrightarrow> Held l now \<and> lk_Claimant l \<noteq> claimant"

definition Overlay :: "Doc \<Rightarrow> Lock \<Rightarrow> Doc" where
  "Overlay member l =
     (Doc_Copy member)\<lparr>d_Version := lk_Version l, d_Claimant := lk_Claimant l, d_At := lk_At l\<rparr>"

definition docset_Claim :: "Lock \<Rightarrow> string \<Rightarrow> time \<Rightarrow> time \<Rightarrow> Lock \<times> bool" where
  "docset_Claim l claimant now until =
     (if HeldByOther l claimant now then (l, False)
      else (\<lparr>lk_Stored = True, lk_Version = lk_Version l + 1, lk_Claimant = claimant, lk_At = until,
             lk_NumDocs = lk_NumDocs l\<rparr>, True))"

definition written :: "Lock \<Rightarrow> int32" where
  "written l = (if \<not> lk_Stored l then 0 else lk_Version l + 1)"

definition SetsOf :: "DocClaim \<Rightarrow> DSet list" where
  "SetsOf cq = map (\<lambda>s. \<lparr>g_Namespace = dsc_Namespace s, g_Key = dsc_Key s\<rparr>) (dc_Sets cq)"

section \<open>Claiming sets\<close>

definition taskDepErrorf :: "TaskID \<Rightarrow> string \<Rightarrow> goerror" where
  "taskDepErrorf i what =
     DependencyErr (zero_DependencyError\<lparr>de_Message := ClaimDependsMsg what, de_Depends := [i]\<rparr>)"

definition MissingTaskErrorf :: "TaskID \<Rightarrow> goerror" where
  "MissingTaskErrorf i = taskDepErrorf i ''missing task''"

definition LapsedTaskErrorf :: "TaskID \<Rightarrow> goerror" where
  "LapsedTaskErrorf i = taskDepErrorf i ''task whose lease lapsed''"

definition set_Ref :: "DSet \<Rightarrow> Lock \<Rightarrow> DocID" where
  "set_Ref g l = NewDocSetRef (g_Namespace g) (g_Key g) (lk_Version l)"

definition HeldError :: "DSet \<Rightarrow> Lock \<Rightarrow> Doc list \<Rightarrow> DependencyError" where
  "HeldError g l members = zero_DependencyError\<lparr>
     de_Message := SetHeldMsg (g_Key g) (g_Namespace g) (lk_Claimant l) (lk_At l),
     de_DocClaims := set_Ref g l # map (\<lambda>d. NewDocID (d_Namespace d) (d_ID d) (lk_Version l)) members\<rparr>"

text \<open>
  The loop of ClaimAll: the locks claimed so far, and the error naming the sets held by others.
  The zero lock stands in the slice for a set that was not claimed.
\<close>

fun claim_loop :: "DocClaim \<Rightarrow> time \<Rightarrow> time \<Rightarrow> (DSet \<Rightarrow> Lock) \<Rightarrow> (DSet \<Rightarrow> goerror + Doc list) \<Rightarrow>
    DSet list \<Rightarrow> Lock list \<Rightarrow> DependencyError option \<Rightarrow> goerror + Lock list \<times> DependencyError option" where
  "claim_loop cq now until lock members [] claimed held = Inr (claimed, held)"
| "claim_loop cq now until lock members (g # gs) claimed held =
     (let l = lock g in
      case docset_Claim l (dc_Claimant cq) now until of
        (next', True) \<Rightarrow> claim_loop cq now until lock members gs (claimed @ [next']) held
      | (_, False) \<Rightarrow>
          sbind (members g) (\<lambda>ms.
            claim_loop cq now until lock members gs (claimed @ [Absent])
              (case held of
                 None \<Rightarrow> Some (HeldError g l ms)
               | Some _ \<Rightarrow> Merge held (Some (HeldError g l ms)))))"

definition ClaimAll :: "DocClaim \<Rightarrow> time \<Rightarrow> time \<Rightarrow> (DSet \<Rightarrow> Lock) \<Rightarrow> (DSet \<Rightarrow> goerror + Doc list) \<Rightarrow>
    goerror + Lock list" where
  "ClaimAll cq now until lock members =
     (if \<not> until > now
      then case dc_TaskToMatch cq of
             Some t \<Rightarrow> Inl (LapsedTaskErrorf t)
           | None \<Rightarrow> Inl (InvalidArgumentError (DocClaimUntilPast until now))
      else sbind (claim_loop cq now until lock members (SetsOf cq) [] None) (\<lambda>(claimed, held).
             case held of Some e \<Rightarrow> Inl (DependencyErr e) | None \<Rightarrow> Inr claimed))"

definition Claimed :: "DSet \<Rightarrow> Lock \<Rightarrow> Doc list \<Rightarrow> DocSet" where
  "Claimed g l members =
     \<lparr>ds_Namespace = g_Namespace g, ds_Key = g_Key g, ds_Version = lk_Version l,
      ds_Claimant = lk_Claimant l, ds_At = lk_At l, ds_NumDocs = lk_NumDocs l,
      ds_Docs = map (\<lambda>d. Overlay d l) members\<rparr>"

definition Current :: "DSet \<Rightarrow> Lock \<Rightarrow> DocSet" where
  "Current g l =
     \<lparr>ds_Namespace = g_Namespace g, ds_Key = g_Key g, ds_Version = lk_Version l,
      ds_Claimant = lk_Claimant l, ds_At = lk_At l, ds_NumDocs = lk_NumDocs l, ds_Docs = []\<rparr>"

text \<open>The loop of ClaimedSets runs over the sets and the locks side by side.\<close>

fun claimed_sets_loop :: "(DSet \<Rightarrow> goerror + Doc list) \<Rightarrow> (DocSetClaim \<times> DSet \<times> Lock) list \<Rightarrow>
    goerror + DocSet list" where
  "claimed_sets_loop members [] = Inr []"
| "claimed_sets_loop members ((s, g, l) # rest) =
     sbind (if dsc_OmitMembers s then Inr (Current g l)
            else sbind (members g) (\<lambda>ms. Inr (Claimed g l ms))) (\<lambda>out.
     sbind (claimed_sets_loop members rest) (\<lambda>outs. Inr (out # outs)))"

definition ClaimedSets :: "DocClaim \<Rightarrow> Lock list \<Rightarrow> (DSet \<Rightarrow> goerror + Doc list) \<Rightarrow> goerror + DocSet list" where
  "ClaimedSets cq locks members =
     claimed_sets_loop members (zip (dc_Sets cq) (zip (SetsOf cq) locks))"

section \<open>Evaluating a modification\<close>

record Plan =
  pl_Err :: "DependencyError option"
  pl_Locks :: "(DSet, Lock) gomap"
  pl_Arrived :: "DocSet list"

text \<open>The variables of Evaluate: the error, the written sets with their latest arrival, the docs
  added, and the held sets already named in the error.\<close>

record EvalState =
  ev_depErr :: DependencyError
  ev_held :: "(DSet, time) gomap"
  ev_added :: "(DSet, int) gomap"
  ev_reported :: "DSet list"

definition eval_start :: EvalState where
  "eval_start = \<lparr>ev_depErr = zero_DependencyError, ev_held = [], ev_added = [], ev_reported = []\<rparr>"

definition eval_write :: "time \<Rightarrow> DSet \<Rightarrow> duration \<Rightarrow> EvalState \<Rightarrow> EvalState" where
  "eval_write now g by s =
     (let latest = (case map_of (ev_held s) g of Some at \<Rightarrow> at | None \<Rightarrow> zero_time);
          at = now + by;
          latest = (if by > 0 \<and> at > latest then at else latest)
      in s\<lparr>ev_held := gm_set g latest (ev_held s)\<rparr>)"

definition eval_add :: "DSet \<Rightarrow> int \<Rightarrow> EvalState \<Rightarrow> EvalState" where
  "eval_add g n s =
     s\<lparr>ev_added := gm_set g ((case map_of (ev_added s) g of Some k \<Rightarrow> k | None \<Rightarrow> 0) + n) (ev_added s)\<rparr>"

definition eval_claimed :: "string \<Rightarrow> time \<Rightarrow> (DSet \<Rightarrow> Lock) \<Rightarrow> DSet \<Rightarrow> EvalState \<Rightarrow> bool \<times> EvalState" where
  "eval_claimed claimant now lock g s =
     (let l = lock g in
      if \<not> HeldByOther l claimant now then (False, s)
      else if g \<in> set (ev_reported s) then (True, s)
      else (True, s\<lparr>ev_reported := g # ev_reported s,
             ev_depErr := (ev_depErr s)\<lparr>de_DocClaims := de_DocClaims (ev_depErr s) @ [set_Ref g l]\<rparr>\<rparr>))"

definition provided :: "Modification \<Rightarrow> DSet set" where
  "provided md =
     set (map (\<lambda>a. \<lparr>g_Namespace = did_Namespace (da_DocID a), g_Key = did_Key (da_DocID a)\<rparr>) (m_DocArrives md)) \<union>
     set (map (\<lambda>d. \<lparr>g_Namespace = did_Namespace d, g_Key = did_Key d\<rparr>) (filter IsSetRef (m_DocDepends md)))"

definition set_of_doc :: "Doc \<Rightarrow> DSet" where
  "set_of_doc d = \<lparr>g_Namespace = d_Namespace d, g_Key = d_Key d\<rparr>"

definition eval_stored :: "Modification \<Rightarrow> (string \<Rightarrow> string \<Rightarrow> Doc option) \<Rightarrow> (DSet \<Rightarrow> Lock) \<Rightarrow>
    string \<Rightarrow> string \<Rightarrow> int32 \<Rightarrow> DSet option" where
  "eval_stored md member lock ns i version =
     (case member ns i of
        None \<Rightarrow> None
      | Some d \<Rightarrow>
          let g = set_of_doc d in
          if version = 0 \<and> g \<in> provided md then Some g
          else if lk_Version (lock g) = version then Some g else None)"

definition ev_err :: "(DependencyError \<Rightarrow> DependencyError) \<Rightarrow> EvalState \<Rightarrow> EvalState" where
  "ev_err f s = s\<lparr>ev_depErr := f (ev_depErr s)\<rparr>"

definition add_DocInserts :: "DocID \<Rightarrow> DependencyError \<Rightarrow> DependencyError" where
  "add_DocInserts i e = e\<lparr>de_DocInserts := de_DocInserts e @ [i]\<rparr>"

definition add_DocClaims :: "DocID \<Rightarrow> DependencyError \<Rightarrow> DependencyError" where
  "add_DocClaims i e = e\<lparr>de_DocClaims := de_DocClaims e @ [i]\<rparr>"

definition add_DocChanges :: "DocID \<Rightarrow> DependencyError \<Rightarrow> DependencyError" where
  "add_DocChanges i e = e\<lparr>de_DocChanges := de_DocChanges e @ [i]\<rparr>"

definition add_DocDeletes :: "DocID \<Rightarrow> DependencyError \<Rightarrow> DependencyError" where
  "add_DocDeletes i e = e\<lparr>de_DocDeletes := de_DocDeletes e @ [i]\<rparr>"

definition add_DocDepends :: "DocID \<Rightarrow> DependencyError \<Rightarrow> DependencyError" where
  "add_DocDepends i e = e\<lparr>de_DocDepends := de_DocDepends e @ [i]\<rparr>"

definition add_DocArrives :: "DocID \<Rightarrow> DependencyError \<Rightarrow> DependencyError" where
  "add_DocArrives i e = e\<lparr>de_DocArrives := de_DocArrives e @ [i]\<rparr>"

lemmas add_defs = add_DocInserts_def add_DocClaims_def add_DocChanges_def add_DocDeletes_def
  add_DocDepends_def add_DocArrives_def ev_err_def

text \<open>One function per loop of Evaluate, for one operation.\<close>

definition eval_insert :: "Modification \<Rightarrow> time \<Rightarrow> (string \<Rightarrow> string \<Rightarrow> Doc option) \<Rightarrow>
    (DSet \<Rightarrow> string \<Rightarrow> Doc option) \<Rightarrow> (DSet \<Rightarrow> Lock) \<Rightarrow> DocData \<Rightarrow> EvalState \<Rightarrow> EvalState" where
  "eval_insert md now member occupant lock ins s =
     (let g = \<lparr>g_Namespace = dd_Namespace ins, g_Key = dd_Key ins\<rparr>;
          collide = (if lk_NumDocs (lock g) > 0 then occupant g (dd_SecondaryKey ins) else None)
      in if dd_ID ins \<noteq> [] \<and> member (dd_Namespace ins) (dd_ID ins) \<noteq> None
         then ev_err (add_DocInserts (NewDocID (dd_Namespace ins) (dd_ID ins) 0)) s
         else case collide of
           Some h \<Rightarrow> ev_err (add_DocInserts (NewDocID (d_Namespace h) (d_ID h) (lk_Version (lock g)))) s
         | None \<Rightarrow>
             (case eval_claimed (m_Claimant md) now lock g s of
                (True, s') \<Rightarrow>
                  ev_err (add_DocClaims (NewDocID (dd_Namespace ins) (dd_ID ins) (lk_Version (lock g)))) s'
              | (False, s') \<Rightarrow> eval_add g 1 (eval_write now g (dd_by ins) s')))"

definition eval_change :: "Modification \<Rightarrow> time \<Rightarrow> (string \<Rightarrow> string \<Rightarrow> Doc option) \<Rightarrow>
    (DSet \<Rightarrow> Lock) \<Rightarrow> Doc \<Rightarrow> EvalState \<Rightarrow> EvalState" where
  "eval_change md now member lock chg s =
     (let i = NewDocID (d_Namespace chg) (d_ID chg) (d_Version chg) in
      case eval_stored md member lock (d_Namespace chg) (d_ID chg) (d_Version chg) of
        None \<Rightarrow> ev_err (add_DocChanges i) s
      | Some g \<Rightarrow>
          (case eval_claimed (m_Claimant md) now lock g s of
             (True, s') \<Rightarrow> ev_err (add_DocClaims i) s'
           | (False, s') \<Rightarrow> eval_write now g (d_by chg) s'))"

definition eval_delete :: "Modification \<Rightarrow> time \<Rightarrow> (string \<Rightarrow> string \<Rightarrow> Doc option) \<Rightarrow>
    (DSet \<Rightarrow> Lock) \<Rightarrow> DocID \<Rightarrow> EvalState \<Rightarrow> EvalState" where
  "eval_delete md now member lock del s =
     (case eval_stored md member lock (did_Namespace del) (did_ID del) (did_Version del) of
        None \<Rightarrow> ev_err (add_DocDeletes del) s
      | Some g \<Rightarrow>
          (case eval_claimed (m_Claimant md) now lock g s of
             (True, s') \<Rightarrow> ev_err (add_DocClaims del) s'
           | (False, s') \<Rightarrow> eval_add g (- 1) (eval_write now g 0 s')))"

definition eval_depend :: "Modification \<Rightarrow> (string \<Rightarrow> string \<Rightarrow> Doc option) \<Rightarrow> (DSet \<Rightarrow> Lock) \<Rightarrow>
    DocID \<Rightarrow> EvalState \<Rightarrow> EvalState" where
  "eval_depend md member lock dep s =
     (if IsSetRef dep
      then let l = lock \<lparr>g_Namespace = did_Namespace dep, g_Key = did_Key dep\<rparr> in
        if \<not> lk_Stored l \<or> lk_Version l \<noteq> did_Version dep then ev_err (add_DocDepends dep) s else s
      else if eval_stored md member lock (did_Namespace dep) (did_ID dep) (did_Version dep) = None
      then ev_err (add_DocDepends dep) s else s)"

definition set_of_arrival :: "DocArrival \<Rightarrow> DSet" where
  "set_of_arrival a = \<lparr>g_Namespace = did_Namespace (da_DocID a), g_Key = did_Key (da_DocID a)\<rparr>"

definition eval_arrive :: "Modification \<Rightarrow> time \<Rightarrow> (DSet \<Rightarrow> Lock) \<Rightarrow> DocArrival \<Rightarrow> EvalState \<Rightarrow> EvalState" where
  "eval_arrive md now lock a s =
     (let g = set_of_arrival a; l = lock g in
      if \<not> lk_Stored l \<or> lk_Version l \<noteq> did_Version (da_DocID a)
      then ev_err (add_DocArrives (set_Ref g l)) s
      else case eval_claimed (m_Claimant md) now lock g s of
             (True, s') \<Rightarrow> s'
           | (False, s') \<Rightarrow> eval_write now g (da_By a) s')"

definition eval_all :: "Modification \<Rightarrow> time \<Rightarrow> (string \<Rightarrow> string \<Rightarrow> Doc option) \<Rightarrow>
    (DSet \<Rightarrow> string \<Rightarrow> Doc option) \<Rightarrow> (DSet \<Rightarrow> Lock) \<Rightarrow> EvalState" where
  "eval_all md now member occupant lock =
     (let s = fold (eval_insert md now member occupant lock) (m_DocInserts md) eval_start;
          s = fold (eval_change md now member lock) (m_DocChanges md) s;
          s = fold (eval_delete md now member lock) (m_DocDeletes md) s;
          s = fold (eval_depend md member lock) (m_DocDepends md) s
      in fold (eval_arrive md now lock) (m_DocArrives md) s)"

definition next_lock :: "Modification \<Rightarrow> time \<Rightarrow> (DSet \<Rightarrow> Lock) \<Rightarrow> EvalState \<Rightarrow> DSet \<Rightarrow> time \<Rightarrow> Lock" where
  "next_lock md now lock s g at =
     (let n = \<lparr>lk_Stored = True, lk_Version = written (lock g), lk_Claimant = [], lk_At = now,
               lk_NumDocs = lk_NumDocs (lock g) + (case map_of (ev_added s) g of Some k \<Rightarrow> k | None \<Rightarrow> 0)\<rparr>
      in if at \<noteq> zero_time then n\<lparr>lk_Claimant := m_Claimant md, lk_At := at\<rparr> else n)"

definition Evaluate :: "Modification \<Rightarrow> time \<Rightarrow> (string \<Rightarrow> string \<Rightarrow> Doc option) \<Rightarrow>
    (DSet \<Rightarrow> string \<Rightarrow> Doc option) \<Rightarrow> (DSet \<Rightarrow> Lock) \<Rightarrow> Plan" where
  "Evaluate md now member occupant lock =
     (let s = eval_all md now member occupant lock in
      if HasAny (ev_depErr s) then \<lparr>pl_Err = Some (ev_depErr s), pl_Locks = [], pl_Arrived = []\<rparr>
      else let locks = map (\<lambda>(g, at). (g, next_lock md now lock s g at)) (ev_held s) in
        \<lparr>pl_Err = None, pl_Locks = locks,
         pl_Arrived = map (\<lambda>a. Current (set_of_arrival a)
             (case map_of locks (set_of_arrival a) of Some l \<Rightarrow> l | None \<Rightarrow> Absent)) (m_DocArrives md)\<rparr>)"

section \<open>The sets of a modification\<close>

definition add_set :: "DSet \<Rightarrow> DSet list \<Rightarrow> DSet list" where
  "add_set g gs = (if g \<in> set gs then gs else gs @ [g])"

definition add_stored :: "(string \<Rightarrow> string \<Rightarrow> Doc option) \<Rightarrow> string \<Rightarrow> string \<Rightarrow> DSet list \<Rightarrow> DSet list" where
  "add_stored member ns i gs = (case member ns i of None \<Rightarrow> gs | Some d \<Rightarrow> add_set (set_of_doc d) gs)"

definition docset_Sets :: "Modification \<Rightarrow> (string \<Rightarrow> string \<Rightarrow> Doc option) \<Rightarrow> DSet list" where
  "docset_Sets md member =
     (let gs = fold (\<lambda>ins. add_set \<lparr>g_Namespace = dd_Namespace ins, g_Key = dd_Key ins\<rparr>) (m_DocInserts md) [];
          gs = fold (\<lambda>c. add_stored member (d_Namespace c) (d_ID c)) (m_DocChanges md) gs;
          gs = fold (\<lambda>d. add_stored member (did_Namespace d) (did_ID d)) (m_DocDeletes md) gs;
          gs = fold (\<lambda>d. if IsSetRef d then add_set \<lparr>g_Namespace = did_Namespace d, g_Key = did_Key d\<rparr>
                         else add_stored member (did_Namespace d) (did_ID d)) (m_DocDepends md) gs
      in fold (\<lambda>a. add_set (set_of_arrival a)) (m_DocArrives md) gs)"

definition Exclusive :: "Modification \<Rightarrow> (string \<Rightarrow> string \<Rightarrow> Doc option) \<Rightarrow> DSet list" where
  "Exclusive md member =
     (let gs = fold (\<lambda>ins. add_set \<lparr>g_Namespace = dd_Namespace ins, g_Key = dd_Key ins\<rparr>) (m_DocInserts md) [];
          gs = fold (\<lambda>c. add_stored member (d_Namespace c) (d_ID c)) (m_DocChanges md) gs;
          gs = fold (\<lambda>d. add_stored member (did_Namespace d) (did_ID d)) (m_DocDeletes md) gs
      in fold (\<lambda>a. add_set (set_of_arrival a)) (m_DocArrives md) gs)"

end
