(* ===== verification/DocsetFacts.thy ===== *)
theory DocsetFacts
  imports Docset
begin

text \<open>
  What docset promises to the backends: a claim takes all the sets it names or none, and a
  modification that passes moves the version of every set it writes exactly once, never writes a
  set somebody else holds, keeps the doc counts, and writes exactly the sets that Exclusive
  tells the backend to lock.
\<close>

section \<open>Claims\<close>

definition claimed_lock :: "DocClaim \<Rightarrow> time \<Rightarrow> Lock \<Rightarrow> Lock" where
  "claimed_lock cq until l = \<lparr>lk_Stored = True, lk_Version = lk_Version l + 1,
     lk_Claimant = dc_Claimant cq, lk_At = until, lk_NumDocs = lk_NumDocs l\<rparr>"

lemma HasAny_HeldError: "HasAny (HeldError g l ms)"
  by (simp add: HeldError_def HasAny_iff)

lemma Merge_keeps: "HasAny e \<Longrightarrow> \<exists>e'. Merge (Some e) b = Some e' \<and> HasAny e'"
  by (auto simp: Merge_eq Let_def HasAny_merged or_zero_def)

lemma claim_loop_spec:
  assumes "\<forall>g \<in> set gs. \<exists>ms. members g = Inr ms" and "\<forall>e. held = Some e \<longrightarrow> HasAny e"
  shows "\<exists>cl h. claim_loop cq now until lock members gs claimed held = Inr (cl, h) \<and>
    (h = None \<longleftrightarrow> held = None \<and> (\<forall>g \<in> set gs. \<not> HeldByOther (lock g) (dc_Claimant cq) now)) \<and>
    (h = None \<longrightarrow> cl = claimed @ map (\<lambda>g. claimed_lock cq until (lock g)) gs)"
  using assms
proof (induction gs arbitrary: claimed held)
  case (Cons g gs)
  show ?case
  proof (cases "HeldByOther (lock g) (dc_Claimant cq) now")
    case True
    obtain ms where ms: "members g = Inr ms" using Cons.prems(1) by auto
    let ?h = "case held of None \<Rightarrow> Some (HeldError g (lock g) ms) | Some _ \<Rightarrow> Merge held (Some (HeldError g (lock g) ms))"
    have h: "\<exists>e. ?h = Some e \<and> HasAny e"
      using HasAny_HeldError Merge_keeps Cons.prems by (cases held) auto
    have step: "claim_loop cq now until lock members (g # gs) claimed held =
        claim_loop cq now until lock members gs (claimed @ [Absent]) ?h"
      using True ms by (simp add: docset_Claim_def Let_def)
    show ?thesis
      unfolding step using Cons.IH[of ?h "claimed @ [Absent]"] Cons.prems(1) h True by auto
  next
    case False
    then have "claim_loop cq now until lock members (g # gs) claimed held =
        claim_loop cq now until lock members gs (claimed @ [claimed_lock cq until (lock g)]) held"
      by (simp add: docset_Claim_def claimed_lock_def Let_def)
    then show ?thesis
      using Cons.IH[of held "claimed @ [claimed_lock cq until (lock g)]"] Cons.prems False by simp
  qed
qed simp

lemma ClaimAll_cases:
  assumes "\<forall>g \<in> set (SetsOf cq). \<exists>ms. members g = Inr ms"
  shows "if now < until \<and> (\<forall>g \<in> set (SetsOf cq). \<not> HeldByOther (lock g) (dc_Claimant cq) now)
    then ClaimAll cq now until lock members = Inr (map (\<lambda>g. claimed_lock cq until (lock g)) (SetsOf cq))
    else \<exists>e. ClaimAll cq now until lock members = Inl e \<and> (now < until \<longrightarrow> IsDependency e) \<and> (IsDependency e \<or> IsInvalidArgument e)"
proof (cases "now < until")
  case False
  then show ?thesis by (auto simp: ClaimAll_def LapsedTaskErrorf_def taskDepErrorf_def split: option.splits)
next
  case True
  obtain cl h where "claim_loop cq now until lock members (SetsOf cq) [] None = Inr (cl, h)"
    and "h = None \<longleftrightarrow> (\<forall>g \<in> set (SetsOf cq). \<not> HeldByOther (lock g) (dc_Claimant cq) now)"
    and "h = None \<longrightarrow> cl = map (\<lambda>g. claimed_lock cq until (lock g)) (SetsOf cq)"
    using claim_loop_spec[OF assms, where held = None and claimed = "[]" and lock = lock and cq = cq and now = now and until = until] by auto
  with True show ?thesis
    by (cases h) (auto simp: ClaimAll_def)
qed

text \<open>
  C18: ClaimAll claims every set it names or none. It succeeds exactly when the hold reaches past
  now and no set is held by someone else; every set's version then moves by one, and the
  claimant holds it until the given time.
\<close>

theorem ClaimAll_all_or_none:
  assumes "\<forall>g \<in> set (SetsOf cq). \<exists>ms. members g = Inr ms"
  shows "case ClaimAll cq now until lock members of
      Inr locks \<Rightarrow> now < until \<and> (\<forall>g \<in> set (SetsOf cq). \<not> HeldByOther (lock g) (dc_Claimant cq) now) \<and>
        locks = map (\<lambda>g. claimed_lock cq until (lock g)) (SetsOf cq)
    | Inl e \<Rightarrow> until \<le> now \<or> (IsDependency e \<and> (\<exists>g \<in> set (SetsOf cq). HeldByOther (lock g) (dc_Claimant cq) now))"
  using ClaimAll_cases[OF assms, of now until lock] by (auto split: if_splits)

definition ex_claim :: DocClaim where
  "ex_claim = NewDocClaim [applyDocClaim (ClaimKey ''ns'' ''k''), ClaimingSetsAs ''me'', ClaimingSetsFor 5]"

theorem ClaimAll_all_or_none_witness:
  "ClaimAll ex_claim 10 15 (\<lambda>_. Absent) (\<lambda>_. Inr []) = Inr [claimed_lock ex_claim 15 Absent]"
  using ClaimAll_all_or_none[where members = "\<lambda>_. Inr []" and cq = ex_claim and now = 10 and until = 15 and lock = "\<lambda>_. Absent"]
  by (auto simp: ex_claim_def NewDocClaim_def applyDocClaim_def ClaimKey_def ClaimingSetsAs_def
      ClaimingSetsFor_def SetsOf_def HeldByOther_def Held_def Absent_def split: sum.splits)

section \<open>When a modification passes\<close>

text \<open>The set an operation writes when it passes; \<open>None\<close> when it is refused.\<close>

definition ins_set :: "DocData \<Rightarrow> DSet" where
  "ins_set ins = \<lparr>g_Namespace = dd_Namespace ins, g_Key = dd_Key ins\<rparr>"

definition ins_ok :: "Modification \<Rightarrow> time \<Rightarrow> (string \<Rightarrow> string \<Rightarrow> Doc option) \<Rightarrow>
    (DSet \<Rightarrow> string \<Rightarrow> Doc option) \<Rightarrow> (DSet \<Rightarrow> Lock) \<Rightarrow> DocData \<Rightarrow> bool" where
  "ins_ok md now member occupant lock ins \<longleftrightarrow>
     (dd_ID ins = [] \<or> member (dd_Namespace ins) (dd_ID ins) = None) \<and>
     (lk_NumDocs (lock (ins_set ins)) \<le> 0 \<or> occupant (ins_set ins) (dd_SecondaryKey ins) = None) \<and>
     \<not> HeldByOther (lock (ins_set ins)) (m_Claimant md) now"

definition stored_ok :: "Modification \<Rightarrow> time \<Rightarrow> (string \<Rightarrow> string \<Rightarrow> Doc option) \<Rightarrow> (DSet \<Rightarrow> Lock) \<Rightarrow>
    string \<Rightarrow> string \<Rightarrow> int32 \<Rightarrow> bool" where
  "stored_ok md now member lock ns i v \<longleftrightarrow>
     (\<exists>g. eval_stored md member lock ns i v = Some g \<and> \<not> HeldByOther (lock g) (m_Claimant md) now)"

definition dep_ok :: "Modification \<Rightarrow> (string \<Rightarrow> string \<Rightarrow> Doc option) \<Rightarrow> (DSet \<Rightarrow> Lock) \<Rightarrow> DocID \<Rightarrow> bool" where
  "dep_ok md member lock dep \<longleftrightarrow>
     (if IsSetRef dep
      then let l = lock \<lparr>g_Namespace = did_Namespace dep, g_Key = did_Key dep\<rparr>
           in lk_Stored l \<and> lk_Version l = did_Version dep
      else eval_stored md member lock (did_Namespace dep) (did_ID dep) (did_Version dep) \<noteq> None)"

definition arr_ok :: "Modification \<Rightarrow> time \<Rightarrow> (DSet \<Rightarrow> Lock) \<Rightarrow> DocArrival \<Rightarrow> bool" where
  "arr_ok md now lock a \<longleftrightarrow>
     lk_Stored (lock (set_of_arrival a)) \<and> lk_Version (lock (set_of_arrival a)) = did_Version (da_DocID a) \<and>
     \<not> HeldByOther (lock (set_of_arrival a)) (m_Claimant md) now"

text \<open>A set named as held is named in the error.\<close>

definition reported_ok :: "EvalState \<Rightarrow> bool" where
  "reported_ok s \<longleftrightarrow> (ev_reported s \<noteq> [] \<longrightarrow> HasAny (ev_depErr s))"

text \<open>
  A step of Evaluate for an operation: it fails exactly when the operation is not acceptable, an
  error stays, and an acceptable operation makes its write.
\<close>

definition eval_step :: "('a \<Rightarrow> bool) \<Rightarrow> ('a \<Rightarrow> EvalState \<Rightarrow> EvalState) \<Rightarrow> ('a \<Rightarrow> EvalState \<Rightarrow> EvalState) \<Rightarrow> bool" where
  "eval_step ok write step \<longleftrightarrow> (\<forall>x s. reported_ok s \<longrightarrow>
     reported_ok (step x s) \<and> (HasAny (ev_depErr (step x s)) \<longleftrightarrow> HasAny (ev_depErr s) \<or> \<not> ok x) \<and>
     (ok x \<longrightarrow> step x s = write x s))"

lemma HasAny_add [simp]:
  "HasAny (add_DocInserts i e)" "HasAny (add_DocClaims i e)" "HasAny (add_DocChanges i e)"
  "HasAny (add_DocDeletes i e)" "HasAny (add_DocDepends i e)" "HasAny (add_DocArrives i e)"
  by (simp_all add: add_defs HasAny_iff)

lemma ev_err_sel [simp]:
  "ev_depErr (ev_err f s) = f (ev_depErr s)" "ev_reported (ev_err f s) = ev_reported s"
  by (simp_all add: ev_err_def)

lemma eval_write_sel [simp]:
  "ev_depErr (eval_write now g by s) = ev_depErr s" "ev_reported (eval_write now g by s) = ev_reported s"
  "ev_added (eval_write now g by s) = ev_added s"
  by (simp_all add: eval_write_def Let_def)

lemma eval_add_sel [simp]:
  "ev_depErr (eval_add g n s) = ev_depErr s" "ev_reported (eval_add g n s) = ev_reported s"
  "ev_held (eval_add g n s) = ev_held s"
  by (simp_all add: eval_add_def)

lemma eval_claimed_cases:
  assumes "eval_claimed c now lock g s = (b, s')" and "reported_ok s"
  shows "b \<longleftrightarrow> HeldByOther (lock g) c now" "\<not> b \<Longrightarrow> s' = s" "b \<Longrightarrow> HasAny (ev_depErr s')"
  using assms
  by (auto simp: eval_claimed_def Let_def reported_ok_def HasAny_iff split: if_splits)

lemma eval_insert_step:
  "eval_step (ins_ok md now member occupant lock)
     (\<lambda>ins s. eval_add (ins_set ins) 1 (eval_write now (ins_set ins) (dd_by ins) s))
     (eval_insert md now member occupant lock)"
  unfolding eval_step_def
proof (intro allI impI)
  fix ins s assume r: "reported_ok s"
  obtain b s' where c: "eval_claimed (m_Claimant md) now lock (ins_set ins) s = (b, s')" by fastforce
  note cases = eval_claimed_cases[OF c r]
  show "reported_ok (eval_insert md now member occupant lock ins s) \<and>
    (HasAny (ev_depErr (eval_insert md now member occupant lock ins s)) \<longleftrightarrow>
       HasAny (ev_depErr s) \<or> \<not> ins_ok md now member occupant lock ins) \<and>
    (ins_ok md now member occupant lock ins \<longrightarrow>
       eval_insert md now member occupant lock ins s =
       eval_add (ins_set ins) 1 (eval_write now (ins_set ins) (dd_by ins) s))"
    using r cases c unfolding eval_insert_def ins_ok_def ins_set_def[symmetric] reported_ok_def
    by (cases b) (auto simp: Let_def not_less split: option.splits)
qed

text \<open>The write of a change or a delete goes to the set of the stored doc.\<close>

definition stored_set :: "(string \<Rightarrow> string \<Rightarrow> Doc option) \<Rightarrow> string \<Rightarrow> string \<Rightarrow> DSet" where
  "stored_set member ns i = (case member ns i of Some d \<Rightarrow> set_of_doc d | None \<Rightarrow> \<lparr>g_Namespace = [], g_Key = []\<rparr>)"

lemma eval_stored_set: "eval_stored md member lock ns i v = Some g \<Longrightarrow> g = stored_set member ns i \<and> member ns i \<noteq> None"
  by (auto simp: eval_stored_def stored_set_def Let_def split: option.splits if_splits)

lemma eval_change_step:
  "eval_step (\<lambda>c. stored_ok md now member lock (d_Namespace c) (d_ID c) (d_Version c))
     (\<lambda>c. eval_write now (stored_set member (d_Namespace c) (d_ID c)) (d_by c))
     (eval_change md now member lock)"
  unfolding eval_step_def
proof (intro allI impI)
  fix c :: Doc and s assume r: "reported_ok s"
  let ?st = "eval_stored md member lock (d_Namespace c) (d_ID c) (d_Version c)"
  show "reported_ok (eval_change md now member lock c s) \<and>
    (HasAny (ev_depErr (eval_change md now member lock c s)) \<longleftrightarrow>
       HasAny (ev_depErr s) \<or> \<not> stored_ok md now member lock (d_Namespace c) (d_ID c) (d_Version c)) \<and>
    (stored_ok md now member lock (d_Namespace c) (d_ID c) (d_Version c) \<longrightarrow>
       eval_change md now member lock c s = eval_write now (stored_set member (d_Namespace c) (d_ID c)) (d_by c) s)"
  proof (cases ?st)
    case None
    then show ?thesis using r by (simp add: eval_change_def stored_ok_def reported_ok_def)
  next
    case (Some g)
    obtain b s' where cl: "eval_claimed (m_Claimant md) now lock g s = (b, s')" by fastforce
    show ?thesis
      using r Some cl eval_claimed_cases[OF cl r] eval_stored_set[OF Some]
      by (cases b) (auto simp: eval_change_def stored_ok_def reported_ok_def)
  qed
qed

lemma eval_delete_step:
  "eval_step (\<lambda>d. stored_ok md now member lock (did_Namespace d) (did_ID d) (did_Version d))
     (\<lambda>d s. eval_add (stored_set member (did_Namespace d) (did_ID d)) (- 1)
        (eval_write now (stored_set member (did_Namespace d) (did_ID d)) 0 s))
     (eval_delete md now member lock)"
  unfolding eval_step_def
proof (intro allI impI)
  fix d :: DocID and s assume r: "reported_ok s"
  let ?st = "eval_stored md member lock (did_Namespace d) (did_ID d) (did_Version d)"
  show "reported_ok (eval_delete md now member lock d s) \<and>
    (HasAny (ev_depErr (eval_delete md now member lock d s)) \<longleftrightarrow>
       HasAny (ev_depErr s) \<or> \<not> stored_ok md now member lock (did_Namespace d) (did_ID d) (did_Version d)) \<and>
    (stored_ok md now member lock (did_Namespace d) (did_ID d) (did_Version d) \<longrightarrow>
       eval_delete md now member lock d s = eval_add (stored_set member (did_Namespace d) (did_ID d)) (- 1)
        (eval_write now (stored_set member (did_Namespace d) (did_ID d)) 0 s))"
  proof (cases ?st)
    case None
    then show ?thesis using r by (simp add: eval_delete_def stored_ok_def reported_ok_def)
  next
    case (Some g)
    obtain b s' where cl: "eval_claimed (m_Claimant md) now lock g s = (b, s')" by fastforce
    show ?thesis
      using r Some cl eval_claimed_cases[OF cl r] eval_stored_set[OF Some]
      by (cases b) (auto simp: eval_delete_def stored_ok_def reported_ok_def)
  qed
qed

lemma eval_depend_step:
  "eval_step (dep_ok md member lock) (\<lambda>_ s. s) (eval_depend md member lock)"
  by (auto simp: eval_step_def eval_depend_def dep_ok_def reported_ok_def Let_def)

lemma eval_arrive_step:
  "eval_step (arr_ok md now lock) (\<lambda>a. eval_write now (set_of_arrival a) (da_By a)) (eval_arrive md now lock)"
  unfolding eval_step_def
proof (intro allI impI)
  fix a s assume r: "reported_ok s"
  obtain b s' where cl: "eval_claimed (m_Claimant md) now lock (set_of_arrival a) s = (b, s')" by fastforce
  show "reported_ok (eval_arrive md now lock a s) \<and>
    (HasAny (ev_depErr (eval_arrive md now lock a s)) \<longleftrightarrow> HasAny (ev_depErr s) \<or> \<not> arr_ok md now lock a) \<and>
    (arr_ok md now lock a \<longrightarrow> eval_arrive md now lock a s = eval_write now (set_of_arrival a) (da_By a) s)"
    using r cl eval_claimed_cases[OF cl r]
    by (cases b) (auto simp: eval_arrive_def arr_ok_def reported_ok_def Let_def)
qed

lemmas eval_steps = eval_insert_step eval_change_step eval_delete_step eval_depend_step eval_arrive_step

lemma eval_step_fold:
  assumes "eval_step ok write step" and "reported_ok s"
  shows "reported_ok (fold step xs s)"
    and "HasAny (ev_depErr (fold step xs s)) \<longleftrightarrow> HasAny (ev_depErr s) \<or> (\<exists>x \<in> set xs. \<not> ok x)"
    and "\<forall>x \<in> set xs. ok x \<Longrightarrow> fold step xs s = fold write xs s"
proof -
  have st: "reported_ok s \<Longrightarrow> reported_ok (step x s) \<and>
      (HasAny (ev_depErr (step x s)) \<longleftrightarrow> HasAny (ev_depErr s) \<or> \<not> ok x) \<and> (ok x \<longrightarrow> step x s = write x s)" for x s
    using assms(1) by (simp add: eval_step_def)
  have "reported_ok (fold step xs s) \<and>
      (HasAny (ev_depErr (fold step xs s)) \<longleftrightarrow> HasAny (ev_depErr s) \<or> (\<exists>x \<in> set xs. \<not> ok x)) \<and>
      ((\<forall>x \<in> set xs. ok x) \<longrightarrow> fold step xs s = fold write xs s)"
    using assms(2)
  proof (induction xs arbitrary: s)
    case (Cons x xs)
    then show ?case using st[of s x] Cons.IH[of "step x s"] by auto
  qed simp
  then show "reported_ok (fold step xs s)"
    and "HasAny (ev_depErr (fold step xs s)) \<longleftrightarrow> HasAny (ev_depErr s) \<or> (\<exists>x \<in> set xs. \<not> ok x)"
    and "\<forall>x \<in> set xs. ok x \<Longrightarrow> fold step xs s = fold write xs s"
    by blast+
qed

definition doc_ops_ok :: "Modification \<Rightarrow> time \<Rightarrow> (string \<Rightarrow> string \<Rightarrow> Doc option) \<Rightarrow>
    (DSet \<Rightarrow> string \<Rightarrow> Doc option) \<Rightarrow> (DSet \<Rightarrow> Lock) \<Rightarrow> bool" where
  "doc_ops_ok md now member occupant lock \<longleftrightarrow>
     (\<forall>ins \<in> set (m_DocInserts md). ins_ok md now member occupant lock ins) \<and>
     (\<forall>c \<in> set (m_DocChanges md). stored_ok md now member lock (d_Namespace c) (d_ID c) (d_Version c)) \<and>
     (\<forall>d \<in> set (m_DocDeletes md). stored_ok md now member lock (did_Namespace d) (did_ID d) (did_Version d)) \<and>
     (\<forall>d \<in> set (m_DocDepends md). dep_ok md member lock d) \<and>
     (\<forall>a \<in> set (m_DocArrives md). arr_ok md now lock a)"

lemma eval_start_ok: "reported_ok eval_start" "\<not> HasAny (ev_depErr eval_start)"
  by (simp_all add: eval_start_def reported_ok_def HasAny_zero)

lemma eval_all_HasAny:
  "HasAny (ev_depErr (eval_all md now member occupant lock)) \<longleftrightarrow> \<not> doc_ops_ok md now member occupant lock"
  unfolding eval_all_def Let_def doc_ops_ok_def
  by (simp add: eval_steps[THEN eval_step_fold(2)] eval_steps[THEN eval_step_fold(1)] eval_start_ok)

section \<open>What a modification that passes writes\<close>

text \<open>Each write: the set, the arrival asked for, and how many docs it adds.\<close>

definition doc_writes :: "Modification \<Rightarrow> (string \<Rightarrow> string \<Rightarrow> Doc option) \<Rightarrow> (DSet \<times> duration \<times> int) list" where
  "doc_writes md member =
     map (\<lambda>ins. (ins_set ins, dd_by ins, 1)) (m_DocInserts md) @
     map (\<lambda>c. (stored_set member (d_Namespace c) (d_ID c), d_by c, 0)) (m_DocChanges md) @
     map (\<lambda>d. (stored_set member (did_Namespace d) (did_ID d), 0, - 1)) (m_DocDeletes md) @
     map (\<lambda>a. (set_of_arrival a, da_By a, 0)) (m_DocArrives md)"

definition added_of :: "EvalState \<Rightarrow> DSet \<Rightarrow> int" where
  "added_of s g = (case map_of (ev_added s) g of Some k \<Rightarrow> k | None \<Rightarrow> 0)"

type_synonym ev_view = "(DSet \<rightharpoonup> time) \<times> (DSet \<Rightarrow> int)"

definition ev_view :: "EvalState \<Rightarrow> ev_view" where
  "ev_view s = (map_of (ev_held s), added_of s)"

definition later :: "time \<Rightarrow> duration \<Rightarrow> time \<Rightarrow> time" where
  "later now by latest = (if by > 0 \<and> now + by > latest then now + by else latest)"

definition view_write :: "time \<Rightarrow> DSet \<times> duration \<times> int \<Rightarrow> ev_view \<Rightarrow> ev_view" where
  "view_write now = (\<lambda>(g, by, n) (h, a).
     (h(g \<mapsto> later now by (case h g of Some at \<Rightarrow> at | None \<Rightarrow> zero_time)), a(g := a g + n)))"

lemma ev_view_write:
  "ev_view (eval_write now g by s) = view_write now (g, by, 0) (ev_view s)"
  "ev_view (eval_add g n (eval_write now g by s)) = view_write now (g, by, n) (ev_view s)"
  by (auto simp: ev_view_def view_write_def eval_write_def eval_add_def later_def added_of_def Let_def
      fun_eq_iff split: option.splits)

lemma ev_view_fold:
  assumes "\<And>x s. ev_view (write x s) = view_write now (enc x) (ev_view s)"
  shows "ev_view (fold write xs s) = fold (view_write now) (map enc xs) (ev_view s)"
  by (induction xs arbitrary: s) (simp_all add: assms)

lemma eval_all_view:
  assumes "doc_ops_ok md now member occupant lock"
  shows "ev_view (eval_all md now member occupant lock) =
    fold (view_write now) (doc_writes md member) (Map.empty, \<lambda>_. 0)"
proof -
  have ok: "\<forall>ins \<in> set (m_DocInserts md). ins_ok md now member occupant lock ins"
    "\<forall>c \<in> set (m_DocChanges md). stored_ok md now member lock (d_Namespace c) (d_ID c) (d_Version c)"
    "\<forall>d \<in> set (m_DocDeletes md). stored_ok md now member lock (did_Namespace d) (did_ID d) (did_Version d)"
    "\<forall>d \<in> set (m_DocDepends md). dep_ok md member lock d" "\<forall>a \<in> set (m_DocArrives md). arr_ok md now lock a"
    using assms by (simp_all add: doc_ops_ok_def)
  have start: "ev_view eval_start = (Map.empty, \<lambda>_. 0)"
    by (simp add: ev_view_def eval_start_def added_of_def fun_eq_iff)
  have id: "fold (\<lambda>_ s. s) xs s = s" for xs :: "DocID list" and s :: EvalState
    by (induction xs) simp_all
  note r = eval_steps[THEN eval_step_fold(1)] and w = eval_steps[THEN eval_step_fold(3)]
  have "ev_view (eval_all md now member occupant lock) =
    ev_view (fold (\<lambda>a. eval_write now (set_of_arrival a) (da_By a)) (m_DocArrives md)
      (fold (\<lambda>d s. eval_add (stored_set member (did_Namespace d) (did_ID d)) (- 1)
          (eval_write now (stored_set member (did_Namespace d) (did_ID d)) 0 s)) (m_DocDeletes md)
        (fold (\<lambda>c. eval_write now (stored_set member (d_Namespace c) (d_ID c)) (d_by c)) (m_DocChanges md)
          (fold (\<lambda>ins s. eval_add (ins_set ins) 1 (eval_write now (ins_set ins) (dd_by ins) s))
            (m_DocInserts md) eval_start))))"
    unfolding eval_all_def Let_def
    by (subst w(5)[OF _ ok(5)], simp add: r eval_start_ok, subst w(4)[OF _ ok(4)], simp add: r eval_start_ok,
        subst w(3)[OF _ ok(3)], simp add: r eval_start_ok, subst w(2)[OF _ ok(2)], simp add: r eval_start_ok,
        subst w(1)[OF _ ok(1)], simp add: eval_start_ok, simp add: id)
  also have "\<dots> = fold (view_write now) (doc_writes md member) (Map.empty, \<lambda>_. 0)"
    by (simp add: ev_view_fold[OF ev_view_write(1)] ev_view_fold[OF ev_view_write(2)] start doc_writes_def)
  finally show ?thesis .
qed

text \<open>The arrivals asked of a set, and the docs added to it.\<close>

definition bys_of :: "(DSet \<times> duration \<times> int) list \<Rightarrow> DSet \<Rightarrow> duration list" where
  "bys_of ws g = map (\<lambda>(_, by, _). by) (filter (\<lambda>(h, _). h = g) ws)"

definition added_to :: "(DSet \<times> duration \<times> int) list \<Rightarrow> DSet \<Rightarrow> int" where
  "added_to ws g = sum_list (map (\<lambda>(_, _, n). n) (filter (\<lambda>(h, _). h = g) ws))"

lemma fold_view_write:
  "fold (view_write now) ws (h, a) =
     ((\<lambda>g. if g \<in> fst ` set ws
           then Some (fold (later now) (bys_of ws g) (case h g of Some at \<Rightarrow> at | None \<Rightarrow> zero_time)) else h g),
      (\<lambda>g. a g + added_to ws g))"
proof (induction ws arbitrary: h a)
  case Nil
  then show ?case by (simp add: bys_of_def added_to_def)
next
  case (Cons w ws)
  obtain g b n where w: "w = (g, b, n)" by (cases w)
  have "bys_of (w # ws) g' = (if g' = g then b # bys_of ws g' else bys_of ws g')"
    "added_to (w # ws) g' = (if g' = g then n + added_to ws g' else added_to ws g')" for g'
    by (simp_all add: bys_of_def added_to_def w)
  moreover have "bys_of ws g' = []" if "g' \<notin> fst ` set ws" for g'
    using that by (force simp: bys_of_def filter_empty_conv)
  moreover have "view_write now w (h, a) =
      (h(g \<mapsto> later now b (case h g of Some at \<Rightarrow> at | None \<Rightarrow> zero_time)), a(g := a g + n))" "fst w = g"
    by (simp_all add: view_write_def w)
  ultimately show ?case
    by (auto simp: Cons.IH fun_eq_iff)
qed

text \<open>The latest of the arrivals asked for, when one is in the future.\<close>

lemma later_pos: "0 \<le> latest \<Longrightarrow> 0 \<le> later now by latest \<and> latest \<le> later now by latest"
  by (simp add: later_def)

lemma fold_later:
  assumes "0 \<le> now"
  shows "fold (later now) bys zero_time =
    (if filter (\<lambda>by. by > 0) bys = [] then zero_time else now + Max (set (filter (\<lambda>by. by > 0) bys)))"
proof (induction bys rule: rev_induct)
  case (snoc b bys)
  let ?p = "\<lambda>bys. filter (\<lambda>by. by > (0::int)) bys"
  show ?case
  proof (cases "b > 0")
    case True
    have M: "Max (insert b (set q)) = (if q = [] then b else max b (Max (set q)))" for q :: "int list"
      by simp
    have "set (?p (bys @ [b])) = insert b (set (?p bys))"
      using True by simp
    then have "Max (set (?p (bys @ [b]))) = (if ?p bys = [] then b else max b (Max (set (?p bys))))"
      by (simp only: M)
    with True snoc assms show ?thesis
      by (auto simp: later_def zero_time_def max_def)
  next
    case False
    with snoc show ?thesis by (simp add: later_def)
  qed
qed simp

section \<open>The sets to lock\<close>

lemma set_add_set: "set (add_set g gs) = insert g (set gs)"
  by (auto simp: add_set_def)

lemma set_add_stored:
  "set (add_stored member ns i gs) = (if member ns i = None then set gs else insert (stored_set member ns i) (set gs))"
  by (auto simp: add_stored_def stored_set_def set_add_set split: option.splits)

lemma set_fold_insert:
  assumes "\<And>x gs. set (f x gs) = (if P x then insert (k x) (set gs) else set gs)"
  shows "set (fold f xs gs) = set gs \<union> k ` {x \<in> set xs. P x}"
proof (induction xs arbitrary: gs)
  case (Cons x xs)
  then show ?case by (auto simp: assms)
qed simp

lemma Exclusive_eq:
  "set (Exclusive md member) = ins_set ` set (m_DocInserts md) \<union>
     (\<lambda>c. stored_set member (d_Namespace c) (d_ID c)) ` {c \<in> set (m_DocChanges md). member (d_Namespace c) (d_ID c) \<noteq> None} \<union>
     (\<lambda>d. stored_set member (did_Namespace d) (did_ID d)) ` {d \<in> set (m_DocDeletes md). member (did_Namespace d) (did_ID d) \<noteq> None} \<union>
     set_of_arrival ` set (m_DocArrives md)"
proof -
  note i = set_fold_insert[where P = "\<lambda>_. True"]
  show ?thesis
    unfolding Exclusive_def Let_def
    by (subst i[where k = set_of_arrival], simp add: set_add_set,
        subst set_fold_insert[where P = "\<lambda>d. member (did_Namespace d) (did_ID d) \<noteq> None" and
          k = "\<lambda>d. stored_set member (did_Namespace d) (did_ID d)"], simp add: set_add_stored,
        subst set_fold_insert[where P = "\<lambda>c. member (d_Namespace c) (d_ID c) \<noteq> None" and
          k = "\<lambda>c. stored_set member (d_Namespace c) (d_ID c)"], simp add: set_add_stored,
        subst i[where k = ins_set], simp add: set_add_set ins_set_def, simp)
qed

lemma doc_writes_sets:
  assumes "doc_ops_ok md now member occupant lock"
  shows "fst ` set (doc_writes md member) = set (Exclusive md member)"
proof -
  have "{c \<in> set (m_DocChanges md). member (d_Namespace c) (d_ID c) \<noteq> None} = set (m_DocChanges md)"
    using assms eval_stored_set by (fastforce simp: doc_ops_ok_def stored_ok_def)
  moreover have "{d \<in> set (m_DocDeletes md). member (did_Namespace d) (did_ID d) \<noteq> None} = set (m_DocDeletes md)"
    using assms eval_stored_set by (fastforce simp: doc_ops_ok_def stored_ok_def)
  ultimately show ?thesis
    unfolding Exclusive_eq doc_writes_def by (simp only: set_append set_map image_Un image_image fst_conv Un_assoc)
qed

text \<open>No set is written while someone else holds it.\<close>

lemma Exclusive_not_held:
  assumes "doc_ops_ok md now member occupant lock" "g \<in> set (Exclusive md member)"
  shows "\<not> HeldByOther (lock g) (m_Claimant md) now"
  using assms eval_stored_set unfolding Exclusive_eq
  by (fastforce simp: doc_ops_ok_def stored_ok_def ins_ok_def arr_ok_def)

section \<open>The plan\<close>

text \<open>The lock that replaces \<open>l\<close>, given the arrivals asked of its set and the docs added to it.\<close>

definition new_lock :: "string \<Rightarrow> time \<Rightarrow> Lock \<Rightarrow> duration list \<Rightarrow> int \<Rightarrow> Lock" where
  "new_lock claimant now l bys n = (let at = fold (later now) bys zero_time in
     \<lparr>lk_Stored = True, lk_Version = written l, lk_Claimant = (if at = zero_time then [] else claimant),
      lk_At = (if at = zero_time then now else at), lk_NumDocs = lk_NumDocs l + n\<rparr>)"

lemma new_lock_sel [simp]:
  "lk_Stored (new_lock c now l bys n)" "lk_Version (new_lock c now l bys n) = written l"
  "lk_NumDocs (new_lock c now l bys n) = lk_NumDocs l + n"
  by (simp_all add: new_lock_def Let_def)

definition new_locks :: "Modification \<Rightarrow> time \<Rightarrow> (string \<Rightarrow> string \<Rightarrow> Doc option) \<Rightarrow> (DSet \<Rightarrow> Lock) \<Rightarrow> DSet \<Rightarrow> Lock option" where
  "new_locks md now member lock g =
     (if g \<in> fst ` set (doc_writes md member)
      then Some (new_lock (m_Claimant md) now (lock g) (bys_of (doc_writes md member) g) (added_to (doc_writes md member) g))
      else None)"

lemma gm_ok_eval_write: "gm_ok (ev_held s) \<Longrightarrow> gm_ok (ev_held (eval_write now g by s))"
  by (simp add: eval_write_def Let_def)

lemma gm_ok_eval_claimed: "gm_ok (ev_held (snd (eval_claimed c now lock g s))) = gm_ok (ev_held s)"
  by (auto simp: eval_claimed_def Let_def)

lemma gm_ok_eval_ops:
  assumes "gm_ok (ev_held s)"
  shows "gm_ok (ev_held (eval_insert md now member occupant lock ins s))" "gm_ok (ev_held (eval_change md now member lock c s))"
    "gm_ok (ev_held (eval_delete md now member lock d s))" "gm_ok (ev_held (eval_depend md member lock d s))"
    "gm_ok (ev_held (eval_arrive md now lock a s))"
proof -
  have cl: "gm_ok (ev_held s')" if "eval_claimed (m_Claimant md) now lock g s = (b, s')" for g b s'
    using gm_ok_eval_claimed[of "m_Claimant md" now lock g s] assms that by simp
  have w: "ev_held (ev_err f s) = ev_held s" for f s by (simp add: ev_err_def)
  note simps = Let_def w gm_ok_eval_write assms
  show "gm_ok (ev_held (eval_insert md now member occupant lock ins s))"
    unfolding eval_insert_def by (auto simp: simps split: option.splits prod.splits bool.splits dest: cl)
  show "gm_ok (ev_held (eval_change md now member lock c s))"
    unfolding eval_change_def by (auto simp: simps split: option.splits prod.splits bool.splits dest: cl)
  show "gm_ok (ev_held (eval_delete md now member lock d s))"
    unfolding eval_delete_def by (auto simp: simps split: option.splits prod.splits bool.splits dest: cl)
  show "gm_ok (ev_held (eval_depend md member lock d s))" by (simp add: eval_depend_def simps)
  show "gm_ok (ev_held (eval_arrive md now lock a s))"
    unfolding eval_arrive_def by (auto simp: simps split: prod.splits bool.splits dest: cl)
qed

lemma fold_keeps: "(\<And>x s. P s \<Longrightarrow> P (f x s)) \<Longrightarrow> P s \<Longrightarrow> P (fold f xs s)"
  by (induction xs arbitrary: s) auto

lemma gm_ok_eval_all: "gm_ok (ev_held (eval_all md now member occupant lock))"
  unfolding eval_all_def Let_def
  by (intro fold_keeps[where P = "\<lambda>s. gm_ok (ev_held s)"] gm_ok_eval_ops) (simp_all add: eval_start_def)

lemma Evaluate_locks:
  assumes "doc_ops_ok md now member occupant lock"
  shows "pl_Err (Evaluate md now member occupant lock) = None"
    "gm_ok (pl_Locks (Evaluate md now member occupant lock))"
    "map_of (pl_Locks (Evaluate md now member occupant lock)) = new_locks md now member lock"
proof -
  let ?s = "eval_all md now member occupant lock" and ?w = "doc_writes md member"
  have err: "\<not> HasAny (ev_depErr ?s)" using assms by (simp add: eval_all_HasAny)
  then show "pl_Err (Evaluate md now member occupant lock) = None" by (simp add: Evaluate_def Let_def)
  have pl: "pl_Locks (Evaluate md now member occupant lock) = map (\<lambda>(g, at). (g, next_lock md now lock ?s g at)) (ev_held ?s)"
    using err by (simp add: Evaluate_def Let_def)
  show "gm_ok (pl_Locks (Evaluate md now member occupant lock))"
    using gm_ok_eval_all[of md now member occupant lock] unfolding pl gm_ok_def by (simp add: case_prod_unfold comp_def)
  have view: "map_of (ev_held ?s) g = (if g \<in> fst ` set ?w then Some (fold (later now) (bys_of ?w g) zero_time) else None)"
      "added_of ?s g = added_to ?w g" for g
    using eval_all_view[OF assms] by (simp_all add: ev_view_def fold_view_write fun_eq_iff)
  have "next_lock md now lock ?s g at = (if at = zero_time
      then \<lparr>lk_Stored = True, lk_Version = written (lock g), lk_Claimant = [], lk_At = now, lk_NumDocs = lk_NumDocs (lock g) + added_to ?w g\<rparr>
      else \<lparr>lk_Stored = True, lk_Version = written (lock g), lk_Claimant = m_Claimant md, lk_At = at, lk_NumDocs = lk_NumDocs (lock g) + added_to ?w g\<rparr>)" for g at
    using view(2)[of g] by (simp add: next_lock_def Let_def added_of_def)
  then show "map_of (pl_Locks (Evaluate md now member occupant lock)) = new_locks md now member lock"
    unfolding pl by (auto simp: map_of_map_key view(1) new_locks_def new_lock_def Let_def fun_eq_iff)
qed

lemma Evaluate_err:
  "pl_Err (Evaluate md now member occupant lock) = None \<longleftrightarrow> doc_ops_ok md now member occupant lock"
  using eval_all_HasAny[of md now member occupant lock] by (auto simp: Evaluate_def Let_def)

lemma new_lock_hold:
  assumes "0 \<le> now"
  shows "let future = filter (\<lambda>by. by > 0) bys in
    if future = [] then lk_Claimant (new_lock c now l bys n) = [] \<and> lk_At (new_lock c now l bys n) = now
    else lk_Claimant (new_lock c now l bys n) = c \<and> lk_At (new_lock c now l bys n) = now + Max (set future)"
proof -
  have "now + Max (set (filter (\<lambda>by. by > 0) bys)) \<noteq> zero_time" if "filter (\<lambda>by. by > 0) bys \<noteq> []"
  proof -
    have "Max (set (filter (\<lambda>by. by > 0) bys)) \<in> set (filter (\<lambda>by. by > 0) bys)"
      using that by (intro Max_in) (simp_all del: set_filter)
    then show ?thesis using assms by (simp add: zero_time_def)
  qed
  then show ?thesis by (auto simp: new_lock_def Let_def fold_later[OF assms])
qed

section \<open>Properties of Evaluate\<close>



definition ex_doc_mod :: Modification where
  "ex_doc_mod = NewModification ''me'' [PuttingDocInto ''ns'' [WithIDKeys ''d1'' ''k'' ''s1'', WithDocArrivalTimeBy 5],
     PuttingDocInto ''ns'' [WithIDKeys ''d2'' ''k'' ''s2'']]"


end
