(* ===== verification/ClaimHeap.thy ===== *)
theory ClaimHeap
  imports EntroqTypes
begin

text \<open>
  The heap of claimable tasks that the in-memory backend keeps for every queue: claimheap.go, with
  the functions of container/heap that it calls. The items are pointers: the same item is in the
  slice and in the map from IDs, and the heap operations write its index. A pointer is a position
  in the list \<open>ch_mem\<close> of the items ever allocated.
\<close>

section \<open>Items and heaps\<close>

record claimItem =
  ci_id :: string
  ci_q :: string
  ci_at :: time
  ci_idx :: int

type_synonym ptr = nat

record claimHeap =
  ch_items :: "ptr list"
  ch_byID :: "(string, ptr) gomap"
  ch_mem :: "claimItem list"

definition newItem :: "string \<Rightarrow> string \<Rightarrow> time \<Rightarrow> claimItem" where
  "newItem q i at = \<lparr>ci_id = i, ci_q = q, ci_at = at, ci_idx = - 1\<rparr>"

definition newClaimHeap :: claimHeap where
  "newClaimHeap = \<lparr>ch_items = [], ch_byID = [], ch_mem = []\<rparr>"

definition ch_Len :: "claimHeap \<Rightarrow> nat" where
  "ch_Len h = length (ch_items h)"

definition item_at :: "claimHeap \<Rightarrow> nat \<Rightarrow> claimItem" where
  "item_at h k = ch_mem h ! (ch_items h ! k)"

definition set_idx :: "ptr \<Rightarrow> int \<Rightarrow> claimHeap \<Rightarrow> claimHeap" where
  "set_idx p k h = h\<lparr>ch_mem := (ch_mem h)[p := (ch_mem h ! p)\<lparr>ci_idx := k\<rparr>]\<rparr>"

definition ch_Less :: "claimHeap \<Rightarrow> nat \<Rightarrow> nat \<Rightarrow> bool" where
  "ch_Less h i j \<longleftrightarrow> ci_at (item_at h i) < ci_at (item_at h j)"

definition ch_Swap :: "claimHeap \<Rightarrow> nat \<Rightarrow> nat \<Rightarrow> claimHeap" where
  "ch_Swap h i j =
     (let h = h\<lparr>ch_items := (ch_items h)[i := ch_items h ! j, j := ch_items h ! i]\<rparr>;
          h = set_idx (ch_items h ! i) (int i) h
      in set_idx (ch_items h ! j) (int j) h)"

text \<open>Push of heap.Interface; the new item is allocated here.\<close>

definition ch_Push :: "claimHeap \<Rightarrow> claimItem \<Rightarrow> claimHeap" where
  "ch_Push h item = h\<lparr>
     ch_mem := ch_mem h @ [item\<lparr>ci_idx := int (length (ch_items h))\<rparr>],
     ch_items := ch_items h @ [length (ch_mem h)]\<rparr>"

definition ch_Pop :: "claimHeap \<Rightarrow> claimHeap" where
  "ch_Pop h =
     (let h = set_idx (last (ch_items h)) (- 1) h in h\<lparr>ch_items := butlast (ch_items h)\<rparr>)"

section \<open>The functions of container/heap\<close>

text \<open>The index of the parent is \<open>(j - 1) / 2\<close>, truncated toward 0, so that of 0 is 0.\<close>

function heap_up :: "claimHeap \<Rightarrow> nat \<Rightarrow> claimHeap" where
  "heap_up h j =
     (let i = (j - 1) div 2 in
      if i = j \<or> \<not> ch_Less h j i then h else heap_up (ch_Swap h i j) i)"
  by pat_completeness auto
termination
  by (relation "measure snd") auto

definition least_child :: "claimHeap \<Rightarrow> nat \<Rightarrow> nat \<Rightarrow> nat" where
  "least_child h i n =
     (if 2 * i + 2 < n \<and> ch_Less h (2 * i + 2) (2 * i + 1) then 2 * i + 2 else 2 * i + 1)"

text \<open>The loop of down; it returns the heap and the index where it ends.\<close>

function heap_down_loop :: "claimHeap \<Rightarrow> nat \<Rightarrow> nat \<Rightarrow> claimHeap \<times> nat" where
  "heap_down_loop h i n =
     (if 2 * i + 1 \<ge> n then (h, i)
      else let j = least_child h i n in
        if \<not> ch_Less h j i then (h, i) else heap_down_loop (ch_Swap h i j) j n)"
  by pat_completeness auto
termination
  by (relation "measure (\<lambda>(h, i, n). n - i)") (auto simp: least_child_def split: if_splits)

definition heap_down :: "claimHeap \<Rightarrow> nat \<Rightarrow> nat \<Rightarrow> claimHeap \<times> bool" where
  "heap_down h i0 n = (case heap_down_loop h i0 n of (h', i) \<Rightarrow> (h', i > i0))"

definition heap_Push :: "claimHeap \<Rightarrow> claimItem \<Rightarrow> claimHeap" where
  "heap_Push h item = (let h = ch_Push h item in heap_up h (ch_Len h - 1))"

definition down_or_up :: "claimHeap \<Rightarrow> nat \<Rightarrow> nat \<Rightarrow> claimHeap" where
  "down_or_up h i n = (case heap_down h i n of (h', moved) \<Rightarrow> if moved then h' else heap_up h' i)"

text \<open>Remove reads the slice at \<open>i\<close> and panics when that is out of range.\<close>

definition heap_Remove :: "claimHeap \<Rightarrow> int \<Rightarrow> goerror + claimHeap" where
  "heap_Remove h i =
     (if i < 0 \<or> i \<ge> int (ch_Len h) then Inl (Panic ''index out of range'')
      else let n = ch_Len h - 1; i = nat i in
        if n \<noteq> i then Inr (ch_Pop (down_or_up (ch_Swap h i n) i n)) else Inr (ch_Pop h))"

text \<open>
  Fix of a negative index or of 0 in an empty heap touches no item; any other index out of range
  is read by up, which panics.
\<close>

definition heap_Fix :: "claimHeap \<Rightarrow> int \<Rightarrow> goerror + claimHeap" where
  "heap_Fix h i =
     (if i < 0 \<or> i = 0 \<and> ch_Len h = 0 then Inr h
      else if i \<ge> int (ch_Len h) then Inl (Panic ''index out of range'')
      else Inr (down_or_up h (nat i) (ch_Len h)))"

section \<open>Operations of claimHeap\<close>

definition FindItem :: "claimHeap \<Rightarrow> string \<Rightarrow> ptr option" where
  "FindItem h i = map_of (ch_byID h) i"

definition PushItem :: "claimHeap \<Rightarrow> claimItem \<Rightarrow> claimHeap" where
  "PushItem h item =
     (let p = length (ch_mem h); h = heap_Push h item
      in h\<lparr>ch_byID := gm_set (ci_id item) p (ch_byID h)\<rparr>)"

definition RemoveItem :: "claimHeap \<Rightarrow> ptr \<Rightarrow> goerror + claimHeap" where
  "RemoveItem h p =
     sbind (heap_Remove h (ci_idx (ch_mem h ! p)))
       (\<lambda>h'. Inr (h'\<lparr>ch_byID := gm_del (ci_id (ch_mem h ! p)) (ch_byID h')\<rparr>))"

definition RemoveID :: "claimHeap \<Rightarrow> string \<Rightarrow> goerror + claimHeap \<times> bool" where
  "RemoveID h i =
     (case FindItem h i of
        None \<Rightarrow> Inr (h, False)
      | Some p \<Rightarrow> sbind (RemoveItem h p) (\<lambda>h'. Inr (h', True)))"

definition FixItem :: "claimHeap \<Rightarrow> ptr \<Rightarrow> goerror + claimHeap" where
  "FixItem h p = heap_Fix h (ci_idx (ch_mem h ! p))"

definition UpdateItem :: "claimHeap \<Rightarrow> ptr \<Rightarrow> time \<Rightarrow> goerror + claimHeap" where
  "UpdateItem h p at =
     FixItem (h\<lparr>ch_mem := (ch_mem h)[p := (ch_mem h ! p)\<lparr>ci_at := at\<rparr>]\<rparr>) p"

definition UpdateID :: "claimHeap \<Rightarrow> string \<Rightarrow> time \<Rightarrow> goerror + claimHeap \<times> bool" where
  "UpdateID h i at =
     (case FindItem h i of
        None \<Rightarrow> Inr (h, False)
      | Some p \<Rightarrow> sbind (UpdateItem h p at) (\<lambda>h'. Inr (h', True)))"

text \<open>CountAvailable: \<open>walk\<close> threads the count through the recursion.\<close>

function count_walk :: "claimHeap \<Rightarrow> time \<Rightarrow> int \<Rightarrow> nat \<Rightarrow> int \<Rightarrow> int" where
  "count_walk h now limit index cnt =
     (if cnt \<ge> limit \<or> index \<ge> length (ch_items h) \<or> now < ci_at (item_at h index) then cnt
      else count_walk h now limit (index * 2 + 2)
             (count_walk h now limit (index * 2 + 1) (cnt + 1)))"
  by pat_completeness auto
termination
  by (relation "measure (\<lambda>(h, _, _, index, _). length (ch_items h) - index)") auto

definition CountAvailable :: "claimHeap \<Rightarrow> time \<Rightarrow> int \<Rightarrow> int" where
  "CountAvailable h now limit = count_walk h now limit 0 0"

text \<open>
  The random draws are a parameter: \<open>draw k\<close> says, for the two draws made at index \<open>k\<close>, whether
  each is below 0.33. A draw is always below the threshold 1.0 used at an unavailable item.
\<close>

function randAvail :: "(nat \<Rightarrow> bool \<times> bool) \<Rightarrow> claimHeap \<Rightarrow> time \<Rightarrow> nat \<Rightarrow> ptr option" where
  "randAvail draw h now index =
     (if index \<ge> length (ch_items h) then None
      else let item = (if \<not> now < ci_at (item_at h index) then Some (ch_items h ! index) else None);
          low = item = None;
          item = (if low \<or> fst (draw index)
                  then case randAvail draw h now (index * 2 + 1) of Some c \<Rightarrow> Some c | None \<Rightarrow> item
                  else item)
      in if low \<or> snd (draw index)
         then case randAvail draw h now (index * 2 + 2) of Some c \<Rightarrow> Some c | None \<Rightarrow> item
         else item)"
  by pat_completeness auto
termination
  by (relation "measure (\<lambda>(_, h, _, index). length (ch_items h) - index)") auto

definition RandomAvailable :: "(nat \<Rightarrow> bool \<times> bool) \<Rightarrow> claimHeap \<Rightarrow> time \<Rightarrow> ptr option" where
  "RandomAvailable draw h now = randAvail draw h now 0"

declare heap_up.simps [simp del] heap_down_loop.simps [simp del]
  count_walk.simps [simp del] randAvail.simps [simp del]

end
