(* ===== verification/ClaimHeapFacts.thy ===== *)
theory ClaimHeapFacts
  imports ClaimHeap
begin

text \<open>
  Correctness of the claim heap: every operation keeps the slice, the map and the indices in
  agreement and the slice in heap order, none of them panics on a well-formed heap, and their
  effect on the map from IDs to arrival times is the expected one.
\<close>

section \<open>Heap order of a function on indices\<close>

abbreviation parent :: "nat \<Rightarrow> nat" where
  "parent k \<equiv> (k - 1) div 2"

definition link :: "(nat \<Rightarrow> int) \<Rightarrow> nat \<Rightarrow> bool" where
  "link key k \<longleftrightarrow> key (parent k) \<le> key k"

definition heap_ord :: "(nat \<Rightarrow> int) \<Rightarrow> nat \<Rightarrow> bool" where
  "heap_ord key n \<longleftrightarrow> (\<forall>k. 0 < k \<and> k < n \<longrightarrow> link key k)"

lemma heap_ord_mono: "heap_ord key m \<Longrightarrow> n \<le> m \<Longrightarrow> heap_ord key n"
  by (auto simp: heap_ord_def)

text \<open>The children of \<open>i\<close> are not below the parent of \<open>i\<close>.\<close>

definition hole :: "(nat \<Rightarrow> int) \<Rightarrow> nat \<Rightarrow> nat \<Rightarrow> bool" where
  "hole key n i \<longleftrightarrow> (\<forall>k. 0 < i \<and> 0 < k \<and> k < n \<and> parent k = i \<longrightarrow> key (parent i) \<le> key k)"

text \<open>Heap order except between \<open>j\<close> and its parent, and except between \<open>i\<close> and its children.\<close>

definition ord_up :: "(nat \<Rightarrow> int) \<Rightarrow> nat \<Rightarrow> nat \<Rightarrow> bool" where
  "ord_up key n j \<longleftrightarrow> (\<forall>k. 0 < k \<and> k < n \<and> k \<noteq> j \<longrightarrow> link key k) \<and> hole key n j"

definition ord_down :: "bool \<Rightarrow> (nat \<Rightarrow> int) \<Rightarrow> nat \<Rightarrow> nat \<Rightarrow> bool" where
  "ord_down strict key n i \<longleftrightarrow>
     (\<forall>k. 0 < k \<and> k < n \<and> parent k \<noteq> i \<and> (k \<noteq> i \<or> strict) \<longrightarrow> link key k) \<and> hole key n i"

definition swapped :: "(nat \<Rightarrow> int) \<Rightarrow> nat \<Rightarrow> nat \<Rightarrow> nat \<Rightarrow> int" where
  "swapped key i j = key(i := key j, j := key i)"

lemma ord_up_done: "ord_up key n j \<Longrightarrow> j = 0 \<or> key (parent j) \<le> key j \<Longrightarrow> heap_ord key n"
  by (cases "j = 0") (auto simp: ord_up_def heap_ord_def link_def)

lemma child_cases: "0 < k \<Longrightarrow> parent k = i \<longleftrightarrow> k = 2 * i + 1 \<or> k = 2 * i + 2"
  by linarith

lemma parent_less: "0 < k \<Longrightarrow> parent k < k"
  by linarith

lemma ord_up_step:
  assumes up: "ord_up key n j" and j: "0 < j" "j < n" and less: "key j < key (parent j)"
  shows "ord_up (swapped key (parent j) j) n (parent j)"
proof -
  let ?i = "parent j"
  let ?key = "swapped key ?i j"
  have ij: "?i < j" using j by linarith
  have lk: "link key k" if "0 < k" "k < n" "k \<noteq> j" for k
    using up that by (simp add: ord_up_def)
  have ho: "key ?i \<le> key k" if "0 < k" "k < n" "parent k = j" for k
    using up that j by (simp add: ord_up_def hole_def)
  have other: "?key k = key k" if "k \<noteq> ?i" "k \<noteq> j" for k
    using that by (simp add: swapped_def)
  have at: "?key ?i = key j" "?key j = key ?i"
    using ij by (auto simp: swapped_def)
  have "link ?key k" if k: "0 < k" "k < n" "k \<noteq> ?i" for k
  proof -
    consider "k = j" | "k \<noteq> j" "parent k = j" | "k \<noteq> j" "parent k = ?i" | "k \<noteq> j" "parent k \<noteq> j" "parent k \<noteq> ?i"
      by blast
    then show ?thesis
    proof cases
      case 1 then show ?thesis using less at by (simp add: link_def)
    next
      case 2 then show ?thesis using ho[of k] k at other[of k] by (simp add: link_def)
    next
      case 3 then show ?thesis using lk[of k] k at other[of k] less by (simp add: link_def)
    next
      case 4 then show ?thesis using lk[of k] k other[of k] other[of "parent k"] by (simp add: link_def)
    qed
  qed
  moreover have "hole ?key n ?i"
    unfolding hole_def
  proof (intro allI impI)
    fix k assume k: "0 < ?i \<and> 0 < k \<and> k < n \<and> parent k = ?i"
    have pp: "?key (parent ?i) = key (parent ?i)"
      using k ij by (intro other) linarith+
    have i: "key (parent ?i) \<le> key ?i"
      using lk[of ?i] k ij j by (simp add: link_def)
    show "?key (parent ?i) \<le> ?key k"
    proof (cases "k = j")
      case True then show ?thesis using i at pp by simp
    next
      case False
      then have "key ?i \<le> key k" "?key k = key k"
        using k lk[of k] other[of k] parent_less[of k] by (auto simp: link_def)
      then show ?thesis using i pp by simp
    qed
  qed
  ultimately show ?thesis by (simp add: ord_up_def)
qed

lemma ord_down_step:
  assumes down: "ord_down strict key n i" and j: "j < n" "parent j = i" "0 < j"
    and less: "key j < key i"
    and least: "\<And>k. 0 < k \<Longrightarrow> k < n \<Longrightarrow> parent k = i \<Longrightarrow> key j \<le> key k"
  shows "ord_down True (swapped key i j) n j"
proof -
  let ?key = "swapped key i j"
  have ij: "i < j" using j by linarith
  have lk: "link key k" if "0 < k" "k < n" "parent k \<noteq> i" "k \<noteq> i" for k
    using down that by (simp add: ord_down_def)
  have ho: "0 < i \<Longrightarrow> key (parent i) \<le> key j"
    using down j by (simp add: ord_down_def hole_def)
  have other: "?key k = key k" if "k \<noteq> i" "k \<noteq> j" for k
    using that by (simp add: swapped_def)
  have at: "?key i = key j" "?key j = key i"
    using ij by (auto simp: swapped_def)
  have "link ?key k" if k: "0 < k" "k < n" "parent k \<noteq> j" for k
  proof -
    consider "k = j" | "k \<noteq> j" "parent k = i" | "k = i" "parent k \<noteq> i" | "k \<noteq> i" "k \<noteq> j" "parent k \<noteq> i"
      by blast
    then show ?thesis
    proof cases
      case 1 then show ?thesis using less at j by (simp add: link_def)
    next
      case 2 then show ?thesis
        using least[of k] k at other[of k] parent_less[of k] by (simp add: link_def)
    next
      case 3
      moreover have "?key (parent i) = key (parent i)"
        using 3 k by (intro other) auto
      ultimately show ?thesis using ho at k by (simp add: link_def)
    next
      case 4 then show ?thesis using lk[of k] k other[of k] other[of "parent k"] by (simp add: link_def)
    qed
  qed
  moreover have "hole ?key n j"
    unfolding hole_def
  proof (intro allI impI)
    fix k assume k: "0 < j \<and> 0 < k \<and> k < n \<and> parent k = j"
    then have "k > j" using parent_less[of k] by simp
    then have "?key k = key k" "key j \<le> key k"
      using ij k lk[of k] other[of k] by (auto simp: link_def)
    with at j show "?key (parent j) \<le> ?key k" by simp
  qed
  ultimately show ?thesis by (simp add: ord_down_def)
qed

text \<open>When no child is below \<open>i\<close>, only the link between \<open>i\<close> and its parent can be broken.\<close>

lemma ord_down_done:
  assumes "ord_down strict key n i" and "\<And>k. 0 < k \<Longrightarrow> k < n \<Longrightarrow> parent k = i \<Longrightarrow> key i \<le> key k"
  shows "ord_up key n i" and "strict \<Longrightarrow> heap_ord key n"
  using assms by (auto simp: ord_down_def ord_up_def heap_ord_def link_def)

section \<open>Swapping and moving items\<close>

text \<open>The arrival time at each position of the slice.\<close>

definition ats :: "claimHeap \<Rightarrow> nat \<Rightarrow> int" where
  "ats h k = ci_at (item_at h k)"

text \<open>Distinct allocated items, each with its position as its index.\<close>

definition ch_struct :: "claimHeap \<Rightarrow> bool" where
  "ch_struct h \<longleftrightarrow> distinct (ch_items h) \<and> (\<forall>p \<in> set (ch_items h). p < length (ch_mem h)) \<and>
     (\<forall>k < length (ch_items h). ci_idx (item_at h k) = int k)"

text \<open>What the moves leave alone: everything but the order of the items and their indices.\<close>

definition without_idx :: "claimItem \<Rightarrow> claimItem" where
  "without_idx c = c\<lparr>ci_idx := 0\<rparr>"

definition same_items :: "claimHeap \<Rightarrow> claimHeap \<Rightarrow> bool" where
  "same_items h h' \<longleftrightarrow> mset (ch_items h') = mset (ch_items h) \<and> ch_byID h' = ch_byID h \<and>
     map without_idx (ch_mem h') = map without_idx (ch_mem h)"

lemma same_items_refl [simp]: "same_items h h"
  by (simp add: same_items_def)

lemma same_items_trans: "same_items h h' \<Longrightarrow> same_items h' h'' \<Longrightarrow> same_items h h''"
  by (simp add: same_items_def)

lemma same_itemsD:
  assumes "same_items h h'"
  shows "set (ch_items h') = set (ch_items h)" "length (ch_items h') = length (ch_items h)"
    "ch_byID h' = ch_byID h" "length (ch_mem h') = length (ch_mem h)"
proof -
  have m: "mset (ch_items h') = mset (ch_items h)" "ch_byID h' = ch_byID h"
    "map without_idx (ch_mem h') = map without_idx (ch_mem h)"
    using assms by (simp_all add: same_items_def)
  show "set (ch_items h') = set (ch_items h)" using m(1) by (rule mset_eq_setD)
  show "length (ch_items h') = length (ch_items h)" using m(1) by (rule mset_eq_length)
  show "ch_byID h' = ch_byID h" by (rule m(2))
  show "length (ch_mem h') = length (ch_mem h)" using m(3) by (rule map_eq_imp_length_eq)
qed

lemma without_idx_sel: "without_idx c = without_idx d \<Longrightarrow> ci_id c = ci_id d \<and> ci_at c = ci_at d \<and> ci_q c = ci_q d"
  by (cases c; cases d) (simp add: without_idx_def)

lemma same_items_data:
  assumes "same_items h h'" and "p < length (ch_mem h)"
  shows "ci_id (ch_mem h' ! p) = ci_id (ch_mem h ! p) \<and> ci_at (ch_mem h' ! p) = ci_at (ch_mem h ! p) \<and>
         ci_q (ch_mem h' ! p) = ci_q (ch_mem h ! p)"
proof -
  have "map without_idx (ch_mem h') ! p = map without_idx (ch_mem h) ! p"
    using assms(1) by (simp add: same_items_def)
  then show ?thesis
    using assms(2) same_itemsD(4)[OF assms(1)] by (intro without_idx_sel) simp
qed

lemma set_idx_sel [simp]:
  "ch_items (set_idx p k h) = ch_items h" "ch_byID (set_idx p k h) = ch_byID h"
  "length (ch_mem (set_idx p k h)) = length (ch_mem h)"
  by (simp_all add: set_idx_def)

lemma set_idx_mem:
  "ch_mem (set_idx p k h) ! q =
     (if p = q \<and> p < length (ch_mem h) then (ch_mem h ! q)\<lparr>ci_idx := k\<rparr> else ch_mem h ! q)"
  by (cases "p < length (ch_mem h)"; cases "p = q") (simp_all add: set_idx_def list_update_beyond)

lemma map_without_set_idx [simp]: "map without_idx (ch_mem (set_idx p k h)) = map without_idx (ch_mem h)"
  by (rule nth_equalityI) (auto simp: set_idx_mem without_idx_def)

lemma mset_list_swap:
  "i < length xs \<Longrightarrow> j < length xs \<Longrightarrow> mset (xs[i := xs ! j, j := xs ! i]) = mset xs"
  by (rule mset_swap)

lemma ch_Swap_items:
  "ch_items (ch_Swap h i j) = (ch_items h)[i := ch_items h ! j, j := ch_items h ! i]"
  by (simp add: ch_Swap_def Let_def)

lemma ch_Swap_same: "i < ch_Len h \<Longrightarrow> j < ch_Len h \<Longrightarrow> same_items h (ch_Swap h i j)"
  unfolding same_items_def ch_Swap_items
  by (simp add: mset_list_swap ch_Len_def) (simp add: ch_Swap_def Let_def)

lemma ats_ch_Swap:
  assumes "i < ch_Len h" and "j < ch_Len h"
  shows "ats (ch_Swap h i j) = swapped (ats h) i j"
proof
  fix k
  have at: "ci_at (ch_mem (ch_Swap h i j) ! p) = ci_at (ch_mem h ! p)" for p
    by (simp add: ch_Swap_def Let_def set_idx_mem)
  show "ats (ch_Swap h i j) k = swapped (ats h) i j k"
    using assms by (simp add: ats_def item_at_def at ch_Swap_items swapped_def ch_Len_def nth_list_update)
qed

lemma ch_Swap_idx:
  assumes "ch_items (ch_Swap h i j) ! i < length (ch_mem h)" "ch_items (ch_Swap h i j) ! j < length (ch_mem h)"
  shows "ci_idx (ch_mem (ch_Swap h i j) ! q) =
     (if q = ch_items (ch_Swap h i j) ! j then int j
      else if q = ch_items (ch_Swap h i j) ! i then int i else ci_idx (ch_mem h ! q))"
proof -
  define g where "g = h\<lparr>ch_items := (ch_items h)[i := ch_items h ! j, j := ch_items h ! i]\<rparr>"
  have sw: "ch_Swap h i j = set_idx (ch_items g ! j) (int j) (set_idx (ch_items g ! i) (int i) g)"
    by (simp add: ch_Swap_def Let_def g_def)
  have [simp]: "ch_mem g = ch_mem h" by (simp add: g_def)
  show ?thesis
    using assms unfolding sw by (simp add: set_idx_mem)
qed

lemma ch_Swap_struct:
  assumes s: "ch_struct h" and i: "i < ch_Len h" and j: "j < ch_Len h"
  shows "ch_struct (ch_Swap h i j)"
proof -
  let ?h = "ch_Swap h i j"
  have same: "same_items h ?h" by (rule ch_Swap_same[OF i j])
  note len = same_itemsD(2)[OF same]
  have dist: "distinct (ch_items ?h)"
    using s i j by (simp add: ch_struct_def ch_Swap_items ch_Len_def distinct_swap)
  have mem: "\<forall>p \<in> set (ch_items ?h). p < length (ch_mem h)"
    using s same_itemsD(1)[OF same] by (simp add: ch_struct_def)
  have inj: "ch_items ?h ! a = ch_items ?h ! b \<longleftrightarrow> a = b" if "a < ch_Len h" "b < ch_Len h" for a b
    using that dist len by (simp add: nth_eq_iff_index_eq ch_Len_def)
  have bound: "ch_items ?h ! a < length (ch_mem h)" if "a < ch_Len h" for a
    using mem that len by (simp add: ch_Len_def)
  have "ci_idx (item_at ?h k) = int k" if k: "k < ch_Len h" for k
  proof (cases "k = i \<or> k = j")
    case True
    then show ?thesis
      unfolding item_at_def ch_Swap_idx[OF bound[OF i] bound[OF j]] using inj[OF k i] inj[OF k j] by auto
  next
    case False
    then have "ch_items ?h ! k = ch_items h ! k"
      by (simp add: ch_Swap_items)
    with False show ?thesis
      unfolding item_at_def ch_Swap_idx[OF bound[OF i] bound[OF j]] inj[OF k i] inj[OF k j]
      using s k by (simp add: ch_struct_def item_at_def ch_Len_def)
  qed
  with dist mem len same_itemsD(4)[OF same] show ?thesis
    by (simp add: ch_struct_def ch_Len_def)
qed

lemma ch_Len_same: "same_items h h' \<Longrightarrow> ch_Len h' = ch_Len h"
  by (simp add: ch_Len_def same_itemsD)

text \<open>A rearrangement of the first \<open>n\<close> positions.\<close>

definition rearranged :: "nat \<Rightarrow> claimHeap \<Rightarrow> claimHeap \<Rightarrow> bool" where
  "rearranged n h h' \<longleftrightarrow> same_items h h' \<and> ch_struct h' \<and> (\<forall>k \<ge> n. ch_items h' ! k = ch_items h ! k)"

lemma rearranged_refl: "ch_struct h \<Longrightarrow> rearranged n h h"
  by (simp add: rearranged_def)

lemma rearranged_Swap_trans:
  assumes "ch_struct h" "i < n" "j < n" "n \<le> ch_Len h" "rearranged n (ch_Swap h i j) h'"
  shows "rearranged n h h'"
  using assms ch_Swap_same[of i h j]
  by (auto simp: rearranged_def ch_Swap_items intro: same_items_trans)

lemma rearranged_trans: "rearranged n h h' \<Longrightarrow> rearranged n h' h'' \<Longrightarrow> rearranged n h h''"
  by (auto simp: rearranged_def intro: same_items_trans)

lemma heap_up_ord:
  assumes "ch_struct h" "j < n" "n \<le> ch_Len h" "ord_up (ats h) n j"
  shows "rearranged n h (heap_up h j) \<and> heap_ord (ats (heap_up h j)) n"
  using assms
proof (induction h j rule: heap_up.induct)
  case (1 h j)
  let ?i = "parent j"
  show ?case
  proof (cases "?i = j \<or> \<not> ch_Less h j ?i")
    case True
    then have "j = 0 \<or> ats h ?i \<le> ats h j"
      using parent_less[of j] by (cases "j = 0") (auto simp: ch_Less_def ats_def)
    with True "1.prems" show ?thesis
      by (subst (1 2) heap_up.simps) (auto intro: rearranged_refl ord_up_done)
  next
    case False
    then have j: "0 < j" and less: "ats h j < ats h ?i"
      by (auto simp: ch_Less_def ats_def intro: Nat.gr0I)
    have i: "?i < n" and ij: "?i < j" using j "1.prems" by linarith+
    have bounds: "?i < ch_Len h" "j < ch_Len h" using i "1.prems" by linarith+
    have "rearranged n (ch_Swap h ?i j) (heap_up (ch_Swap h ?i j) ?i) \<and>
        heap_ord (ats (heap_up (ch_Swap h ?i j) ?i)) n"
    proof (rule "1.IH"[OF refl False])
      show "ch_struct (ch_Swap h ?i j)"
        by (rule ch_Swap_struct[OF "1.prems"(1) bounds])
      show "?i < n" by (rule i)
      show "n \<le> ch_Len (ch_Swap h ?i j)"
        using "1.prems"(3) ch_Len_same[OF ch_Swap_same[OF bounds]] by simp
      show "ord_up (ats (ch_Swap h ?i j)) n ?i"
        unfolding ats_ch_Swap[OF bounds] by (rule ord_up_step[OF "1.prems"(4) j "1.prems"(2) less])
    qed
    moreover have "heap_up h j = heap_up (ch_Swap h ?i j) ?i"
      using False by (subst heap_up.simps) (simp add: Let_def)
    ultimately show ?thesis
      using rearranged_Swap_trans[OF "1.prems"(1) i "1.prems"(2,3)] by simp
  qed
qed

lemma least_child_props:
  assumes "2 * i + 1 < n" and "j = least_child h i n"
  shows "j < n" "parent j = i" "0 < j" "i < j"
  using assms by (auto simp: least_child_def)

lemma least_child_le:
  assumes "0 < k" "k < n" "parent k = i"
  shows "ats h (least_child h i n) \<le> ats h k"
proof -
  have "k = 2 * i + 1 \<or> k = 2 * i + 2"
    using assms child_cases by blast
  with assms(2) show ?thesis
    by (auto simp: least_child_def ch_Less_def ats_def)
qed

lemma heap_down_loop_ord:
  assumes "ch_struct h" "i < n" "n \<le> ch_Len h" "ord_down strict (ats h) n i"
    and "heap_down_loop h i n = (h', i')"
  shows "rearranged n h h' \<and> i \<le> i' \<and> (strict \<or> i < i' \<longrightarrow> heap_ord (ats h') n) \<and>
     (i' = i \<longrightarrow> ord_up (ats h') n i)"
  using assms
proof (induction h i n arbitrary: strict rule: heap_down_loop.induct)
  case (1 h i n)
  let ?j = "least_child h i n"
  show ?case
  proof (cases "2 * i + 1 \<ge> n \<or> \<not> ch_Less h ?j i")
    case True
    then have r: "h' = h" "i' = i"
      using "1.prems"(5) by (subst (asm) heap_down_loop.simps, simp add: Let_def split: if_splits)+
    have "ats h i \<le> ats h k" if "0 < k" "k < n" "parent k = i" for k
    proof -
      have "2 * i + 1 < n" using that by linarith
      with True least_child_le[OF that, of h] show ?thesis
        by (auto simp: ch_Less_def ats_def)
    qed
    then have "ord_up (ats h) n i" "strict \<Longrightarrow> heap_ord (ats h) n"
      using ord_down_done[OF "1.prems"(4)] by blast+
    with r "1.prems"(1) show ?thesis
      by (auto intro: rearranged_refl)
  next
    case False
    then have n: "2 * i + 1 < n" and less: "ats h ?j < ats h i"
      by (auto simp: ch_Less_def ats_def)
    note lc = least_child_props[OF n refl, of h]
    have bounds: "i < ch_Len h" "?j < ch_Len h" using "1.prems" lc(1) by linarith+
    have "heap_down_loop h i n = heap_down_loop (ch_Swap h i ?j) ?j n"
      using False by (subst heap_down_loop.simps) (simp add: Let_def)
    then have rec: "heap_down_loop (ch_Swap h i ?j) ?j n = (h', i')"
      using "1.prems"(5) by simp
    have "rearranged n (ch_Swap h i ?j) h' \<and> ?j \<le> i' \<and> (True \<or> ?j < i' \<longrightarrow> heap_ord (ats h') n) \<and>
        (i' = ?j \<longrightarrow> ord_up (ats h') n ?j)"
    proof (rule "1.IH"[OF _ refl _ _ _ _ _ rec])
      show "\<not> 2 * i + 1 \<ge> n" "\<not> \<not> ch_Less h ?j i" using False by auto
      show "ch_struct (ch_Swap h i ?j)" by (rule ch_Swap_struct[OF "1.prems"(1) bounds])
      show "?j < n" by (rule lc(1))
      show "n \<le> ch_Len (ch_Swap h i ?j)"
        using "1.prems"(3) ch_Len_same[OF ch_Swap_same[OF bounds]] by simp
      show "ord_down True (ats (ch_Swap h i ?j)) n ?j"
        unfolding ats_ch_Swap[OF bounds]
        by (rule ord_down_step[OF "1.prems"(4) lc(1,2,3) less least_child_le])
    qed
    then show ?thesis
      using lc(4) rearranged_Swap_trans[OF "1.prems"(1,2) lc(1) "1.prems"(3)] by auto
  qed
qed

lemma down_or_up_ord:
  assumes "ch_struct h" "i < n" "n \<le> ch_Len h" "ord_down False (ats h) n i"
  shows "rearranged n h (down_or_up h i n) \<and> heap_ord (ats (down_or_up h i n)) n"
proof -
  obtain h' i' where l: "heap_down_loop h i n = (h', i')"
    by fastforce
  note down = heap_down_loop_ord[OF assms l]
  show ?thesis
  proof (cases "i < i'")
    case True
    with down l show ?thesis by (simp add: down_or_up_def heap_down_def)
  next
    case False
    with down have up: "ord_up (ats h') n i" and r: "rearranged n h h'" by auto
    have "ch_struct h'" "n \<le> ch_Len h'"
      using r assms(3) ch_Len_same[of h h'] by (simp_all add: rearranged_def)
    from heap_up_ord[OF this(1) assms(2) this(2) up] r False l show ?thesis
      by (auto simp: down_or_up_def heap_down_def intro: rearranged_trans)
  qed
qed

section \<open>Well-formed heaps and their abstract view\<close>

definition byID_ok :: "claimHeap \<Rightarrow> bool" where
  "byID_ok h \<longleftrightarrow> gm_ok (ch_byID h) \<and>
     (\<forall>i p. map_of (ch_byID h) i = Some p \<longleftrightarrow> p \<in> set (ch_items h) \<and> ci_id (ch_mem h ! p) = i)"

definition wf_ch :: "claimHeap \<Rightarrow> bool" where
  "wf_ch h \<longleftrightarrow> ch_struct h \<and> byID_ok h \<and> heap_ord (ats h) (ch_Len h)"

text \<open>The arrival time of each task in the heap.\<close>

definition ch_view :: "claimHeap \<Rightarrow> string \<Rightarrow> time option" where
  "ch_view h i = map_option (\<lambda>p. ci_at (ch_mem h ! p)) (map_of (ch_byID h) i)"

text \<open>Every item of the heap belongs to queue \<open>q\<close>.\<close>

definition ch_of :: "string \<Rightarrow> claimHeap \<Rightarrow> bool" where
  "ch_of q h \<longleftrightarrow> (\<forall>p \<in> set (ch_items h). ci_q (ch_mem h ! p) = q)"

lemma byID_iff: "byID_ok h \<Longrightarrow> map_of (ch_byID h) i = Some p \<longleftrightarrow> p \<in> set (ch_items h) \<and> ci_id (ch_mem h ! p) = i"
  by (simp add: byID_ok_def)

lemma byID_inj:
  assumes "byID_ok h" "p \<in> set (ch_items h)" "q \<in> set (ch_items h)" "ci_id (ch_mem h ! p) = ci_id (ch_mem h ! q)"
  shows "p = q"
  using byID_iff[OF assms(1), of "ci_id (ch_mem h ! p)" p] byID_iff[OF assms(1), of "ci_id (ch_mem h ! p)" q] assms
  by simp

lemma ch_view_cong:
  assumes "map_of (ch_byID h') i = map_of (ch_byID h) i"
    and "\<And>p. map_of (ch_byID h) i = Some p \<Longrightarrow> ci_at (ch_mem h' ! p) = ci_at (ch_mem h ! p)"
  shows "ch_view h' i = ch_view h i"
  using assms by (cases "map_of (ch_byID h) i") (simp_all add: ch_view_def)

lemma byID_lt: "ch_struct h \<Longrightarrow> byID_ok h \<Longrightarrow> map_of (ch_byID h) i = Some p \<Longrightarrow> p < length (ch_mem h)"
  by (auto simp: ch_struct_def byID_ok_def)

lemma same_items_view:
  assumes "same_items h h'" "ch_struct h" "byID_ok h"
  shows "byID_ok h' \<and> ch_view h' = ch_view h"
proof
  have lt: "p < length (ch_mem h)" if "p \<in> set (ch_items h)" for p
    using assms(2) that by (simp add: ch_struct_def)
  note [simp] = same_itemsD(1,3)[OF assms(1)]
  show "byID_ok h'"
    using assms(3) same_items_data[OF assms(1) lt] by (auto simp: byID_ok_def)
  show "ch_view h' = ch_view h"
    using same_items_data[OF assms(1) byID_lt[OF assms(2,3)]] by (intro ext ch_view_cong) simp_all
qed

lemma ord_down_change:
  assumes "heap_ord key n" and "\<And>k. k \<noteq> i \<Longrightarrow> k < n \<Longrightarrow> key' k = key k" and "i < n"
  shows "ord_down False key' n i"
proof -
  have "link key' k" if k: "0 < k" "k < n" "parent k \<noteq> i" "k \<noteq> i" for k
    using assms(1) assms(2)[of k] assms(2)[of "parent k"] k parent_less[of k]
    by (simp add: heap_ord_def link_def)
  moreover have "hole key' n i"
    unfolding hole_def
  proof (intro allI impI)
    fix k assume k: "0 < i \<and> 0 < k \<and> k < n \<and> parent k = i"
    then have "key (parent i) \<le> key i" "key i \<le> key k"
      using assms(1,3) by (auto simp: heap_ord_def link_def)
    moreover have "key' (parent i) = key (parent i)" "key' k = key k"
      using k assms(3) parent_less[of i] parent_less[of k] by (auto intro!: assms(2))
    ultimately show "key' (parent i) \<le> key' k" by linarith
  qed
  ultimately show ?thesis by (simp add: ord_down_def)
qed

text \<open>The item that the map gives for an ID is at the position its index says.\<close>

lemma idx_position:
  assumes "ch_struct h" "byID_ok h" "map_of (ch_byID h) i = Some p"
  obtains k where "k < ch_Len h" "ch_items h ! k = p" "ci_idx (ch_mem h ! p) = int k" "ci_id (ch_mem h ! p) = i"
proof -
  have "p \<in> set (ch_items h)" and i: "ci_id (ch_mem h ! p) = i"
    using assms(2,3) by (auto simp: byID_ok_def)
  then obtain k where "k < length (ch_items h)" "ch_items h ! k = p"
    by (auto simp: in_set_conv_nth)
  with that[of k] assms(1) i show ?thesis
    by (auto simp: ch_struct_def item_at_def ch_Len_def)
qed

section \<open>New heaps and pushes\<close>

lemma wf_newClaimHeap: "wf_ch newClaimHeap \<and> ch_view newClaimHeap = Map.empty"
  by (auto simp: wf_ch_def newClaimHeap_def ch_struct_def byID_ok_def heap_ord_def ch_Len_def ch_view_def)

lemma ch_Push_sel:
  "ch_items (ch_Push h item) = ch_items h @ [length (ch_mem h)]"
  "ch_mem (ch_Push h item) = ch_mem h @ [item\<lparr>ci_idx := int (length (ch_items h))\<rparr>]"
  "ch_byID (ch_Push h item) = ch_byID h"
  by (simp_all add: ch_Push_def)

lemma ch_Push_struct: "ch_struct h \<Longrightarrow> ch_struct (ch_Push h item)"
  by (auto simp: ch_struct_def ch_Push_sel item_at_def nth_append less_Suc_eq)

lemma ch_Push_ats: "ch_struct h \<Longrightarrow> k < ch_Len h \<Longrightarrow> ats (ch_Push h item) k = ats h k"
  by (auto simp: ch_struct_def ats_def item_at_def ch_Push_sel nth_append ch_Len_def)

lemma heap_Push_ok:
  assumes "ch_struct h" and "heap_ord (ats h) (ch_Len h)"
  shows "same_items (ch_Push h item) (heap_Push h item) \<and> ch_struct (heap_Push h item) \<and>
    heap_ord (ats (heap_Push h item)) (Suc (ch_Len h))"
proof -
  let ?g = "ch_Push h item" and ?n = "ch_Len h"
  have len: "ch_Len ?g = Suc ?n"
    by (simp add: ch_Len_def ch_Push_sel)
  have "ord_up (ats ?g) (Suc ?n) ?n"
    unfolding ord_up_def
  proof
    have "link (ats ?g) k" if "0 < k" "k < ?n" for k
      using assms(2) that ch_Push_ats[OF assms(1), of k] ch_Push_ats[OF assms(1), of "parent k"] parent_less[of k]
      by (simp add: heap_ord_def link_def)
    then show "\<forall>k. 0 < k \<and> k < Suc ?n \<and> k \<noteq> ?n \<longrightarrow> link (ats ?g) k"
      by (auto simp: less_Suc_eq)
    have False if "0 < k" "k < Suc ?n" "parent k = ?n" for k
      using that by linarith
    then show "hole (ats ?g) (Suc ?n) ?n"
      by (auto simp: hole_def)
  qed
  then have "rearranged (Suc ?n) ?g (heap_up ?g ?n) \<and> heap_ord (ats (heap_up ?g ?n)) (Suc ?n)"
    by (intro heap_up_ord ch_Push_struct assms(1)) (simp_all add: len)
  then show ?thesis
    by (simp add: rearranged_def heap_Push_def Let_def len)
qed

text \<open>The items and their data after a push, in any order.\<close>

lemma pushed_data:
  assumes same: "same_items (ch_Push h item) g" and st: "ch_struct h"
  shows "set (ch_items g) = insert (length (ch_mem h)) (set (ch_items h))" "ch_byID g = ch_byID h"
    "ch_Len g = Suc (ch_Len h)" "length (ch_mem h) \<notin> set (ch_items h)"
    "ci_id (ch_mem g ! length (ch_mem h)) = ci_id item" "ci_at (ch_mem g ! length (ch_mem h)) = ci_at item"
    "ci_q (ch_mem g ! length (ch_mem h)) = ci_q item"
    "p \<in> set (ch_items h) \<Longrightarrow> ci_id (ch_mem g ! p) = ci_id (ch_mem h ! p)"
    "p \<in> set (ch_items h) \<Longrightarrow> ci_at (ch_mem g ! p) = ci_at (ch_mem h ! p)"
    "p \<in> set (ch_items h) \<Longrightarrow> ci_q (ch_mem g ! p) = ci_q (ch_mem h ! p)"
proof -
  note same_items_data[OF same, of p]
  then have old: "p < length (ch_mem h) \<Longrightarrow> ci_id (ch_mem g ! p) = ci_id (ch_mem h ! p) \<and>
      ci_at (ch_mem g ! p) = ci_at (ch_mem h ! p) \<and> ci_q (ch_mem g ! p) = ci_q (ch_mem h ! p)"
    by (simp add: ch_Push_sel nth_append)
  show "p \<in> set (ch_items h) \<Longrightarrow> ci_id (ch_mem g ! p) = ci_id (ch_mem h ! p)"
    "p \<in> set (ch_items h) \<Longrightarrow> ci_at (ch_mem g ! p) = ci_at (ch_mem h ! p)"
    "p \<in> set (ch_items h) \<Longrightarrow> ci_q (ch_mem g ! p) = ci_q (ch_mem h ! p)"
    using old st by (auto simp: ch_struct_def)
qed (use same_itemsD[OF same] st same_items_data[OF same, of "length (ch_mem h)"] in
    \<open>auto simp: ch_Push_sel ch_Len_def ch_struct_def\<close>)

lemma PushItem_ok:
  assumes wf: "wf_ch h" and fresh: "ch_view h (ci_id item) = None"
  shows "wf_ch (PushItem h item)"
    and "ch_view (PushItem h item) = (ch_view h)(ci_id item \<mapsto> ci_at item)"
    and "ch_of (ci_q item) h \<Longrightarrow> ch_of (ci_q item) (PushItem h item)"
proof -
  let ?g = "heap_Push h item" and ?p = "length (ch_mem h)"
  have st: "ch_struct h" and bi: "byID_ok h" and ord: "heap_ord (ats h) (ch_Len h)"
    using wf by (simp_all add: wf_ch_def)
  note hp = heap_Push_ok[OF st ord, of item]
  note pd = pushed_data[OF conjunct1[OF hp] st]
  have P: "PushItem h item = ?g\<lparr>ch_byID := gm_set (ci_id item) ?p (ch_byID h)\<rparr>"
    by (simp add: PushItem_def Let_def pd(2))
  have nofr: "ci_id (ch_mem h ! p) \<noteq> ci_id item" if "p \<in> set (ch_items h)" for p
    using fresh byID_iff[OF bi, of "ci_id item" p] that by (auto simp: ch_view_def)
  have "byID_ok (PushItem h item)"
    using bi pd nofr by (auto simp: P byID_ok_def)
  moreover have "ch_struct (PushItem h item)" "heap_ord (ats (PushItem h item)) (ch_Len (PushItem h item))"
    using hp pd(3) by (simp_all add: P ch_struct_def item_at_def ats_def[abs_def] ch_Len_def)
  ultimately show "wf_ch (PushItem h item)"
    by (simp add: wf_ch_def)
  show "ch_of (ci_q item) h \<Longrightarrow> ch_of (ci_q item) (PushItem h item)"
    using pd(1,7,10) by (auto simp: ch_of_def P)
  show "ch_view (PushItem h item) = (ch_view h)(ci_id item \<mapsto> ci_at item)"
  proof
    fix i
    show "ch_view (PushItem h item) i = ((ch_view h)(ci_id item \<mapsto> ci_at item)) i"
    proof (cases "i = ci_id item")
      case True
      then show ?thesis by (simp add: ch_view_def P pd(6))
    next
      case False
      then have "ch_view (PushItem h item) i = ch_view h i"
        using byID_iff[OF bi] pd(9) by (intro ch_view_cong) (auto simp: P)
      with False show ?thesis by simp
    qed
  qed
qed

section \<open>Removal\<close>

lemma ch_Pop_sel:
  "ch_items (ch_Pop h) = butlast (ch_items h)" "ch_byID (ch_Pop h) = ch_byID h"
  "length (ch_mem (ch_Pop h)) = length (ch_mem h)"
  by (simp_all add: ch_Pop_def Let_def)

lemma ch_Pop_data:
  "ci_at (ch_mem (ch_Pop h) ! p) = ci_at (ch_mem h ! p)" "ci_id (ch_mem (ch_Pop h) ! p) = ci_id (ch_mem h ! p)"
  "ci_q (ch_mem (ch_Pop h) ! p) = ci_q (ch_mem h ! p)"
  "p \<noteq> last (ch_items h) \<Longrightarrow> ch_mem (ch_Pop h) ! p = ch_mem h ! p"
  by (simp_all add: ch_Pop_def Let_def set_idx_mem)

lemma ch_Pop_struct:
  assumes "ch_struct h" "ch_items h \<noteq> []"
  shows "ch_struct (ch_Pop h)" "heap_ord (ats h) (ch_Len h - 1) \<Longrightarrow> heap_ord (ats (ch_Pop h)) (ch_Len (ch_Pop h))"
proof -
  have d: "distinct (butlast (ch_items h) @ [last (ch_items h)])"
    using assms by (simp add: ch_struct_def)
  have nl: "ch_items h ! k \<noteq> last (ch_items h)" if "k < ch_Len h - 1" for k
    using assms that by (simp add: ch_struct_def ch_Len_def last_conv_nth nth_eq_iff_index_eq)
  have nb: "ch_items (ch_Pop h) ! k = ch_items h ! k" if "k < ch_Len h - 1" for k
    using that by (simp add: ch_Pop_sel nth_butlast ch_Len_def)
  have it: "item_at (ch_Pop h) k = item_at h k" if "k < ch_Len h - 1" for k
    using nb[OF that] nl[OF that] by (simp add: item_at_def ch_Pop_data(4))
  show "ch_struct (ch_Pop h)"
    using assms d it by (auto simp: ch_struct_def ch_Pop_sel ch_Len_def distinct_butlast dest: in_set_butlastD)
  show "heap_ord (ats (ch_Pop h)) (ch_Len (ch_Pop h))" if "heap_ord (ats h) (ch_Len h - 1)"
  proof -
    have "link (ats (ch_Pop h)) k" if "0 < k" "k < ch_Len h - 1" for k
      using \<open>heap_ord (ats h) _\<close> that it[of k] it[of "parent k"] parent_less[of k]
      by (simp add: heap_ord_def link_def ats_def)
    then show ?thesis
      by (simp add: heap_ord_def ch_Len_def ch_Pop_sel)
  qed
qed

text \<open>What a removal of position \<open>k\<close> does before the last item is cut off.\<close>

lemma remove_to_last:
  assumes "ch_struct h" "heap_ord (ats h) (ch_Len h)" "k < ch_Len h" "n = ch_Len h - 1" "k \<noteq> n"
    and g: "g = down_or_up (ch_Swap h k n) k n"
  shows "same_items h g \<and> ch_struct g \<and> heap_ord (ats g) n \<and> last (ch_items g) = ch_items h ! k"
proof -
  let ?s = "ch_Swap h k n"
  have b: "k < ch_Len h" "n < ch_Len h" and kn: "k < n"
    using assms(3-5) by linarith+
  have same: "same_items h ?s" by (rule ch_Swap_same[OF b])
  have len: "ch_Len ?s = Suc n"
    using ch_Len_same[OF same] assms(3,4) by simp
  have "ord_down False (ats ?s) n k"
  proof (rule ord_down_change)
    show "heap_ord (ats h) n"
      using assms(2,4) by (auto intro: heap_ord_mono)
    show "ats ?s x = ats h x" if "x \<noteq> k" "x < n" for x
      using that by (simp add: ats_ch_Swap[OF b] swapped_def)
  qed (rule kn)
  then have r: "rearranged n ?s g" "heap_ord (ats g) n"
    using down_or_up_ord[OF ch_Swap_struct[OF assms(1) b] kn] len g by auto
  have "last (ch_items g) = ch_items g ! n"
    using len ch_Len_same[of ?s g] r(1) by (subst last_conv_nth) (auto simp: rearranged_def ch_Len_def)
  also have "\<dots> = ch_items h ! k"
    using r(1) b by (simp add: rearranged_def ch_Swap_items ch_Len_def)
  finally show ?thesis
    using r same by (auto simp: rearranged_def intro: same_items_trans)
qed

lemma heap_Remove_ok:
  assumes "ch_struct h" "heap_ord (ats h) (ch_Len h)" "k < ch_Len h"
  obtains g where "heap_Remove h (int k) = Inr (ch_Pop g)" "same_items h g" "ch_struct g"
    "heap_ord (ats g) (ch_Len g - 1)" "last (ch_items g) = ch_items h ! k" "ch_items g \<noteq> []"
proof (cases "k = ch_Len h - 1")
  case True
  then have "heap_Remove h (int k) = Inr (ch_Pop h)" and ne: "ch_items h \<noteq> []"
    using assms(3) by (auto simp: heap_Remove_def Let_def ch_Len_def)
  then show ?thesis
    using assms True last_conv_nth[OF ne] by (intro that[of h]) (auto simp: ch_Len_def intro: heap_ord_mono)
next
  case False
  let ?g = "down_or_up (ch_Swap h k (ch_Len h - 1)) k (ch_Len h - 1)"
  note r = remove_to_last[OF assms refl False refl]
  have "heap_Remove h (int k) = Inr (ch_Pop ?g)"
    using False assms(3) by (simp add: heap_Remove_def Let_def)
  moreover have "ch_items ?g \<noteq> []"
    using r same_itemsD(2)[of h ?g] assms(3) by (auto simp: ch_Len_def)
  ultimately show ?thesis
    using that[of ?g] r ch_Len_same[of h ?g] by simp
qed

lemma RemoveID_ok:
  assumes wf: "wf_ch h"
  obtains h' where "RemoveID h i = Inr (h', ch_view h i \<noteq> None)" "wf_ch h'"
    "ch_view h' = (ch_view h)(i := None)" "\<forall>q. ch_of q h \<longrightarrow> ch_of q h'"
proof (cases "map_of (ch_byID h) i")
  case None
  with wf that[of h] show ?thesis
    by (auto simp: RemoveID_def FindItem_def ch_view_def fun_eq_iff)
next
  case (Some p)
  have st: "ch_struct h" and bi: "byID_ok h" and ord: "heap_ord (ats h) (ch_Len h)"
    using wf by (simp_all add: wf_ch_def)
  obtain k where k: "k < ch_Len h" "ch_items h ! k = p" "ci_idx (ch_mem h ! p) = int k" "ci_id (ch_mem h ! p) = i"
    by (rule idx_position[OF st bi Some])
  obtain g where g: "heap_Remove h (int k) = Inr (ch_Pop g)" "same_items h g" "ch_struct g"
    "heap_ord (ats g) (ch_Len g - 1)" "last (ch_items g) = p" "ch_items g \<noteq> []"
    by (rule heap_Remove_ok[OF st ord k(1)]) (use k(2) in auto)
  let ?h = "(ch_Pop g)\<lparr>ch_byID := gm_del i (ch_byID (ch_Pop g))\<rparr>"
  have gs: "byID_ok g" "ch_view g = ch_view h"
    using same_items_view[OF g(2) st bi] by auto
  have set: "set (ch_items ?h) = set (ch_items h) - {p}"
  proof -
    have "distinct (butlast (ch_items g) @ [p])" "set (ch_items g) = insert p (set (butlast (ch_items g)))"
      using g(3,5,6) append_butlast_last_id[OF g(6)] by (simp_all add: ch_struct_def, metis Un_insert_right list.simps(15) set_append sup_bot_right list.set(1))
    then show ?thesis using same_itemsD(1)[OF g(2)] by (simp add: ch_Pop_sel)
  qed
  have R: "RemoveID h i = Inr (?h, True)"
    using Some g(1) k by (simp add: RemoveID_def FindItem_def RemoveItem_def)
  have "byID_ok ?h"
  proof -
    have pg: "p \<in> set (ch_items g)" "ci_id (ch_mem g ! p) = i" "gm_ok (ch_byID g)"
      using Some same_itemsD(3)[OF g(2)] gs(1) byID_iff[OF gs(1), of i p] by (auto simp: byID_ok_def)
    have "map_of (ch_byID ?h) j = Some q \<longleftrightarrow> q \<in> set (ch_items ?h) \<and> ci_id (ch_mem ?h ! q) = j" for j q
      using set same_itemsD(1)[OF g(2)] byID_iff[OF gs(1), of j q] byID_inj[OF gs(1) pg(1), of q] pg(1,2)
      by (auto simp: ch_Pop_sel ch_Pop_data)
    with pg(3) show ?thesis by (simp add: byID_ok_def ch_Pop_sel)
  qed
  moreover have "ch_struct ?h" "heap_ord (ats ?h) (ch_Len ?h)"
    using ch_Pop_struct[OF g(3,6)] g(4) by (simp_all add: ch_struct_def item_at_def ats_def[abs_def] ch_Len_def)
  ultimately have "wf_ch ?h" by (simp add: wf_ch_def)
  moreover have "ch_view ?h = (ch_view h)(i := None)"
    using gs(2)[symmetric] by (auto simp: ch_view_def ch_Pop_sel ch_Pop_data fun_eq_iff)
  moreover have "ci_q (ch_mem ?h ! q) = ci_q (ch_mem h ! q)" if "q \<in> set (ch_items ?h)" for q
    using same_items_data[OF g(2), of q] that set st by (auto simp: ch_Pop_data ch_struct_def)
  ultimately show ?thesis
    using that[of ?h] R Some set by (simp add: ch_view_def ch_of_def)
qed

section \<open>Changing an arrival time\<close>

lemma UpdateItem_ok:
  assumes wf: "wf_ch h" and p: "map_of (ch_byID h) i = Some p"
  obtains h' where "UpdateItem h p at = Inr h'" "wf_ch h'" "ch_view h' = (ch_view h)(i \<mapsto> at)"
    "\<forall>q. ch_of q h \<longrightarrow> ch_of q h'"
proof -
  have st: "ch_struct h" and bi: "byID_ok h" and ord: "heap_ord (ats h) (ch_Len h)"
    using wf by (simp_all add: wf_ch_def)
  obtain k where k: "k < ch_Len h" "ch_items h ! k = p" "ci_idx (ch_mem h ! p) = int k" "ci_id (ch_mem h ! p) = i"
    by (rule idx_position[OF st bi p])
  have plt: "p < length (ch_mem h)" by (rule byID_lt[OF st bi p])
  define g where "g = h\<lparr>ch_mem := (ch_mem h)[p := (ch_mem h ! p)\<lparr>ci_at := at\<rparr>]\<rparr>"
  have g: "ch_items g = ch_items h" "ch_byID g = ch_byID h" "length (ch_mem g) = length (ch_mem h)" "ch_Len g = ch_Len h"
    by (simp_all add: g_def ch_Len_def)
  have mem: "ch_mem g ! q = (if q = p then (ch_mem h ! p)\<lparr>ci_at := at\<rparr> else ch_mem h ! q)" for q
    using plt by (simp add: g_def nth_list_update)
  have gst: "ch_struct g"
    using st by (auto simp: ch_struct_def g item_at_def mem)
  have gbi: "byID_ok g"
    using bi by (auto simp: byID_ok_def g mem)
  have "ord_down False (ats g) (ch_Len g) k"
  proof (rule ord_down_change[of "ats h"])
    show "ats g x = ats h x" if "x \<noteq> k" "x < ch_Len g" for x
    proof -
      have "ch_items h ! x \<noteq> p"
        using st k(1,2) that by (auto simp: ch_struct_def ch_Len_def g nth_eq_iff_index_eq)
      then show ?thesis by (simp add: ats_def item_at_def g mem)
    qed
  qed (use ord k(1) g in auto)
  note du = down_or_up_ord[OF gst _ order.refl this]
  let ?h = "down_or_up g k (ch_Len g)"
  have same: "same_items g ?h" and wf': "ch_struct ?h" "heap_ord (ats ?h) (ch_Len ?h)"
    using du k(1) g ch_Len_same[of g ?h] by (auto simp: rearranged_def)
  have U: "UpdateItem h p at = Inr ?h"
    using k g by (simp add: UpdateItem_def FixItem_def heap_Fix_def g_def[symmetric] mem)
  note v = same_items_view[OF same gst gbi]
  have "ch_view g = (ch_view h)(i \<mapsto> at)"
  proof
    fix j
    show "ch_view g j = ((ch_view h)(i \<mapsto> at)) j"
    proof (cases "j = i")
      case True
      then show ?thesis using p by (simp add: ch_view_def g mem)
    next
      case False
      then have "ch_view g j = ch_view h j"
        using byID_iff[OF bi, of j p] k(4) by (intro ch_view_cong) (auto simp: g mem)
      with False show ?thesis by simp
    qed
  qed
  moreover have "ci_q (ch_mem ?h ! q) = ci_q (ch_mem h ! q)" if "q \<in> set (ch_items ?h)" for q
    using same_items_data[OF same, of q] that same_itemsD(1)[OF same] st g mem by (auto simp: ch_struct_def)
  ultimately show ?thesis
    using that[of ?h] U v wf' same_itemsD(1)[OF same] g(1) by (simp add: wf_ch_def ch_of_def)
qed

lemma UpdateID_ok:
  assumes wf: "wf_ch h"
  obtains h' where "UpdateID h i at = Inr (h', ch_view h i \<noteq> None)" "wf_ch h'"
    "ch_view h' = (if ch_view h i = None then ch_view h else (ch_view h)(i \<mapsto> at))"
    "\<forall>q. ch_of q h \<longrightarrow> ch_of q h'"
proof (cases "map_of (ch_byID h) i")
  case None
  with wf that[of h] show ?thesis
    by (auto simp: UpdateID_def FindItem_def ch_view_def)
next
  case (Some p)
  obtain h' where "UpdateItem h p at = Inr h'" "wf_ch h'" "ch_view h' = (ch_view h)(i \<mapsto> at)"
    "\<forall>q. ch_of q h \<longrightarrow> ch_of q h'"
    by (rule UpdateItem_ok[OF wf Some, of at])
  with Some that[of h'] show ?thesis
    by (auto simp: UpdateID_def FindItem_def ch_view_def[of h i])
qed

section \<open>Available items\<close>

text \<open>The positions below \<open>i\<close> in the tree of the first \<open>n\<close> positions, \<open>i\<close> included.\<close>

function below :: "nat \<Rightarrow> nat \<Rightarrow> nat list" where
  "below n i = (if i \<ge> n then [] else i # below n (i * 2 + 1) @ below n (i * 2 + 2))"
  by pat_completeness auto
termination
  by (relation "measure (\<lambda>(n, i). n - i)") auto

declare below.simps [simp del]

lemma shift_step:
  "(\<exists>d. x div 2 ^ d = m) \<longleftrightarrow> x = m \<or> (\<exists>d. x div 2 ^ d = 2 * m) \<or> (\<exists>d. x div 2 ^ d = 2 * m + 1)"
  for x m :: nat
proof -
  have half: "x div 2 ^ Suc d = m \<longleftrightarrow> x div 2 ^ d = 2 * m \<or> x div 2 ^ d = 2 * m + 1" for d
  proof -
    have "x div 2 ^ Suc d = x div 2 ^ d div 2"
      by (simp only: power_Suc2 div_mult2_eq)
    then show ?thesis by auto
  qed
  have "(\<exists>d. x div 2 ^ d = m) \<longleftrightarrow> x div 2 ^ 0 = m \<or> (\<exists>d. x div 2 ^ Suc d = m)"
    by (metis not0_implies_Suc)
  then show ?thesis
    unfolding half by auto
qed

lemma below_iff: "k \<in> set (below n i) \<longleftrightarrow> k < n \<and> (\<exists>d. (k + 1) div 2 ^ d = i + 1)"
proof (induction n i rule: below.induct)
  case (1 n i)
  show ?case
  proof (cases "i \<ge> n")
    case True
    have "(k + 1) div 2 ^ d \<le> k + 1" for d by (rule div_le_dividend)
    then have "k < n \<Longrightarrow> (k + 1) div 2 ^ d \<noteq> i + 1" for d using True by (metis Suc_eq_plus1 Suc_le_mono leD order.trans)
    with True show ?thesis by (subst below.simps) auto
  next
    case False
    with 1 shift_step[of "k + 1" "i + 1"] show ?thesis
      by (subst below.simps) (auto simp: algebra_simps)
  qed
qed

lemma below_ge: "k \<in> set (below n i) \<Longrightarrow> i \<le> k \<and> k < n"
  by (auto simp: below_iff) (metis Suc_le_mono div_le_dividend)

lemma shift_disjoint:
  assumes "x div 2 ^ d = 2 * m" "x div 2 ^ e = 2 * m + (1::nat)" "0 < m"
  shows False
proof -
  have mono: "x div 2 ^ (a + b) = x div 2 ^ a div 2 ^ b" for a b
    by (simp add: power_add div_mult2_eq)
  show False
  proof (cases "d \<le> e")
    case True
    then have "2 * m + 1 = 2 * m div 2 ^ (e - d)"
      using mono[of d "e - d"] assms by simp
    then show False using div_le_dividend[of "2 * m" "2 ^ (e - d)"] by linarith
  next
    case False
    then obtain b where b: "d = e + Suc b" by (metis add_Suc_right less_imp_Suc_add not_le)
    have "2 * m = (2 * m + 1) div 2 ^ Suc b"
      using mono[of e "Suc b"] assms b by simp
    also have "\<dots> = (2 * m + 1) div 2 div 2 ^ b"
      by (simp only: power_Suc div_mult2_eq)
    also have "\<dots> = m div 2 ^ b" by simp
    finally have "2 * m = m div 2 ^ b" .
    moreover have "m div 2 ^ b \<le> m" by (rule div_le_dividend)
    ultimately show False using assms(3) by linarith
  qed
qed

lemma below_disjoint: "set (below n (i * 2 + 1)) \<inter> set (below n (i * 2 + 2)) = {}"
proof -
  have False if k: "k \<in> set (below n (i * 2 + 1))" "k \<in> set (below n (i * 2 + 2))" for k
  proof -
    obtain d e where "(k + 1) div 2 ^ d = 2 * (i + 1)" "(k + 1) div 2 ^ e = 2 * (i + 1) + 1"
      using k by (auto simp: below_iff mult.commute)
    then show False by (rule shift_disjoint) simp
  qed
  then show ?thesis by blast
qed

lemma below_distinct: "distinct (below n i)"
proof (induction n i rule: below.induct)
  case (1 n i)
  then show ?case
    using below_disjoint[of n i] below_ge[of i n "i * 2 + 1"] below_ge[of i n "i * 2 + 2"]
    by (subst below.simps) auto
qed

lemma shift_to_one: "0 < x \<Longrightarrow> \<exists>d. x div 2 ^ d = (1::nat)"
proof (induction x rule: less_induct)
  case (less x)
  show ?case
  proof (cases "x = 1")
    case True
    then have "x div 2 ^ 0 = 1" by simp
    then show ?thesis by blast
  next
    case False
    then obtain d where "x div 2 div 2 ^ d = 1"
      using less.IH[of "x div 2"] less.prems by auto
    then have "x div 2 ^ Suc d = 1" by (simp only: power_Suc div_mult2_eq)
    then show ?thesis by blast
  qed
qed

lemma below_root: "set (below n 0) = {..<n}"
  using shift_to_one by (auto simp: below_iff)

lemma below_child: "k \<in> set (below n i) \<longleftrightarrow> i < n \<and> (k = i \<or> k \<in> set (below n (i * 2 + 1)) \<or> k \<in> set (below n (i * 2 + 2)))"
  by (subst below.simps) auto

lemma heap_ord_below: "heap_ord key n \<Longrightarrow> k \<in> set (below n i) \<Longrightarrow> key i \<le> key k"
proof (induction n i rule: below.induct)
  case (1 n i)
  have child: "key i \<le> key k" if c: "c = i * 2 + 1 \<or> c = i * 2 + 2" and k: "k \<in> set (below n c)" for c
  proof -
    have "c < n" "parent c = i" "0 < c"
      using below_ge[OF k] c by auto
    then have "key i \<le> key c" using "1.prems"(1) by (auto simp: heap_ord_def link_def)
    moreover have "key c \<le> key k"
      using c k 1 \<open>c < n\<close> by auto
    ultimately show ?thesis by linarith
  qed
  from "1.prems"(2) child show ?case
    by (subst (asm) below_child) auto
qed

lemma count_walk_eq:
  "heap_ord (ats h) (ch_Len h) \<Longrightarrow> count_walk h now limit i c = (if c \<ge> limit then c
     else min limit (c + int (length (filter (\<lambda>k. ats h k \<le> now) (below (ch_Len h) i)))))"
proof (induction h now limit i c rule: count_walk.induct)
  case (1 h now limit i c)
  let ?av = "\<lambda>j. length (filter (\<lambda>k. ats h k \<le> now) (below (ch_Len h) j))"
  show ?case
  proof (cases "c \<ge> limit \<or> i \<ge> ch_Len h \<or> now < ats h i")
    case True
    have "?av i = 0" if "i \<ge> ch_Len h \<or> now < ats h i"
    proof -
      have "\<not> ats h k \<le> now" if "k \<in> set (below (ch_Len h) i)" for k
        using heap_ord_below[OF "1.prems" that] below_ge[OF that] \<open>i \<ge> ch_Len h \<or> now < ats h i\<close> by linarith
      then show ?thesis by simp
    qed
    with True show ?thesis
      by (subst count_walk.simps) (auto simp: ats_def ch_Len_def)
  next
    case False
    then have "?av i = Suc (?av (i * 2 + 1) + ?av (i * 2 + 2))"
      by (subst below.simps) simp
    moreover have "count_walk h now limit i c =
        count_walk h now limit (i * 2 + 2) (count_walk h now limit (i * 2 + 1) (c + 1))"
      using False by (subst count_walk.simps) (simp add: ats_def ch_Len_def)
    moreover note "1.IH"
    ultimately show ?thesis
      using False "1.prems" by (simp add: ats_def ch_Len_def min_def)
  qed
qed

text \<open>One step of the search, as one equation.\<close>

lemma randAvail_step:
  "randAvail draw h now i =
     (if i \<ge> ch_Len h then None
      else let item = (if ats h i \<le> now then Some (ch_items h ! i) else None);
               l = randAvail draw h now (i * 2 + 1); r = randAvail draw h now (i * 2 + 2)
           in if (item = None \<or> snd (draw i)) \<and> r \<noteq> None then r
              else if (item = None \<or> fst (draw i)) \<and> l \<noteq> None then l else item)"
  by (subst randAvail.simps)
     (auto simp: Let_def ch_Len_def ats_def split: option.splits)

lemma randAvail_Some:
  assumes "n = ch_Len h" "randAvail draw h now i = Some p"
  shows "\<exists>k \<in> set (below n i). ch_items h ! k = p \<and> ats h k \<le> now"
  using assms
proof (induction n i rule: below.induct)
  case (1 n i)
  then have i: "i < n"
    by (subst (asm) (3) randAvail_step) (auto split: if_splits)
  have "p = ch_items h ! i \<and> ats h i \<le> now \<or> randAvail draw h now (i * 2 + 1) = Some p \<or>
      randAvail draw h now (i * 2 + 2) = Some p"
    using "1.prems"(2) by (subst (asm) randAvail_step) (auto simp: Let_def split: if_splits)
  then show ?case
    using "1.IH" "1.prems"(1) i below_child[of _ n i] by (metis not_le)
qed

text \<open>The search never misses: below an item that is not available it always looks on.\<close>

lemma randAvail_None:
  assumes "n = ch_Len h"
  shows "randAvail draw h now i = None \<longleftrightarrow> (\<forall>k \<in> set (below n i). now < ats h k)"
proof
  show "\<forall>k \<in> set (below n i). now < ats h k \<Longrightarrow> randAvail draw h now i = None"
    using randAvail_Some[OF assms] by (metis not_Some_eq not_le)
next
  show "randAvail draw h now i = None \<Longrightarrow> \<forall>k \<in> set (below n i). now < ats h k"
    using assms
  proof (induction n i rule: below.induct)
    case (1 n i)
    show ?case
    proof (cases "i < n")
      case True
      then have "now < ats h i" "randAvail draw h now (i * 2 + 1) = None" "randAvail draw h now (i * 2 + 2) = None"
        using "1.prems" by (subst (asm) randAvail_step, auto simp: Let_def split: if_splits)+
      then show ?thesis
        using 1 True below_child[of _ n i] by (metis not_le)
    next
      case False
      then show ?thesis by (subst below.simps) simp
    qed
  qed
qed

text \<open>Every available item can be drawn: the draws that lead to it.\<close>

definition draws_to :: "nat \<Rightarrow> nat \<Rightarrow> nat \<Rightarrow> bool \<times> bool" where
  "draws_to n k j = (k \<in> set (below n (j * 2 + 1)), k \<in> set (below n (j * 2 + 2)))"

lemma randAvail_draws_to:
  assumes "n = ch_Len h" "heap_ord (ats h) n" "k \<in> set (below n i)" "ats h k \<le> now"
  shows "randAvail (draws_to n k) h now i = Some (ch_items h ! k)"
  using assms
proof (induction n i rule: below.induct)
  case (1 n i)
  have i: "i < n" and av: "ats h i \<le> now"
    using below_ge[OF "1.prems"(3)] heap_ord_below[OF "1.prems"(2,3)] "1.prems"(4) by linarith+
  consider "k = i" | "k \<in> set (below n (i * 2 + 1))" | "k \<in> set (below n (i * 2 + 2))"
    using "1.prems"(3) below_child[of k n i] by blast
  then show ?case
  proof cases
    case 1
    then have "k \<notin> set (below n (i * 2 + 1))" "k \<notin> set (below n (i * 2 + 2))"
      using below_ge[of k n] by fastforce+
    with 1 i av \<open>n = ch_Len h\<close> show ?thesis
      by (subst randAvail_step) (simp add: draws_to_def Let_def)
  next
    case 2
    moreover from this have "k \<notin> set (below n (i * 2 + 2))"
      using below_disjoint[of n i] by blast
    moreover have "randAvail (draws_to n k) h now (i * 2 + 1) = Some (ch_items h ! k)"
      using "1.IH"(1) i "1.prems" 2 by simp
    ultimately show ?thesis
      using i av "1.prems"(1) by (subst randAvail_step) (simp add: draws_to_def Let_def)
  next
    case 3
    moreover have "randAvail (draws_to n k) h now (i * 2 + 2) = Some (ch_items h ! k)"
      using "1.IH"(2) i "1.prems" 3 by simp
    ultimately show ?thesis
      using i av "1.prems"(1) by (subst randAvail_step) (simp add: draws_to_def Let_def)
  qed
qed

end
