(* ===== verification/ClaimIndex.thy ===== *)
theory ClaimIndex
  imports ClaimHeapFacts
begin

text \<open>
  What the in-memory backend relies on in its index of claimable tasks, as an interface: a finite
  map from task IDs to arrival times with a random choice among the tasks that have arrived. The
  claim heap is its implementation.
\<close>

section \<open>The interface\<close>

definition arrived :: "(string \<Rightarrow> time option) \<Rightarrow> time \<Rightarrow> string set" where
  "arrived v now = {i. \<exists>at. v i = Some at \<and> at \<le> now}"

locale claim_index =
  fixes inv :: "'h \<Rightarrow> bool" and view :: "'h \<Rightarrow> string \<Rightarrow> time option" and fresh :: 'h
    and push :: "'h \<Rightarrow> string \<Rightarrow> time \<Rightarrow> 'h"
    and remove :: "'h \<Rightarrow> string \<Rightarrow> goerror + 'h \<times> bool"
    and update :: "'h \<Rightarrow> string \<Rightarrow> time \<Rightarrow> goerror + 'h \<times> bool"
    and random :: "'d \<Rightarrow> 'h \<Rightarrow> time \<Rightarrow> string option"
    and available :: "'h \<Rightarrow> time \<Rightarrow> int \<Rightarrow> int"
  assumes fresh_ok: "inv fresh" "view fresh = Map.empty"
    and push_ok: "inv h \<Longrightarrow> view h i = None \<Longrightarrow> inv (push h i at)"
      "inv h \<Longrightarrow> view h i = None \<Longrightarrow> view (push h i at) = (view h)(i \<mapsto> at)"
    and remove_ok: "inv h \<Longrightarrow> \<exists>h'. remove h i = Inr (h', view h i \<noteq> None) \<and> inv h' \<and> view h' = (view h)(i := None)"
    and update_ok: "inv h \<Longrightarrow> \<exists>h'. update h i at = Inr (h', view h i \<noteq> None) \<and> inv h' \<and>
      view h' = (if view h i = None then view h else (view h)(i \<mapsto> at))"
    and random_None: "inv h \<Longrightarrow> random draw h now = None \<longleftrightarrow> arrived (view h) now = {}"
    and random_Some: "inv h \<Longrightarrow> random draw h now = Some i \<Longrightarrow> i \<in> arrived (view h) now"
    and random_fair: "inv h \<Longrightarrow> i \<in> arrived (view h) now \<Longrightarrow> \<exists>draw. random draw h now = Some i"
    and available_eq: "inv h \<Longrightarrow> available h now limit = max 0 (min limit (int (card (arrived (view h) now))))"
    and finite_view: "inv h \<Longrightarrow> finite (dom (view h))"
begin

lemma finite_arrived: "inv h \<Longrightarrow> finite (arrived (view h) now)"
  by (rule finite_subset[OF _ finite_view[of h]]) (auto simp: arrived_def)

text \<open>A task whose arrival moved past an instant is not drawn at that instant.\<close>

lemma claimed_not_drawn:
  assumes "inv h" "update h i at = Inr (h', ok)" "now < at"
  shows "random draw h' now \<noteq> Some i"
proof
  assume r: "random draw h' now = Some i"
  obtain h'' where "update h i at = Inr (h'', view h i \<noteq> None)" and h': "inv h''"
    "view h'' = (if view h i = None then view h else (view h)(i \<mapsto> at))"
    using update_ok[OF assms(1), of i at] by blast
  with assms(2) have "h'' = h'" by simp
  with r h' random_Some[of h' draw now i] assms(3) show False
    by (auto simp: arrived_def split: if_splits)
qed

text \<open>Claiming a drawn task leaves one fewer to draw.\<close>

lemma claim_takes_one:
  assumes "inv h" "random draw h now = Some i" "update h i at = Inr (h', ok)" "now < at"
  shows "inv h' \<and> ok \<and> arrived (view h') now = arrived (view h) now - {i} \<and>
    Suc (card (arrived (view h') now)) = card (arrived (view h) now)"
proof -
  have i: "i \<in> arrived (view h) now"
    using assms by (intro random_Some)
  obtain h'' where h'': "update h i at = Inr (h'', view h i \<noteq> None)" "inv h''"
    "view h'' = (if view h i = None then view h else (view h)(i \<mapsto> at))"
    using update_ok[OF assms(1), of i at] by blast
  with assms(3) i have v: "h'' = h'" "ok" "view h' = (view h)(i \<mapsto> at)"
    by (auto simp: arrived_def)
  then have a: "arrived (view h') now = arrived (view h) now - {i}"
    using assms(4) by (auto simp: arrived_def)
  have "Suc (card (arrived (view h) now - {i})) = card (arrived (view h) now)"
    using i finite_arrived[OF assms(1)] by (rule card_Suc_Diff1[rotated])
  with v h'' a show ?thesis by simp
qed

text \<open>Counting with a limit says whether something is ready.\<close>

lemma available_pos: "inv h \<Longrightarrow> 0 < limit \<Longrightarrow> 0 < available h now limit \<longleftrightarrow> random draw h now \<noteq> None"
  using finite_arrived[of h now] by (auto simp: available_eq random_None card_gt_0_iff)

end

section \<open>The claim heap implements it\<close>

lemma view_position:
  assumes "wf_ch h"
  shows "ch_view h i = Some at \<longleftrightarrow> (\<exists>k < ch_Len h. ci_id (item_at h k) = i \<and> ats h k = at)"
proof -
  have bi: "byID_ok h" using assms by (simp add: wf_ch_def)
  have "ch_view h i = Some at \<longleftrightarrow> (\<exists>p \<in> set (ch_items h). ci_id (ch_mem h ! p) = i \<and> ci_at (ch_mem h ! p) = at)"
    by (auto simp: ch_view_def byID_iff[OF bi])
  moreover have "set (ch_items h) = (\<lambda>k. ch_items h ! k) ` {..<ch_Len h}"
    by (auto simp: set_conv_nth ch_Len_def)
  ultimately show ?thesis
    by (simp add: item_at_def ats_def lessThan_def Bex_def)
qed

lemma arrived_positions:
  assumes "wf_ch h"
  shows "arrived (ch_view h) now = (\<lambda>k. ci_id (item_at h k)) ` {k. k < ch_Len h \<and> ats h k \<le> now}"
  by (auto simp: arrived_def view_position[OF assms])

lemma position_ids_inj:
  assumes "wf_ch h"
  shows "inj_on (\<lambda>k. ci_id (item_at h k)) {..<ch_Len h}"
proof (rule inj_onI)
  fix j k assume jk: "j \<in> {..<ch_Len h}" "k \<in> {..<ch_Len h}" "ci_id (item_at h j) = ci_id (item_at h k)"
  then have "ch_items h ! j = ch_items h ! k"
    using assms by (intro byID_inj[of h]) (auto simp: wf_ch_def item_at_def ch_Len_def)
  with jk assms show "j = k"
    by (simp add: wf_ch_def ch_struct_def ch_Len_def nth_eq_iff_index_eq)
qed

lemma CountAvailable_eq:
  assumes "wf_ch h"
  shows "CountAvailable h now limit = max 0 (min limit (int (card (arrived (ch_view h) now))))"
proof -
  let ?K = "{k. k < ch_Len h \<and> ats h k \<le> now}"
  have "length (filter (\<lambda>k. ats h k \<le> now) (below (ch_Len h) 0)) = card ?K"
    using below_distinct[of "ch_Len h" 0] below_root[of "ch_Len h"]
    by (subst distinct_card[symmetric]) (auto intro: arg_cong[where f = card])
  moreover have "card (arrived (ch_view h) now) = card ?K"
    unfolding arrived_positions[OF assms] using position_ids_inj[OF assms]
    by (intro card_image) (auto intro: inj_on_subset)
  moreover have "heap_ord (ats h) (ch_Len h)"
    using assms by (simp add: wf_ch_def)
  ultimately show ?thesis
    by (simp add: CountAvailable_def count_walk_eq)
qed

lemma RandomAvailable_None:
  assumes "wf_ch h"
  shows "RandomAvailable draw h now = None \<longleftrightarrow> arrived (ch_view h) now = {}"
  unfolding RandomAvailable_def randAvail_None[OF refl] below_root arrived_positions[OF assms]
  by (auto simp: not_le)

lemma RandomAvailable_Some:
  assumes "wf_ch h" "RandomAvailable draw h now = Some p"
  shows "p \<in> set (ch_items h) \<and> map_of (ch_byID h) (ci_id (ch_mem h ! p)) = Some p \<and>
    ci_id (ch_mem h ! p) \<in> arrived (ch_view h) now"
proof -
  obtain k where k: "k < ch_Len h" "ch_items h ! k = p" "ats h k \<le> now"
    using randAvail_Some[OF refl, of draw h now 0 p] assms(2) by (auto simp: RandomAvailable_def below_root)
  then have "p \<in> set (ch_items h)"
    by (auto simp: ch_Len_def)
  with assms(1) k show ?thesis
    by (auto simp: arrived_positions[OF assms(1)] item_at_def byID_iff wf_ch_def image_iff)
qed

lemma RandomAvailable_fair:
  assumes "wf_ch h" "i \<in> arrived (ch_view h) now"
  shows "\<exists>draw p. RandomAvailable draw h now = Some p \<and> ci_id (ch_mem h ! p) = i"
proof -
  obtain k where "k < ch_Len h" "ats h k \<le> now" "i = ci_id (item_at h k)"
    using assms by (auto simp: arrived_positions)
  then have "RandomAvailable (draws_to (ch_Len h) k) h now = Some (ch_items h ! k)"
    using assms(1) by (auto simp: RandomAvailable_def wf_ch_def below_root intro!: randAvail_draws_to)
  with \<open>i = _\<close> show ?thesis by (auto simp: item_at_def)
qed

interpretation heap_index: claim_index wf_ch ch_view newClaimHeap
  "\<lambda>h i at. PushItem h (newItem q i at)" RemoveID UpdateID
  "\<lambda>draw h now. map_option (\<lambda>p. ci_id (ch_mem h ! p)) (RandomAvailable draw h now)" CountAvailable
  for q
proof (unfold_locales, goal_cases)
  case (3 h i at)
  then show ?case using PushItem_ok(1)[of h "newItem q i at"] by (simp add: newItem_def)
next
  case (4 h i at)
  then show ?case using PushItem_ok(2)[of h "newItem q i at"] by (simp add: newItem_def)
next
  case (5 h i)
  then show ?case by (rule RemoveID_ok[of h i]) auto
next
  case (6 h i at)
  then show ?case by (rule UpdateID_ok[of h i at]) auto
next
  case (8 h draw now i)
  then show ?case using RandomAvailable_Some by fastforce
next
  case (11 h)
  have "dom (ch_view h) = dom (map_of (ch_byID h))"
    by (auto simp: ch_view_def dom_def)
  then show ?case by (simp add: finite_dom_map_of)
qed (use RandomAvailable_fair in \<open>auto simp: wf_newClaimHeap RandomAvailable_None CountAvailable_eq\<close>)

section \<open>Properties of the claim heap\<close>

text \<open>
  C13: on a well-formed heap no operation panics, every one leaves a well-formed heap (indices, map
  and heap order included), and its effect on the map from task IDs to arrival times is
  exactly that of an insertion, a removal or an update.
\<close>

theorem claimHeap_refines_map:
  assumes "wf_ch h"
  shows "(ch_view h i = None \<longrightarrow> wf_ch (PushItem h (newItem q i at)) \<and>
       ch_view (PushItem h (newItem q i at)) = (ch_view h)(i \<mapsto> at)) \<and>
     (\<exists>h'. RemoveID h i = Inr (h', ch_view h i \<noteq> None) \<and> wf_ch h' \<and> ch_view h' = (ch_view h)(i := None)) \<and>
     (\<exists>h'. UpdateID h i at = Inr (h', ch_view h i \<noteq> None) \<and> wf_ch h' \<and>
       ch_view h' = (if ch_view h i = None then ch_view h else (ch_view h)(i \<mapsto> at)))"
  using heap_index.push_ok heap_index.remove_ok heap_index.update_ok assms by blast

definition ex_heap :: claimHeap where
  "ex_heap = PushItem (PushItem newClaimHeap (newItem ''q'' ''a'' 5)) (newItem ''q'' ''b'' 3)"

lemma ex_heap_ok: "wf_ch ex_heap \<and> ch_view ex_heap = [''a'' \<mapsto> 5, ''b'' \<mapsto> 3]"
proof -
  let ?h = "PushItem newClaimHeap (newItem ''q'' ''a'' 5)"
  have "wf_ch ?h \<and> ch_view ?h = [''a'' \<mapsto> 5]"
    using heap_index.push_ok[of newClaimHeap "''a''" "''q''" 5] heap_index.fresh_ok by simp
  then show ?thesis
    using heap_index.push_ok[of ?h "''b''" "''q''" 3] by (simp add: ex_heap_def)
qed

theorem claimHeap_refines_map_witness:
  "\<exists>h'. RemoveID ex_heap ''b'' = Inr (h', True) \<and> ch_view h' = [''a'' \<mapsto> 5]"
  using claimHeap_refines_map[of ex_heap "''b''" "''q''" 7] ex_heap_ok by auto

text \<open>
  C14: RandomAvailable returns nil exactly when no task has arrived, whatever the random draws; it
  only returns tasks of the heap that have arrived; and every task that has arrived is
  returned for some draws, so that none is starved by the shape of the heap.
\<close>

theorem RandomAvailable_spec:
  assumes "wf_ch h"
  shows "(RandomAvailable draw h now = None \<longleftrightarrow> arrived (ch_view h) now = {}) \<and>
     (\<forall>p. RandomAvailable draw h now = Some p \<longrightarrow>
        FindItem h (ci_id (ch_mem h ! p)) = Some p \<and> ci_id (ch_mem h ! p) \<in> arrived (ch_view h) now) \<and>
     (\<forall>i \<in> arrived (ch_view h) now. \<exists>draw p. RandomAvailable draw h now = Some p \<and> ci_id (ch_mem h ! p) = i)"
  using RandomAvailable_None RandomAvailable_Some RandomAvailable_fair assms
  by (simp add: FindItem_def)

theorem RandomAvailable_spec_witness:
  "\<exists>draw p. RandomAvailable draw ex_heap 6 = Some p \<and> ci_id (ch_mem ex_heap ! p) = ''a''"
  using RandomAvailable_spec[of ex_heap "\<lambda>_. (True, True)" 6] ex_heap_ok by (simp add: arrived_def)

text \<open>
  C15: CountAvailable counts exactly the tasks that have arrived, up to the limit (and nothing for
  a limit of zero or less), although it skips every subtree whose root has not arrived.
\<close>

theorem CountAvailable_spec:
  assumes "wf_ch h"
  shows "CountAvailable h now limit = max 0 (min limit (int (card (arrived (ch_view h) now))))"
  using assms by (rule heap_index.available_eq)

theorem CountAvailable_spec_witness: "CountAvailable ex_heap 6 10 = 2 \<and> CountAvailable ex_heap 4 10 = 1"
proof -
  have "arrived [''a'' \<mapsto> 5, ''b'' \<mapsto> 3] 6 = {''a'', ''b''}" "arrived [''a'' \<mapsto> 5, ''b'' \<mapsto> 3] 4 = {''b''}"
    by (auto simp: arrived_def)
  then show ?thesis
    using CountAvailable_spec[of ex_heap 6 10] CountAvailable_spec[of ex_heap 4 10] ex_heap_ok by simp
qed

end
