(* ===== verification/TaskQueue.thy ===== *)
theory TaskQueue
  imports TaskOps
begin

text \<open>
  The store of the tasks of one queue in the in-memory backend: taskqueue.go. The sync.Map is a
  map; the order in which Range visits it is left to the caller of the model.
\<close>

record taskQueue =
  ts_name :: string
  ts_size :: int
  ts_byID :: "(string, Task) gomap"

definition newTaskQueue :: "string \<Rightarrow> taskQueue" where
  "newTaskQueue name = \<lparr>ts_name = name, ts_size = 0, ts_byID = []\<rparr>"

definition ts_Set :: "string \<Rightarrow> Task \<Rightarrow> taskQueue \<Rightarrow> taskQueue" where
  "ts_Set i val s =
     (let loaded = (map_of (ts_byID s) i \<noteq> None);
          s = s\<lparr>ts_byID := gm_set i val (ts_byID s)\<rparr>
      in if \<not> loaded then s\<lparr>ts_size := ts_size s + 1\<rparr> else s)"

definition ts_Delete :: "string \<Rightarrow> taskQueue \<Rightarrow> taskQueue" where
  "ts_Delete i s =
     (let loaded = (map_of (ts_byID s) i \<noteq> None);
          s = s\<lparr>ts_byID := gm_del i (ts_byID s)\<rparr>
      in if loaded then s\<lparr>ts_size := ts_size s - 1\<rparr> else s)"

definition ts_Get :: "string \<Rightarrow> taskQueue \<Rightarrow> Task option" where
  "ts_Get i s = map_of (ts_byID s) i"

definition ts_Has :: "string \<Rightarrow> taskQueue \<Rightarrow> bool" where
  "ts_Has i s \<longleftrightarrow> ts_Get i s \<noteq> None"

definition ts_Update :: "string \<Rightarrow> (Task \<Rightarrow> Task) \<Rightarrow> taskQueue \<Rightarrow> goerror + taskQueue" where
  "ts_Update i f s =
     (case map_of (ts_byID s) i of
        None \<Rightarrow> Inl (PlainError ''task ID not found'')
      | Some t \<Rightarrow> Inr (s\<lparr>ts_byID := gm_set i (f t) (ts_byID s)\<rparr>))"

text \<open>Len of a nil store is 0.\<close>

definition ts_Len :: "taskQueue option \<Rightarrow> int" where
  "ts_Len so = (case so of None \<Rightarrow> 0 | Some s \<Rightarrow> ts_size s)"

definition ts_Range :: "((string, Task) gomap \<Rightarrow> (string, Task) gomap) \<Rightarrow> taskQueue \<Rightarrow> Task list" where
  "ts_Range ord s = map snd (ord (ts_byID s))"

section \<open>The size counter\<close>

text \<open>The store counts its tasks, and every task is stored under its own ID.\<close>

definition ts_ok :: "taskQueue \<Rightarrow> bool" where
  "ts_ok s \<longleftrightarrow> gm_ok (ts_byID s) \<and> ts_size s = int (length (ts_byID s)) \<and>
     (\<forall>i t. map_of (ts_byID s) i = Some t \<longrightarrow> t_ID t = i)"

lemma ts_ok_new [simp]: "ts_ok (newTaskQueue q)"
  by (simp add: ts_ok_def newTaskQueue_def)

lemma ts_sel [simp]:
  "ts_byID (ts_Set i v s) = gm_set i v (ts_byID s)" "ts_name (ts_Set i v s) = ts_name s"
  "ts_byID (ts_Delete i s) = gm_del i (ts_byID s)" "ts_name (ts_Delete i s) = ts_name s"
  "ts_byID (newTaskQueue q) = []" "ts_name (newTaskQueue q) = q" "ts_size (newTaskQueue q) = 0"
  by (simp_all add: ts_Set_def ts_Delete_def newTaskQueue_def Let_def)

lemma ts_ok_Set [wf_intros]: "ts_ok s \<Longrightarrow> t_ID v = i \<Longrightarrow> ts_ok (ts_Set i v s)"
  by (auto simp: ts_ok_def ts_Set_def Let_def length_gm_set split: if_splits option.splits)

lemma ts_ok_Delete [wf_intros]: "ts_ok s \<Longrightarrow> ts_ok (ts_Delete i s)"
proof -
  assume s: "ts_ok s"
  have "0 < length (ts_byID s)" if "map_of (ts_byID s) i \<noteq> None"
    using that by (cases "ts_byID s") auto
  with s show ?thesis
    by (auto simp: ts_ok_def ts_Delete_def Let_def length_gm_del of_nat_diff Suc_le_eq
        split: if_splits option.splits)
qed

lemma ts_ok_Update [wf_intros]:
  "ts_ok s \<Longrightarrow> ts_Update i f s = Inr s' \<Longrightarrow> (\<And>t. t_ID (f t) = t_ID t) \<Longrightarrow> ts_ok s'"
  by (auto simp: ts_ok_def ts_Update_def length_gm_set split: if_splits option.splits)

lemma ts_empty: "ts_ok s \<Longrightarrow> ts_size s = 0 \<longleftrightarrow> map_of (ts_byID s) = Map.empty"
  by (auto simp: ts_ok_def)

end
