(* ===== verification/DocNamespace.thy ===== *)
theory DocNamespace
  imports Docset
begin

text \<open>
  The docs and doc set locks of one namespace in the in-memory backend: docnamespace.go. The
  ordered trees are those of github.com/google/btree, which is a parameter: a record of the
  operations the code calls, and \<open>btree_ok\<close> states their documented laws.
\<close>

section \<open>Trees\<close>

text \<open>
  The iterators call a function on the items in ascending order until it returns false; here they
  return the items in that order, and the caller stops early.
\<close>

record ('t, 'e) btree =
  bt_new :: 't
  bt_ReplaceOrInsert :: "'e \<Rightarrow> 't \<Rightarrow> 't"
  bt_Delete :: "'e \<Rightarrow> 't \<Rightarrow> 't"
  bt_Get :: "'e \<Rightarrow> 't \<Rightarrow> 'e option"
  bt_Len :: "'t \<Rightarrow> int"
  bt_Ascend :: "'t \<Rightarrow> 'e list"
  bt_AscendGreaterOrEqual :: "'e \<Rightarrow> 't \<Rightarrow> 'e list"
  bt_AscendRange :: "'e \<Rightarrow> 'e \<Rightarrow> 't \<Rightarrow> 'e list"

text \<open>Items that neither is less than the other are the same item of a tree.\<close>

definition equiv_by :: "('e \<Rightarrow> 'e \<Rightarrow> bool) \<Rightarrow> 'e \<Rightarrow> 'e \<Rightarrow> bool" where
  "equiv_by lt a b \<longleftrightarrow> \<not> lt a b \<and> \<not> lt b a"

definition btree_ok :: "('e \<Rightarrow> 'e \<Rightarrow> bool) \<Rightarrow> ('t, 'e) btree \<Rightarrow> ('t \<Rightarrow> bool) \<Rightarrow> bool" where
  "btree_ok lt T ok \<longleftrightarrow>
     ok (bt_new T) \<and> bt_Ascend T (bt_new T) = [] \<and>
     (\<forall>t e. ok t \<longrightarrow> ok (bt_ReplaceOrInsert T e t) \<and> ok (bt_Delete T e t) \<and>
        set (bt_Ascend T (bt_ReplaceOrInsert T e t)) = insert e {x \<in> set (bt_Ascend T t). \<not> equiv_by lt e x} \<and>
        set (bt_Ascend T (bt_Delete T e t)) = {x \<in> set (bt_Ascend T t). \<not> equiv_by lt e x}) \<and>
     (\<forall>t. ok t \<longrightarrow> sorted_wrt lt (bt_Ascend T t) \<and> bt_Len T t = int (length (bt_Ascend T t))) \<and>
     (\<forall>t e x. ok t \<longrightarrow> (bt_Get T e t = Some x \<longleftrightarrow> x \<in> set (bt_Ascend T t) \<and> equiv_by lt e x)) \<and>
     (\<forall>t p. ok t \<longrightarrow> bt_AscendGreaterOrEqual T p t = filter (\<lambda>x. \<not> lt x p) (bt_Ascend T t)) \<and>
     (\<forall>t p q. ok t \<longrightarrow> bt_AscendRange T p q t = filter (\<lambda>x. \<not> lt x p \<and> lt x q) (bt_Ascend T t))"

section \<open>Docs and locks of a namespace\<close>

record docKeyEntry =
  dk_Key :: string
  dk_Secondary :: string
  dk_ID :: string
  dk_Doc :: "Doc option"   \<comment> \<open>nil in a pivot\<close>

definition docKeyLess :: "docKeyEntry \<Rightarrow> docKeyEntry \<Rightarrow> bool" where
  "docKeyLess a b =
     (if dk_Key a \<noteq> dk_Key b then dk_Key a < dk_Key b
      else if dk_Secondary a \<noteq> dk_Secondary b then dk_Secondary a < dk_Secondary b
      else dk_ID a < dk_ID b)"

definition entryFor :: "Doc \<Rightarrow> docKeyEntry" where
  "entryFor d = \<lparr>dk_Key = d_Key d, dk_Secondary = d_SecondaryKey d, dk_ID = d_ID d, dk_Doc = Some d\<rparr>"

definition pivot :: "string \<Rightarrow> docKeyEntry" where
  "pivot key = \<lparr>dk_Key = key, dk_Secondary = [], dk_ID = [], dk_Doc = None\<rparr>"

record lockEntry =
  le_Key :: string
  le_Lock :: Lock

definition lockKeyLess :: "lockEntry \<Rightarrow> lockEntry \<Rightarrow> bool" where
  "lockKeyLess a b \<longleftrightarrow> le_Key a < le_Key b"

text \<open>The two tree implementations a namespace uses.\<close>

record ('dt, 'lt) trees =
  tr_docs :: "('dt, docKeyEntry) btree"
  tr_locks :: "('lt, lockEntry) btree"

record ('dt, 'lt) docNamespace =
  dn_name :: string
  dn_byID :: "(string, Doc) gomap"
  dn_byKey :: 'dt
  dn_locks :: 'lt

definition newDocNamespace :: "('dt, 'lt) trees \<Rightarrow> string \<Rightarrow> ('dt, 'lt) docNamespace" where
  "newDocNamespace T name =
     \<lparr>dn_name = name, dn_byID = [], dn_byKey = bt_new (tr_docs T), dn_locks = bt_new (tr_locks T)\<rparr>"

definition dn_Set :: "('dt, 'lt) trees \<Rightarrow> string \<Rightarrow> Doc \<Rightarrow> ('dt, 'lt) docNamespace \<Rightarrow> ('dt, 'lt) docNamespace" where
  "dn_Set T i doc s =
     (let t = (case map_of (dn_byID s) i of
                 Some old \<Rightarrow> bt_Delete (tr_docs T) (entryFor old) (dn_byKey s) | None \<Rightarrow> dn_byKey s)
      in s\<lparr>dn_byKey := bt_ReplaceOrInsert (tr_docs T) (entryFor doc) t, dn_byID := gm_set i doc (dn_byID s)\<rparr>)"

definition dn_Delete :: "('dt, 'lt) trees \<Rightarrow> string \<Rightarrow> ('dt, 'lt) docNamespace \<Rightarrow> ('dt, 'lt) docNamespace" where
  "dn_Delete T i s =
     (case map_of (dn_byID s) i of
        Some old \<Rightarrow> s\<lparr>dn_byKey := bt_Delete (tr_docs T) (entryFor old) (dn_byKey s),
                      dn_byID := gm_del i (dn_byID s)\<rparr>
      | None \<Rightarrow> s)"

definition dn_Update :: "('dt, 'lt) trees \<Rightarrow> string \<Rightarrow> (Doc \<Rightarrow> Doc) \<Rightarrow> ('dt, 'lt) docNamespace \<Rightarrow>
    goerror + ('dt, 'lt) docNamespace" where
  "dn_Update T i f s =
     (case map_of (dn_byID s) i of
        None \<Rightarrow> Inl (PlainError ''doc ID not found'')
      | Some old \<Rightarrow>
          Inr (s\<lparr>dn_byKey := bt_ReplaceOrInsert (tr_docs T) (entryFor (f old))
                    (bt_Delete (tr_docs T) (entryFor old) (dn_byKey s)),
                 dn_byID := gm_set i (f old) (dn_byID s)\<rparr>))"

definition dn_Len :: "('dt, 'lt) trees \<Rightarrow> ('dt, 'lt) docNamespace \<Rightarrow> int" where
  "dn_Len T s = int (length (dn_byID s)) + bt_Len (tr_locks T) (dn_locks s)"

definition lockIn :: "('dt, 'lt) trees \<Rightarrow> 'lt \<Rightarrow> string \<Rightarrow> Lock" where
  "lockIn T locks key =
     (case bt_Get (tr_locks T) \<lparr>le_Key = key, le_Lock = Absent\<rparr> locks of
        Some e \<Rightarrow> le_Lock e | None \<Rightarrow> Absent)"

definition dn_Lock :: "('dt, 'lt) trees \<Rightarrow> string \<Rightarrow> ('dt, 'lt) docNamespace \<Rightarrow> Lock" where
  "dn_Lock T key s = lockIn T (dn_locks s) key"

definition SetLock :: "('dt, 'lt) trees \<Rightarrow> string \<Rightarrow> Lock \<Rightarrow> ('dt, 'lt) docNamespace \<Rightarrow> ('dt, 'lt) docNamespace" where
  "SetLock T key l s =
     s\<lparr>dn_locks := bt_ReplaceOrInsert (tr_locks T) \<lparr>le_Key = key, le_Lock = l\<rparr> (dn_locks s)\<rparr>"

definition DeleteLock :: "('dt, 'lt) trees \<Rightarrow> string \<Rightarrow> ('dt, 'lt) docNamespace \<Rightarrow> ('dt, 'lt) docNamespace" where
  "DeleteLock T key s =
     s\<lparr>dn_locks := bt_Delete (tr_locks T) \<lparr>le_Key = key, le_Lock = Absent\<rparr> (dn_locks s)\<rparr>"

text \<open>AscendFrom: the docs from a pivot on, in order. Every stored entry carries its doc.\<close>

definition AscendFrom :: "('dt, 'lt) trees \<Rightarrow> docKeyEntry \<Rightarrow> ('dt, 'lt) docNamespace \<Rightarrow> Doc list" where
  "AscendFrom T p s =
     List.map_filter dk_Doc (bt_AscendGreaterOrEqual (tr_docs T) p (dn_byKey s))"

definition Occupant :: "('dt, 'lt) trees \<Rightarrow> string \<Rightarrow> string \<Rightarrow> ('dt, 'lt) docNamespace \<Rightarrow> Doc option" where
  "Occupant T key secondary s =
     find (\<lambda>d. d_SecondaryKey d = secondary) (takeWhile (\<lambda>d. d_Key d = key) (AscendFrom T (pivot key) s))"

definition Members :: "('dt, 'lt) trees \<Rightarrow> string \<Rightarrow> ('dt, 'lt) docNamespace \<Rightarrow> Doc list" where
  "Members T key s = takeWhile (\<lambda>d. d_Key d = key) (AscendFrom T (pivot key) s)"

definition dn_Get :: "string \<Rightarrow> ('dt, 'lt) docNamespace \<Rightarrow> Doc option" where
  "dn_Get i s = map_of (dn_byID s) i"

text \<open>Clone copies a tree; the copies here are values.\<close>

definition dn_snapshot :: "('dt, 'lt) docNamespace \<Rightarrow> 'dt \<times> 'lt" where
  "dn_snapshot s = (dn_byKey s, dn_locks s)"

end
