(* ===== verification/Validate.thy ===== *)
theory Validate
  imports DependencyFacts
begin

text \<open>
  The checks every backend applies to a request before touching storage: package validate.
\<close>

definition MaxIDBytes :: nat where
  "MaxIDBytes = 64"

definition MaxClaimantBytes :: nat where
  "MaxClaimantBytes = 512"

definition MaxNamespaceBytes :: nat where
  "MaxNamespaceBytes = 1024"

definition MaxDocKeyBytes :: nat where
  "MaxDocKeyBytes = 256"

definition check :: "string \<Rightarrow> string \<Rightarrow> nat \<Rightarrow> goerror option" where
  "check what s limit =
     (if length s > limit then Some (InvalidArgumentError (TooLong what (length s) limit)) else None)"

definition validate_Claimant :: "string \<Rightarrow> goerror option" where
  "validate_Claimant claimant = check ''claimant'' claimant MaxClaimantBytes"

definition validate_Claim :: "ClaimQuery \<Rightarrow> goerror option" where
  "validate_Claim cq = err_or (ClaimQuery_Validate cq) (validate_Claimant (cq_Claimant cq))"

definition validate_DocClaim :: "DocClaim \<Rightarrow> goerror option" where
  "validate_DocClaim cq =
     err_or (DocClaim_Validate cq)
    (err_or (if dc_Duration cq = 0 \<and> dc_TaskToMatch cq = None
             then Some (InvalidArgumentError DocClaimNoLease) else None)
    (err_or (first_some (\<lambda>s. err_or (check ''doc namespace'' (dsc_Namespace s) MaxNamespaceBytes)
                                (check ''doc key'' (dsc_Key s) MaxDocKeyBytes)) (dc_Sets cq))
       (validate_Claimant (dc_Claimant cq))))"

definition validate_doc :: "string \<Rightarrow> string \<Rightarrow> string \<Rightarrow> string \<Rightarrow> goerror option" where
  "validate_doc ns i key secondaryKey =
     err_or (check ''doc namespace'' ns MaxNamespaceBytes)
    (err_or (check ''doc id'' i MaxIDBytes)
    (err_or (check ''doc key'' key MaxDocKeyBytes)
       (check ''doc secondary key'' secondaryKey MaxDocKeyBytes)))"

definition names_both :: "string \<Rightarrow> DocID \<Rightarrow> goerror option" where
  "names_both what r =
     (if did_ID r \<noteq> [] \<and> did_Key r \<noteq> [] then Some (InvalidArgumentError (DocRefBoth what r)) else None)"

definition docRefs :: "Modification \<Rightarrow> goerror option" where
  "docRefs md =
     err_or (first_some (\<lambda>d. err_or (names_both ''doc delete'' d)
               (if IsSetRef d then Some (InvalidArgumentError (DocDeleteNamesSet d)) else None))
             (m_DocDeletes md))
       (first_some (names_both ''doc depend'') (m_DocDepends md))"

fun docPlaces_loop :: "(string \<times> string \<times> string) list \<Rightarrow> DocData list \<Rightarrow> goerror option" where
  "docPlaces_loop seen [] = None"
| "docPlaces_loop seen (d # ds) =
     (let p = (dd_Namespace d, dd_Key d, dd_SecondaryKey d) in
      if p \<in> set seen
      then Some (InvalidArgumentError (DocPlaceTwice (dd_SecondaryKey d) (dd_Key d) (dd_Namespace d)))
      else docPlaces_loop (p # seen) ds)"

definition docPlaces :: "Modification \<Rightarrow> goerror option" where
  "docPlaces md = docPlaces_loop [] (m_DocInserts md)"

definition lengths :: "Modification \<Rightarrow> goerror option" where
  "lengths md =
     (let writes = length (m_Inserts md) + length (m_Changes md) + length (m_DocInserts md) +
        length (m_DocChanges md) + length (m_Arrives md) + length (m_DocArrives md)
      in err_or (if writes > 0 then validate_Claimant (m_Claimant md) else None)
        (err_or (first_some (\<lambda>t. check ''task id'' (td_ID t) MaxIDBytes) (m_Inserts md))
        (err_or (first_some (\<lambda>t. check ''task id'' (t_ID t) MaxIDBytes) (m_Changes md))
        (err_or (first_some (\<lambda>d. validate_doc (dd_Namespace d) (dd_ID d) (dd_Key d) (dd_SecondaryKey d))
                   (m_DocInserts md))
           (first_some (\<lambda>d. validate_doc (d_Namespace d) (d_ID d) (d_Key d) (d_SecondaryKey d))
              (m_DocChanges md))))))"

definition validate_Modification :: "Modification \<Rightarrow> goerror option" where
  "validate_Modification md =
     err_or (EnsureModifyKeys md)
    (err_or (docRefs md)
    (err_or (docPlaces md)
    (err_or (case AllDependencies md of Inl e \<Rightarrow> Some e | Inr _ \<Rightarrow> None)
       (lengths md))))"

section \<open>What a valid request satisfies\<close>

lemma check_None [simp]: "check what s limit = None \<longleftrightarrow> length s \<le> limit"
  by (auto simp: check_def)

lemma docPlaces_loop_None:
  "docPlaces_loop seen ds = None \<longleftrightarrow>
     distinct (map (\<lambda>d. (dd_Namespace d, dd_Key d, dd_SecondaryKey d)) ds) \<and>
     set (map (\<lambda>d. (dd_Namespace d, dd_Key d, dd_SecondaryKey d)) ds) \<inter> set seen = {}"
  by (induction ds arbitrary: seen) (auto simp: Let_def)

lemma check_doc_arrives_None:
  "check_doc_arrives seen as = None \<longleftrightarrow>
     (\<forall>a \<in> set as. IsSetRef (da_DocID a) \<and> did_Namespace (da_DocID a) \<noteq> []) \<and>
     distinct (map (\<lambda>a. (did_Namespace (da_DocID a), did_Key (da_DocID a))) as) \<and>
     set (map (\<lambda>a. (did_Namespace (da_DocID a), did_Key (da_DocID a))) as) \<inter> set seen = {}"
  by (induction as arbitrary: seen) (auto simp: Let_def)

lemma EnsureModifyKeys_None:
  "EnsureModifyKeys m = None \<longleftrightarrow> \<not> IsEmpty m \<and>
     (\<forall>t \<in> set (m_Inserts m). td_Queue t \<noteq> []) \<and> (\<forall>t \<in> set (m_Changes m). t_Queue t \<noteq> []) \<and>
     (\<forall>a \<in> set (m_Arrives m). tid_Queue (ta_TaskID a) \<noteq> []) \<and>
     (\<forall>d \<in> set (m_DocInserts m). dd_Namespace d \<noteq> []) \<and>
     (\<forall>a \<in> set (m_DocArrives m). IsSetRef (da_DocID a) \<and> did_Namespace (da_DocID a) \<noteq> []) \<and>
     distinct (map (\<lambda>a. (did_Namespace (da_DocID a), did_Key (da_DocID a))) (m_DocArrives m))"
  by (simp add: EnsureModifyKeys_def check_doc_arrives_None)

text \<open>The facts about tasks that the in-memory backend relies on.\<close>

lemma validate_Modification_tasks:
  assumes "validate_Modification md = None"
  shows "distinct (task_op_ids md)" "\<forall>t \<in> set (m_Inserts md). td_Queue t \<noteq> []"
    "\<forall>t \<in> set (m_Changes md). t_Queue t \<noteq> []" "\<forall>a \<in> set (m_Arrives md). tid_Queue (ta_TaskID a) \<noteq> []"
  using assms AllDependencies_post[of md]
  by (auto simp: validate_Modification_def EnsureModifyKeys_None deps_post_def split: sum.splits)

lemma validate_Modification_docs:
  assumes "validate_Modification md = None"
  shows "distinct (doc_op_keys md)" "\<forall>d \<in> set (m_DocInserts md). dd_Namespace d \<noteq> []"
    "\<forall>a \<in> set (m_DocArrives md). did_Namespace (da_DocID a) \<noteq> []"
    "distinct (map (\<lambda>d. (dd_Namespace d, dd_Key d, dd_SecondaryKey d)) (m_DocInserts md))"
  using assms AllDependencies_post[of md]
  by (auto simp: validate_Modification_def EnsureModifyKeys_None docPlaces_def docPlaces_loop_None
      deps_post_def split: sum.splits)

end
