(* ===== verification/EQMem.thy ===== *)
theory EQMem
  imports ClaimIndex TaskQueue DocNamespace Validate
begin

text \<open>
  The in-memory backend: eqmem.go. The state is that of the EQMem struct. A queue's lock
  structure and the map of queues share one task store, which is kept in the map of queues; the
  Go mutexes are not values of the model, whose operations are the sections of code that run
  while they are held, composed in the order in which the code runs them. The journal is the
  list of the entries appended to it, and notifications are part of the result of an operation.
\<close>

section \<open>State\<close>

record qLock =
  ql_queue :: string
  ql_heap :: claimHeap
  ql_dependents :: int

record journalLock =
  jl_Namespace :: string
  jl_Key :: string
  jl_Version :: int32
  jl_Claimant :: string
  jl_At :: time
  jl_Deleted :: bool

record journalEntry =
  je_Modification :: Modification
  je_DocLocks :: "journalLock list option"   \<comment> \<open>nil when the entry has no locks\<close>

record ('dt, 'lt) EQMem =
  em_queues :: "(string, taskQueue) gomap"
  em_namespaces :: "(string, ('dt, 'lt) docNamespace) gomap"
  em_qByID :: "(string, string) gomap"
  em_locks :: "(string, qLock) gomap"           \<comment> \<open>locksSuperUnsafe\<close>
  em_nslocks :: "(string, int) gomap"           \<comment> \<open>locksSuperUnsafeNS: the dependents of each\<close>
  em_journal :: "journalEntry list option"
  em_staleDocReplays :: int
  em_staleDocExamples :: "DocID list"

definition new_EQMem :: "bool \<Rightarrow> ('dt, 'lt) EQMem" where
  "new_EQMem journaled = \<lparr>em_queues = [], em_namespaces = [], em_qByID = [], em_locks = [], em_nslocks = [],
     em_journal = (if journaled then Some [] else None), em_staleDocReplays = 0, em_staleDocExamples = []\<rparr>"

section \<open>Queue and namespace locks\<close>

definition set_queue :: "string \<Rightarrow> taskQueue \<Rightarrow> ('dt, 'lt) EQMem \<Rightarrow> ('dt, 'lt) EQMem" where
  "set_queue q ts s = s\<lparr>em_queues := gm_set q ts (em_queues s)\<rparr>"

definition set_lock :: "string \<Rightarrow> qLock \<Rightarrow> ('dt, 'lt) EQMem \<Rightarrow> ('dt, 'lt) EQMem" where
  "set_lock q ql s = s\<lparr>em_locks := gm_set q ql (em_locks s)\<rparr>"

definition lockForQueueUnsafe :: "string \<Rightarrow> ('dt, 'lt) EQMem \<Rightarrow> goerror + ('dt, 'lt) EQMem" where
  "lockForQueueUnsafe q s =
     (case (map_of (em_queues s) q, map_of (em_locks s) q) of
        (Some ts, Some ql) \<Rightarrow> Inr (set_lock q (ql\<lparr>ql_dependents := ql_dependents ql + 1\<rparr>) s)
      | (None, None) \<Rightarrow>
          Inr (set_lock q \<lparr>ql_queue = q, ql_heap = newClaimHeap, ql_dependents = 1\<rparr>
                 (set_queue q (newTaskQueue q) s))
      | _ \<Rightarrow> Inl (Panic ''queue tasks and lock structures out of step''))"

definition locksForQueues :: "string list \<Rightarrow> ('dt, 'lt) EQMem \<Rightarrow> goerror + ('dt, 'lt) EQMem" where
  "locksForQueues qs s = foldE lockForQueueUnsafe qs s"

text \<open>lockQueues returns the locked queues, sorted.\<close>

definition lockQueues :: "string list \<Rightarrow> ('dt, 'lt) EQMem \<Rightarrow> goerror + string list \<times> ('dt, 'lt) EQMem" where
  "lockQueues qs s =
     (if qs = [] then Inr ([], s)
      else let qs = sort qs in sbind (locksForQueues qs s) (\<lambda>s'. Inr (qs, s')))"

text \<open>The body of the loop in the function lockQueues returns, for one lock.\<close>

definition unlockQueue :: "string \<Rightarrow> ('dt, 'lt) EQMem \<Rightarrow> ('dt, 'lt) EQMem" where
  "unlockQueue q s =
     (case map_of (em_locks s) q of
        None \<Rightarrow> s
      | Some ql \<Rightarrow>
          let ql = ql\<lparr>ql_dependents := ql_dependents ql - 1\<rparr>; s = set_lock q ql s in
          if ql_dependents ql = 0 \<and> ts_Len (map_of (em_queues s) (ql_queue ql)) = 0
          then s\<lparr>em_queues := gm_del (ql_queue ql) (em_queues s), em_locks := gm_del (ql_queue ql) (em_locks s)\<rparr>
          else s)"

definition unlockQueues :: "string list \<Rightarrow> ('dt, 'lt) EQMem \<Rightarrow> ('dt, 'lt) EQMem" where
  "unlockQueues qls s = fold unlockQueue (rev qls) s"

definition lockForNamespaceUnsafe :: "('dt, 'lt) trees \<Rightarrow> string \<Rightarrow> ('dt, 'lt) EQMem \<Rightarrow> goerror + ('dt, 'lt) EQMem" where
  "lockForNamespaceUnsafe T n s =
     (case (map_of (em_namespaces s) n, map_of (em_nslocks s) n) of
        (Some _, Some d) \<Rightarrow> Inr (s\<lparr>em_nslocks := gm_set n (d + 1) (em_nslocks s)\<rparr>)
      | (None, None) \<Rightarrow> Inr (s\<lparr>em_namespaces := gm_set n (newDocNamespace T n) (em_namespaces s),
                                em_nslocks := gm_set n 1 (em_nslocks s)\<rparr>)
      | _ \<Rightarrow> Inl (Panic ''namespace storage and lock structures out of step''))"

definition lockNamespaces :: "('dt, 'lt) trees \<Rightarrow> string list \<Rightarrow> ('dt, 'lt) EQMem \<Rightarrow>
    goerror + string list \<times> ('dt, 'lt) EQMem" where
  "lockNamespaces T ns s =
     (if ns = [] then Inr ([], s)
      else let ns = sort ns in sbind (foldE (lockForNamespaceUnsafe T) ns s) (\<lambda>s'. Inr (ns, s')))"

definition unlockNamespace :: "('dt, 'lt) trees \<Rightarrow> string \<Rightarrow> ('dt, 'lt) EQMem \<Rightarrow> ('dt, 'lt) EQMem" where
  "unlockNamespace T n s =
     (case map_of (em_nslocks s) n of
        None \<Rightarrow> s
      | Some d \<Rightarrow>
          let s = s\<lparr>em_nslocks := gm_set n (d - 1) (em_nslocks s)\<rparr> in
          if d - 1 = 0 \<and> (case map_of (em_namespaces s) n of None \<Rightarrow> 0 | Some nss \<Rightarrow> dn_Len T nss) = 0
          then s\<lparr>em_namespaces := gm_del n (em_namespaces s), em_nslocks := gm_del n (em_nslocks s)\<rparr>
          else s)"

definition unlockNamespaces :: "('dt, 'lt) trees \<Rightarrow> string list \<Rightarrow> ('dt, 'lt) EQMem \<Rightarrow> ('dt, 'lt) EQMem" where
  "unlockNamespaces T nls s = fold (unlockNamespace T) (rev nls) s"

definition holder :: "string \<Rightarrow> time \<Rightarrow> time \<Rightarrow> string" where
  "holder claimant at now = (if at > now then claimant else [])"

section \<open>The journal\<close>

definition newJournalLock :: "DSet \<Rightarrow> Lock \<Rightarrow> journalLock" where
  "newJournalLock g l = \<lparr>jl_Namespace = g_Namespace g, jl_Key = g_Key g, jl_Version = lk_Version l,
     jl_Claimant = lk_Claimant l, jl_At = lk_At l, jl_Deleted = False\<rparr>"

definition journalLocksOf :: "(DSet, Lock) gomap \<Rightarrow> journalLock list" where
  "journalLocksOf locks =
     sort_key (\<lambda>j. jl_Namespace j) (sort_key (\<lambda>j. jl_Key j) (map (\<lambda>(g, l). newJournalLock g l) locks))"

text \<open>
  An entry without a modification gets an empty one. An entry is marshaled as JSON: the durations
  \<open>by\<close> and the set of claim counts to reset are not exported, and a list of locks that is
  empty is left out.
\<close>

definition strip_mod :: "Modification \<Rightarrow> Modification" where
  "strip_mod m = m\<lparr>m_resetClaims := {},
     m_Inserts := map (\<lambda>t. t\<lparr>td_by := 0\<rparr>) (m_Inserts m), m_Changes := map (\<lambda>t. t\<lparr>t_by := 0\<rparr>) (m_Changes m),
     m_DocInserts := map (\<lambda>d. d\<lparr>dd_by := 0\<rparr>) (m_DocInserts m), m_DocChanges := map (\<lambda>d. d\<lparr>d_by := 0\<rparr>) (m_DocChanges m)\<rparr>"

definition appendJournal :: "Modification option \<Rightarrow> journalLock list \<Rightarrow> ('dt, 'lt) EQMem \<Rightarrow> ('dt, 'lt) EQMem" where
  "appendJournal mo jls s =
     (case em_journal s of
        None \<Rightarrow> s
      | Some j \<Rightarrow>
          s\<lparr>em_journal := Some (j @ [\<lparr>je_Modification = strip_mod (case mo of None \<Rightarrow> zero_Modification | Some m \<Rightarrow> m),
                                      je_DocLocks = (if jls = [] then None else Some jls)\<rparr>])\<rparr>)"

section \<open>Claims\<close>

definition queueLen :: "string \<Rightarrow> ('dt, 'lt) EQMem \<Rightarrow> int" where
  "queueLen q s = ts_Len (map_of (em_queues s) q)"

text \<open>The function that mustTryClaimOne passes to Update.\<close>

definition claim_task :: "ClaimQuery \<Rightarrow> time \<Rightarrow> Task \<Rightarrow> Task" where
  "claim_task cq now t = (Task_Copy t)\<lparr>t_At := now + cq_Duration cq, t_Claimant := cq_Claimant cq,
     t_Version := t_Version t + 1, t_Claims := t_Claims t + 1, t_Modified := now\<rparr>"

definition claim_journal :: "ClaimQuery \<Rightarrow> Task \<Rightarrow> Modification" where
  "claim_journal cq t = zero_Modification\<lparr>m_Claimant := cq_Claimant cq,
     m_Changes := [(Task_Copy t)\<lparr>t_FromQueue := t_Queue t\<rparr>]\<rparr>"

text \<open>The part of mustTryClaimOne that runs under the queue's lock.\<close>

definition claim_locked :: "(nat \<Rightarrow> bool \<times> bool) \<Rightarrow> time \<Rightarrow> string \<Rightarrow> ClaimQuery \<Rightarrow> ('dt, 'lt) EQMem \<Rightarrow>
    goerror + Task option \<times> ('dt, 'lt) EQMem" where
  "claim_locked draw now q cq s =
     (case (map_of (em_locks s) q, map_of (em_queues s) q) of
        (Some ql, Some ts) \<Rightarrow>
          (case RandomAvailable draw (ql_heap ql) now of
             None \<Rightarrow> Inr (None, s)
           | Some item \<Rightarrow>
               sbind (UpdateItem (ql_heap ql) item (now + cq_Duration cq)) (\<lambda>h.
               case ts_Update (ci_id (ch_mem (ql_heap ql) ! item)) (claim_task cq now) ts of
                 Inl _ \<Rightarrow> Inl (Panic ''could not update task after claim started'')
               | Inr ts' \<Rightarrow>
                   let found = map_of (ts_byID ts') (ci_id (ch_mem (ql_heap ql) ! item));
                       s = set_queue q ts' (set_lock q (ql\<lparr>ql_heap := h\<rparr>) s)
                   in Inr (found, case found of
                        None \<Rightarrow> s | Some t \<Rightarrow> appendJournal (Some (claim_journal cq t)) [] s)))
      | _ \<Rightarrow> Inl (Panic ''nil queue lock''))"

definition mustTryClaimOne :: "(nat \<Rightarrow> bool \<times> bool) \<Rightarrow> time \<Rightarrow> string \<Rightarrow> ClaimQuery \<Rightarrow> ('dt, 'lt) EQMem \<Rightarrow>
    goerror + Task option \<times> ('dt, 'lt) EQMem" where
  "mustTryClaimOne draw now q cq s =
     (if queueLen q s = 0 then Inr (None, s)
      else sbind (lockQueues [q] s) (\<lambda>(qls, s).
           sbind (claim_locked draw now q cq s) (\<lambda>(found, s). Inr (found, unlockQueues qls s))))"

text \<open>
  The order of the queues after the shuffle, the instant each is tried at, and the draws made
  there are arguments.
\<close>

fun try_queues :: "(string \<Rightarrow> nat \<Rightarrow> bool \<times> bool) \<Rightarrow> (string \<Rightarrow> time) \<Rightarrow> ClaimQuery \<Rightarrow> string list \<Rightarrow>
    ('dt, 'lt) EQMem \<Rightarrow> goerror + Task option \<times> ('dt, 'lt) EQMem" where
  "try_queues draw now cq [] s = Inr (None, s)"
| "try_queues draw now cq (q # qs) s =
     sbind (mustTryClaimOne (draw q) (now q) q cq s) (\<lambda>(found, s).
       case found of Some t \<Rightarrow> Inr (Some t, s) | None \<Rightarrow> try_queues draw now cq qs s)"

definition TryClaim :: "(string list \<Rightarrow> string list) \<Rightarrow> (string \<Rightarrow> nat \<Rightarrow> bool \<times> bool) \<Rightarrow> (string \<Rightarrow> time) \<Rightarrow>
    ClaimQuery \<Rightarrow> ('dt, 'lt) EQMem \<Rightarrow> goerror + Task option \<times> ('dt, 'lt) EQMem" where
  "TryClaim shuffle draw now cq s =
     (case validate_Claim cq of
        Some e \<Rightarrow> Inl e
      | None \<Rightarrow> try_queues draw now cq (shuffle (cq_Queues cq)) s)"

section \<open>Preparing a modification\<close>

definition queue_of :: "(string, string) gomap \<Rightarrow> string \<Rightarrow> string" where
  "queue_of qByID i = (case map_of qByID i of Some q \<Rightarrow> q | None \<Rightarrow> [])"

definition ensureModQueues :: "Modification \<Rightarrow> (string, string) gomap \<Rightarrow> DependencyError option" where
  "ensureModQueues md qByID =
     (let bad = (\<lambda>q i. q = [] \<or> q \<noteq> queue_of qByID i);
          e = zero_DependencyError\<lparr>
            de_Deletes := map (\<lambda>d. NewTaskID (tid_ID d) (tid_Version d) (tid_Queue d))
              (filter (\<lambda>d. bad (tid_Queue d) (tid_ID d)) (m_Deletes md)),
            de_Depends := map (\<lambda>d. NewTaskID (tid_ID d) (tid_Version d) (tid_Queue d))
              (filter (\<lambda>d. bad (tid_Queue d) (tid_ID d)) (m_Depends md)),
            de_Changes := map (\<lambda>c. NewTaskID (t_ID c) (t_Version c) (t_FromQueue c))
              (filter (\<lambda>c. bad (t_FromQueue c) (t_ID c)) (m_Changes md))\<rparr>
      in if de_Deletes e \<noteq> [] \<or> de_Depends e \<noteq> [] \<or> de_Changes e \<noteq> []
         then Some (e\<lparr>de_Message := QueueMismatchMsg\<rparr>) else None)"

definition backfill :: "(string, string) gomap \<Rightarrow> Modification \<Rightarrow> Modification" where
  "backfill qByID md = md\<lparr>
     m_Changes := map (\<lambda>c. if t_FromQueue c = [] then c\<lparr>t_FromQueue := queue_of qByID (t_ID c)\<rparr> else c) (m_Changes md),
     m_Deletes := map (\<lambda>d. if tid_Queue d = [] then d\<lparr>tid_Queue := queue_of qByID (tid_ID d)\<rparr> else d) (m_Deletes md),
     m_Depends := map (\<lambda>d. if tid_Queue d = [] then d\<lparr>tid_Queue := queue_of qByID (tid_ID d)\<rparr> else d) (m_Depends md)\<rparr>"

record prep =
  pr_mod :: Modification
  pr_queues :: "string list"
  pr_namespaces :: "string list"
  pr_misplaced :: "(string, string) gomap"
  pr_queueDeps :: "DependencyError option"

definition misplaced_inserts :: "(string, string) gomap \<Rightarrow> TaskData list \<Rightarrow> (string, string) gomap" where
  "misplaced_inserts qByID inss =
     fold (\<lambda>ins m. if td_ID ins \<noteq> [] then
             (case map_of qByID (td_ID ins) of
                Some q \<Rightarrow> if q \<noteq> td_Queue ins then gm_set (td_ID ins) q m else m
              | None \<Rightarrow> m) else m) inss []"

definition mod_queues :: "Modification \<Rightarrow> (string, string) gomap \<Rightarrow> string list" where
  "mod_queues md misplaced =
     filter (\<lambda>q. q \<noteq> []) (remdups (map snd misplaced @ map td_Queue (m_Inserts md) @
       map t_FromQueue (m_Changes md) @ map t_Queue (m_Changes md) @ map tid_Queue (m_Deletes md) @
       map tid_Queue (m_Depends md) @ map (\<lambda>a. tid_Queue (ta_TaskID a)) (m_Arrives md)))"

definition mod_namespaces :: "Modification \<Rightarrow> string list" where
  "mod_namespaces md =
     filter (\<lambda>n. n \<noteq> []) (remdups (map dd_Namespace (m_DocInserts md) @ map d_Namespace (m_DocChanges md) @
       map did_Namespace (m_DocDeletes md) @ map did_Namespace (m_DocDepends md) @
       map (\<lambda>a. did_Namespace (da_DocID a)) (m_DocArrives md)))"

definition modPrep :: "Modification \<Rightarrow> bool \<Rightarrow> ('dt, 'lt) EQMem \<Rightarrow> prep" where
  "modPrep md replay s =
     (let md = (if replay then backfill (em_qByID s) md else md);
          misplaced = misplaced_inserts (em_qByID s) (m_Inserts md)
      in \<lparr>pr_mod = md, pr_queues = mod_queues md misplaced, pr_namespaces = mod_namespaces md,
          pr_misplaced = misplaced, pr_queueDeps = ensureModQueues md (em_qByID s)\<rparr>)"

end
