(* ===== verification/EQMemModify.thy ===== *)
theory EQMemModify
  imports EQMem
begin

text \<open>
  Modify of the in-memory backend: modifyImpl of eqmem.go, in the order in which it runs. Between
  modPrep, which runs under the global lock, and the rest, which runs under the locks of the
  queues and namespaces named, other operations may run; the two parts are separate functions.
\<close>

section \<open>Finding what is stored\<close>

definition lookup_task :: "string list \<Rightarrow> ('dt, 'lt) EQMem \<Rightarrow> string \<Rightarrow> string \<Rightarrow> Task option" where
  "lookup_task byQ s q i =
     (if q = [] \<or> i = [] \<or> q \<notin> set byQ then None
      else case map_of (em_queues s) q of Some ts \<Rightarrow> ts_Get i ts | None \<Rightarrow> None)"

definition addFound :: "string list \<Rightarrow> ('dt, 'lt) EQMem \<Rightarrow> string \<times> string \<Rightarrow> (string, Task) gomap \<Rightarrow> (string, Task) gomap" where
  "addFound byQ s = (\<lambda>(q, i) found.
     case lookup_task byQ s q i of Some t \<Rightarrow> gm_set (t_ID t) t found | None \<Rightarrow> found)"

definition task_refs :: "Modification \<Rightarrow> (string, string) gomap \<Rightarrow> (string \<times> string) list" where
  "task_refs md misplaced =
     map (\<lambda>d. (tid_Queue d, tid_ID d)) (m_Deletes md) @ map (\<lambda>d. (tid_Queue d, tid_ID d)) (m_Depends md) @
     map (\<lambda>c. (t_FromQueue c, t_ID c)) (m_Changes md) @
     map (\<lambda>a. (tid_Queue (ta_TaskID a), tid_ID (ta_TaskID a))) (m_Arrives md) @
     concat (map (\<lambda>t. (td_Queue t, td_ID t) #
       (case map_of misplaced (td_ID t) of Some q \<Rightarrow> [(q, td_ID t)] | None \<Rightarrow> [])) (m_Inserts md))"

definition found_tasks :: "string list \<Rightarrow> ('dt, 'lt) EQMem \<Rightarrow> Modification \<Rightarrow> (string, string) gomap \<Rightarrow> (string, Task) gomap" where
  "found_tasks byQ s md misplaced = fold (addFound byQ s) (task_refs md misplaced) []"

definition lookup_doc :: "string list \<Rightarrow> ('dt, 'lt) EQMem \<Rightarrow> string \<Rightarrow> string \<Rightarrow> Doc option" where
  "lookup_doc byNS s ns i =
     (if ns = [] \<or> i = [] \<or> ns \<notin> set byNS then None
      else case map_of (em_namespaces s) ns of Some nss \<Rightarrow> dn_Get i nss | None \<Rightarrow> None)"

definition addFoundDoc :: "string list \<Rightarrow> ('dt, 'lt) EQMem \<Rightarrow> string \<times> string \<Rightarrow> (string, Doc) gomap \<Rightarrow> (string, Doc) gomap" where
  "addFoundDoc byNS s = (\<lambda>(ns, i) found.
     case lookup_doc byNS s ns i of Some d \<Rightarrow> gm_set (DocKey ns (d_ID d)) d found | None \<Rightarrow> found)"

definition found_docs :: "string list \<Rightarrow> ('dt, 'lt) EQMem \<Rightarrow> Modification \<Rightarrow> (string, Doc) gomap" where
  "found_docs byNS s md = fold (addFoundDoc byNS s)
     (map (\<lambda>d. (did_Namespace d, did_ID d)) (m_DocDeletes md) @ map (\<lambda>d. (did_Namespace d, did_ID d)) (m_DocDepends md) @
      map (\<lambda>c. (d_Namespace c, d_ID c)) (m_DocChanges md) @ map (\<lambda>t. (dd_Namespace t, dd_ID t)) (m_DocInserts md)) []"

section \<open>Checking\<close>

text \<open>
  The callbacks that modifyImpl passes to docset read the locked namespaces; on a set of a
  namespace that is not locked they dereference a nil pointer. Evaluate reads the lock of every
  set that Sets lists.
\<close>

definition lock_of :: "('dt, 'lt) trees \<Rightarrow> ('dt, 'lt) EQMem \<Rightarrow> DSet \<Rightarrow> Lock" where
  "lock_of T s g = (case map_of (em_namespaces s) (g_Namespace g) of
     Some nss \<Rightarrow> dn_Lock T (g_Key g) nss | None \<Rightarrow> Absent)"

definition occupant_of :: "('dt, 'lt) trees \<Rightarrow> ('dt, 'lt) EQMem \<Rightarrow> DSet \<Rightarrow> string \<Rightarrow> Doc option" where
  "occupant_of T s g secondary = (case map_of (em_namespaces s) (g_Namespace g) of
     Some nss \<Rightarrow> Occupant T (g_Key g) secondary nss | None \<Rightarrow> None)"

definition member_of :: "(string, Doc) gomap \<Rightarrow> string \<Rightarrow> string \<Rightarrow> Doc option" where
  "member_of foundDocs ns i = map_of foundDocs (DocKey ns i)"

definition empty_plan :: Plan where
  "empty_plan = \<lparr>pl_Err = None, pl_Locks = [], pl_Arrived = []\<rparr>"

definition eval_docs :: "('dt, 'lt) trees \<Rightarrow> string list \<Rightarrow> time \<Rightarrow> Modification \<Rightarrow> (string, Doc) gomap \<Rightarrow>
    ('dt, 'lt) EQMem \<Rightarrow> goerror + Plan" where
  "eval_docs T byNS now md foundDocs s =
     (if list_ex (\<lambda>g. g_Namespace g \<notin> set byNS) (docset_Sets md (member_of foundDocs))
      then Inl (Panic ''nil namespace lock'')
      else Inr (Evaluate md now (member_of foundDocs) (occupant_of T s) (lock_of T s)))"

definition task_part :: "Modification \<Rightarrow> Modification" where
  "task_part md = md\<lparr>m_DocInserts := [], m_DocChanges := [], m_DocDeletes := [], m_DocDepends := []\<rparr>"

definition check_deps :: "bool \<Rightarrow> DependencyError option \<Rightarrow> DependencyError option \<Rightarrow> goerror option" where
  "check_deps replay queueDeps foundDeps =
     (if queueDeps = None \<and> foundDeps = None then None
      else case Merge queueDeps foundDeps of
             None \<Rightarrow> None
           | Some e \<Rightarrow> if \<not> replay \<or> \<not> OnlyClaims e then Some (DependencyErr e) else None)"

section \<open>Changing the tasks of locked queues\<close>

type_synonym steps = "(string \<times> string option) list"   \<comment> \<open>what to do to qByID under the global lock\<close>

text \<open>
  The functions queueUnsafeInsertTask, queueUnsafeDeleteID and queueUnsafeUpdateTask on the lock
  structure of queue \<open>q\<close>. A queue that is not locked has a nil lock structure.
\<close>

definition with_queue :: "string list \<Rightarrow> string \<Rightarrow> ('dt, 'lt) EQMem \<Rightarrow>
    (qLock \<Rightarrow> taskQueue \<Rightarrow> goerror + claimHeap \<times> taskQueue) \<Rightarrow> goerror + ('dt, 'lt) EQMem" where
  "with_queue byQ q s f =
     (if q \<notin> set byQ then Inl (Panic ''nil queue lock'')
      else case (map_of (em_locks s) q, map_of (em_queues s) q) of
        (Some ql, Some ts) \<Rightarrow>
          sbind (f ql ts) (\<lambda>(h, ts'). Inr (set_queue q ts' (set_lock q (ql\<lparr>ql_heap := h\<rparr>) s)))
      | _ \<Rightarrow> Inl (Panic ''nil queue lock''))"

definition queueUnsafeInsertTask :: "Task \<Rightarrow> qLock \<Rightarrow> taskQueue \<Rightarrow> goerror + claimHeap \<times> taskQueue" where
  "queueUnsafeInsertTask t ql ts =
     Inr (PushItem (ql_heap ql) (newItem (ql_queue ql) (t_ID t) (t_At t)), ts_Set (t_ID t) t ts)"

definition queueUnsafeDeleteID :: "string \<Rightarrow> qLock \<Rightarrow> taskQueue \<Rightarrow> goerror + claimHeap \<times> taskQueue" where
  "queueUnsafeDeleteID i ql ts = sbind (RemoveID (ql_heap ql) i) (\<lambda>(h, _). Inr (h, ts_Delete i ts))"

definition queueUnsafeUpdateTask :: "Task \<Rightarrow> qLock \<Rightarrow> taskQueue \<Rightarrow> goerror + claimHeap \<times> taskQueue" where
  "queueUnsafeUpdateTask t ql ts =
     sbind (UpdateID (ql_heap ql) (t_ID t) (t_At t)) (\<lambda>(h, ok).
       if \<not> ok then Inl (Panic ''task not found in queue heap for update'') else Inr (h, ts_Set (t_ID t) t ts))"

definition deleteID :: "string list \<Rightarrow> string \<Rightarrow> string \<Rightarrow> ('dt, 'lt) EQMem \<times> steps \<Rightarrow> goerror + ('dt, 'lt) EQMem \<times> steps" where
  "deleteID byQ q i = (\<lambda>(s, st).
     sbind (with_queue byQ q s (queueUnsafeDeleteID i)) (\<lambda>s. Inr (s, st @ [(i, None)])))"

definition insertTask :: "string list \<Rightarrow> Task \<Rightarrow> ('dt, 'lt) EQMem \<times> steps \<Rightarrow> goerror + ('dt, 'lt) EQMem \<times> steps" where
  "insertTask byQ t = (\<lambda>(s, st).
     sbind (with_queue byQ (t_Queue t) s (queueUnsafeInsertTask t)) (\<lambda>s. Inr (s, st @ [(t_ID t, Some (t_Queue t))])))"

definition updateTask :: "string list \<Rightarrow> Task \<Rightarrow> ('dt, 'lt) EQMem \<times> steps \<Rightarrow> goerror + ('dt, 'lt) EQMem \<times> steps" where
  "updateTask byQ t = (\<lambda>(s, st).
     sbind (with_queue byQ (t_Queue t) s (queueUnsafeUpdateTask t)) (\<lambda>s. Inr (s, st)))"

section \<open>The new tasks\<close>

text \<open>
  The task a change stores. The change of a task that was not found reads a nil pointer; the
  checks rule that out except in a replay, which does not read it.
\<close>

definition changed_task :: "Modification \<Rightarrow> (string, Task) gomap \<Rightarrow> bool \<Rightarrow> time \<Rightarrow> Task \<Rightarrow> goerror + Task" where
  "changed_task md found replay now c =
     (let newTask = (Task_Copy c)\<lparr>t_Version := t_Version c + 1\<rparr> in
      if replay
      then Inr (if t_Modified newTask = zero_time then newTask\<lparr>t_Modified := now\<rparr> else newTask)
      else case map_of found (t_ID c) of
             None \<Rightarrow> Inl (Panic ''nil task'')
           | Some old \<Rightarrow>
               let at = NormalizeArrival (now + t_by newTask) now in
               Inr (newTask\<lparr>t_Claims := (if ResetsClaims md (t_ID c) then 0 else t_Claims old),
                 t_Created := t_Created old, t_At := at, t_Claimant := holder (m_Claimant md) at now,
                 t_Modified := now\<rparr>))"

definition inserted_task :: "Modification \<Rightarrow> bool \<Rightarrow> time \<Rightarrow> TaskData \<Rightarrow> Task" where
  "inserted_task md replay now td =
     (let at = (if replay then td_At td else NormalizeArrival (now + td_by td) now) in
      zero_Task\<lparr>t_ID := td_ID td, t_Queue := td_Queue td, t_At := at, t_Value := td_Value td,
        t_Claimant := holder (m_Claimant md) at now,
        t_Created := (if td_Created td = zero_time then now else td_Created td),
        t_Modified := (if td_Modified td = zero_time then now else td_Modified td),
        t_Attempt := td_Attempt td, t_Err := td_Err td\<rparr>)"

definition apply_change :: "string list \<Rightarrow> Modification \<Rightarrow> (string, Task) gomap \<Rightarrow> bool \<Rightarrow> time \<Rightarrow> Task \<Rightarrow>
    (('dt, 'lt) EQMem \<times> steps) \<times> Task list \<Rightarrow> goerror + (('dt, 'lt) EQMem \<times> steps) \<times> Task list" where
  "apply_change byQ md found replay now c = (\<lambda>(st, out).
     sbind (changed_task md found replay now c) (\<lambda>newTask.
     sbind (if t_FromQueue c \<noteq> t_Queue c
            then sbind (deleteID byQ (t_FromQueue c) (t_ID c) st) (insertTask byQ newTask)
            else updateTask byQ newTask st) (\<lambda>st. Inr (st, out @ [newTask]))))"

definition apply_insert :: "string list \<Rightarrow> Modification \<Rightarrow> bool \<Rightarrow> time \<Rightarrow> TaskData \<Rightarrow>
    (('dt, 'lt) EQMem \<times> steps) \<times> Task list \<Rightarrow> goerror + (('dt, 'lt) EQMem \<times> steps) \<times> Task list" where
  "apply_insert byQ md replay now td = (\<lambda>(st, out).
     let newTask = inserted_task md replay now td in
     sbind (insertTask byQ newTask st) (\<lambda>st. Inr (st, out @ [newTask])))"

definition apply_tasks :: "string list \<Rightarrow> Modification \<Rightarrow> (string, Task) gomap \<Rightarrow> bool \<Rightarrow> time \<Rightarrow> ('dt, 'lt) EQMem \<Rightarrow>
    goerror + (('dt, 'lt) EQMem \<times> steps) \<times> Task list \<times> Task list" where
  "apply_tasks byQ md found replay now s =
     sbind (foldE (\<lambda>d. deleteID byQ (tid_Queue d) (tid_ID d)) (m_Deletes md) (s, [])) (\<lambda>st.
     sbind (foldE (apply_change byQ md found replay now) (m_Changes md) (st, [])) (\<lambda>(st, changed).
     sbind (foldE (apply_insert byQ md replay now) (m_Inserts md) (st, [])) (\<lambda>(st, inserted).
     Inr (st, changed, inserted))))"

text \<open>The final steps, under the global lock.\<close>

definition final_step :: "string \<times> string option \<Rightarrow> ('dt, 'lt) EQMem \<Rightarrow> ('dt, 'lt) EQMem" where
  "final_step = (\<lambda>(i, qo) s. case qo of
     None \<Rightarrow> s\<lparr>em_qByID := gm_del i (em_qByID s)\<rparr>
   | Some q \<Rightarrow> s\<lparr>em_qByID := gm_set i q (em_qByID s)\<rparr>)"

section \<open>Changing the docs of locked namespaces\<close>

definition with_namespace :: "string list \<Rightarrow> string \<Rightarrow> (('dt, 'lt) docNamespace \<Rightarrow> ('dt, 'lt) docNamespace) \<Rightarrow>
    ('dt, 'lt) EQMem \<Rightarrow> goerror + ('dt, 'lt) EQMem" where
  "with_namespace byNS ns f s =
     (if ns \<notin> set byNS then Inl (Panic ''nil namespace lock'')
      else case map_of (em_namespaces s) ns of
        None \<Rightarrow> Inl (Panic ''nil namespace lock'')
      | Some nss \<Rightarrow> Inr (s\<lparr>em_namespaces := gm_set ns (f nss) (em_namespaces s)\<rparr>))"

text \<open>withLock reads the stored lock when the plan has none for the doc's set.\<close>

definition withLock :: "('dt, 'lt) trees \<Rightarrow> bool \<Rightarrow> Plan \<Rightarrow> ('dt, 'lt) EQMem \<Rightarrow> Doc \<Rightarrow> Doc" where
  "withLock T replay plan s d =
     (if replay then d
      else let l = (case map_of (pl_Locks plan) (set_of_doc d) of Some l \<Rightarrow> l | None \<Rightarrow> lock_of T s (set_of_doc d))
           in d\<lparr>d_Version := lk_Version l, d_Claimant := lk_Claimant l, d_At := lk_At l\<rparr>)"

definition changed_doc :: "(string, Doc) gomap \<Rightarrow> bool \<Rightarrow> time \<Rightarrow> Doc \<Rightarrow> Doc" where
  "changed_doc foundDocs replay now c =
     (let newRes = Doc_Copy c;
          newRes = (case map_of foundDocs (DocKey (d_Namespace c) (d_ID c)) of
             Some stored \<Rightarrow> newRes\<lparr>d_Key := d_Key stored, d_SecondaryKey := d_SecondaryKey stored,
                                   d_Created := d_Created stored\<rparr>
           | None \<Rightarrow> newRes);
          newRes = (if replay then newRes\<lparr>d_Version := d_Version newRes + 1\<rparr> else newRes)
      in if \<not> replay \<or> d_Modified newRes = zero_time then newRes\<lparr>d_Modified := now\<rparr> else newRes)"

definition inserted_doc :: "time \<Rightarrow> DocData \<Rightarrow> Doc" where
  "inserted_doc now rd =
     \<lparr>d_Namespace = dd_Namespace rd, d_ID = dd_ID rd, d_Version = 0, d_Claimant = [], d_by = 0,
      d_At = dd_At rd, d_Key = dd_Key rd, d_SecondaryKey = dd_SecondaryKey rd, d_Content = dd_Content rd,
      d_Created = (if dd_Created rd = zero_time then now else dd_Created rd),
      d_Modified = (if dd_Modified rd = zero_time then now else dd_Modified rd)\<rparr>"

definition setRes :: "('dt, 'lt) trees \<Rightarrow> string list \<Rightarrow> Doc \<Rightarrow> ('dt, 'lt) EQMem \<Rightarrow> goerror + ('dt, 'lt) EQMem" where
  "setRes T byNS r s = with_namespace byNS (d_Namespace r) (dn_Set T (d_ID r) r) s"

definition apply_docs :: "('dt, 'lt) trees \<Rightarrow> string list \<Rightarrow> Modification \<Rightarrow> (string, Doc) gomap \<Rightarrow> Plan \<Rightarrow> bool \<Rightarrow>
    time \<Rightarrow> ('dt, 'lt) EQMem \<Rightarrow> goerror + ('dt, 'lt) EQMem \<times> Doc list \<times> Doc list" where
  "apply_docs T byNS md foundDocs plan replay now s =
     sbind (foldE (\<lambda>d. with_namespace byNS (did_Namespace d) (dn_Delete T (did_ID d))) (m_DocDeletes md) s) (\<lambda>s.
     sbind (foldE (\<lambda>c (s, out). let r = withLock T replay plan s (changed_doc foundDocs replay now c) in
              sbind (setRes T byNS r s) (\<lambda>s. Inr (s, out @ [r]))) (m_DocChanges md) (s, [])) (\<lambda>(s, changed).
     sbind (foldE (\<lambda>rd (s, out). let r = withLock T replay plan s (inserted_doc now rd) in
              sbind (setRes T byNS r s) (\<lambda>s. Inr (s, out @ [r]))) (m_DocInserts md) (s, [])) (\<lambda>(s, inserted).
     sbind (foldE (\<lambda>(g, l). with_namespace byNS (g_Namespace g) (SetLock T (g_Key g) l)) (pl_Locks plan) s) (\<lambda>s.
     Inr (s, changed, inserted)))))"

section \<open>The whole modification\<close>

definition journal_mod :: "Modification \<Rightarrow> ModifyResponse \<Rightarrow> Modification" where
  "journal_mod md resp = zero_Modification\<lparr>m_Claimant := m_Claimant md, m_Deletes := m_Deletes md,
     m_Depends := m_Depends md, m_Changes := mr_ChangedTasks resp, m_DocDeletes := m_DocDeletes md,
     m_DocDepends := m_DocDepends md, m_DocChanges := mr_ChangedDocs resp,
     m_Inserts := map Task_Data (mr_InsertedTasks resp), m_DocInserts := map Doc_Data (mr_InsertedDocs resp)\<rparr>"

text \<open>What runs while the queues and namespaces are locked: the new state, the response, and the
  queues notified.\<close>

definition modifyBody :: "('dt, 'lt) trees \<Rightarrow> time \<Rightarrow> bool \<Rightarrow> prep \<Rightarrow> string list \<Rightarrow> string list \<Rightarrow> ('dt, 'lt) EQMem \<Rightarrow>
    goerror + ('dt, 'lt) EQMem \<times> ModifyResponse \<times> string list" where
  "modifyBody T now replay p byQ byNS s =
     (let found = found_tasks byQ s (pr_mod p) (pr_misplaced p);
          foundDocs = found_docs byNS s (pr_mod p);
          md = arrival_Changes (pr_mod p) (map_of found);
          foundDeps = Modification_DependencyError (task_part md) (map_of found) Map.empty now
      in sbind (if replay then Inr empty_plan else eval_docs T byNS now md foundDocs s) (\<lambda>plan.
         let foundDeps = (case pl_Err plan of Some e \<Rightarrow> Merge foundDeps (Some e) | None \<Rightarrow> foundDeps) in
         case check_deps replay (pr_queueDeps p) foundDeps of
           Some e \<Rightarrow> Inl e
         | None \<Rightarrow>
             sbind (apply_tasks byQ md found replay now s) (\<lambda>((s, steps), changed, inserted).
             sbind (apply_docs T byNS md foundDocs plan replay now s) (\<lambda>(s, changedDocs, insertedDocs).
             let resp = \<lparr>mr_InsertedTasks = inserted, mr_ChangedTasks = changed, mr_InsertedDocs = insertedDocs,
                         mr_ChangedDocs = changedDocs, mr_ChangedSets = pl_Arrived plan\<rparr>;
                 s = fold final_step steps s;
                 s = appendJournal (Some (journal_mod md resp)) (journalLocksOf (pl_Locks plan)) s
             in Inr (s, resp, NotifyModified inserted changed)))))"

definition nothing_to_lock :: "prep \<Rightarrow> bool" where
  "nothing_to_lock p \<longleftrightarrow> pr_queueDeps p = None \<and> pr_queues p = [] \<and> pr_namespaces p = [] \<and>
     m_Deletes (pr_mod p) = [] \<and> m_Depends (pr_mod p) = []"

text \<open>
  The rest of modifyImpl after modPrep. The state is returned with the error too. A panic ends the
  process, so that the state it leaves does not matter; the locks' state is given.
\<close>

definition modifyLocked :: "('dt, 'lt) trees \<Rightarrow> time \<Rightarrow> bool \<Rightarrow> prep \<Rightarrow> ('dt, 'lt) EQMem \<Rightarrow>
    ('dt, 'lt) EQMem \<times> (goerror + ModifyResponse \<times> string list)" where
  "modifyLocked T now replay p s =
     (if nothing_to_lock p then (s, Inr (zero_ModifyResponse, []))
      else case lockQueues (pr_queues p) s of
        Inl e \<Rightarrow> (s, Inl e)
      | Inr (qls, s1) \<Rightarrow>
          (case lockNamespaces T (pr_namespaces p) s1 of
             Inl e \<Rightarrow> (unlockQueues qls s1, Inl e)
           | Inr (nls, s2) \<Rightarrow>
               (case modifyBody T now replay p qls nls s2 of
                  Inl e \<Rightarrow> (unlockQueues qls (unlockNamespaces T nls s2), Inl e)
                | Inr (s3, r) \<Rightarrow> (unlockQueues qls (unlockNamespaces T nls s3), Inr r))))"

definition missing_ids :: "Modification \<Rightarrow> goerror option" where
  "missing_ids md =
     err_or (first_some (\<lambda>t. if td_ID t = [] then Some (PlainError ''task to insert is missing ID'') else None) (m_Inserts md))
       (first_some (\<lambda>d. if dd_ID d = [] then Some (PlainError ''resource to insert is missing ID'') else None) (m_DocInserts md))"

definition modifyImpl :: "('dt, 'lt) trees \<Rightarrow> time \<Rightarrow> Modification \<Rightarrow> bool \<Rightarrow> ('dt, 'lt) EQMem \<Rightarrow>
    ('dt, 'lt) EQMem \<times> (goerror + ModifyResponse \<times> string list)" where
  "modifyImpl T now md replay s =
     (case missing_ids md of
        Some e \<Rightarrow> (s, Inl e)
      | None \<Rightarrow> modifyLocked T now replay (modPrep md replay s) s)"

definition Modify :: "('dt, 'lt) trees \<Rightarrow> time \<Rightarrow> Modification \<Rightarrow> ('dt, 'lt) EQMem \<Rightarrow>
    ('dt, 'lt) EQMem \<times> (goerror + ModifyResponse \<times> string list)" where
  "Modify T now md s =
     (case validate_Modification md of Some e \<Rightarrow> (s, Inl e) | None \<Rightarrow> modifyImpl T now md False s)"

end
