(* ===== verification/EQMemQueues.thy ===== *)
theory EQMemQueues
  imports EQMemModify
begin

text \<open>
  The queues of the in-memory backend: the invariant that ties each queue's store, heap and lock
  structure together, and the effect of every operation on queues on the tasks of each queue.
\<close>

section \<open>Views and invariants\<close>

text \<open>The tasks of each queue, and how many operations depend on its lock structure.\<close>

definition tasks_at :: "('dt, 'lt) EQMem \<Rightarrow> string \<Rightarrow> string \<Rightarrow> Task option" where
  "tasks_at s q = (case map_of (em_queues s) q of Some ts \<Rightarrow> map_of (ts_byID ts) | None \<Rightarrow> Map.empty)"

definition deps :: "('dt, 'lt) EQMem \<Rightarrow> string \<Rightarrow> int" where
  "deps s q = (case map_of (em_locks s) q of Some ql \<Rightarrow> ql_dependents ql | None \<Rightarrow> 0)"

definition queue_ok :: "string \<Rightarrow> taskQueue \<Rightarrow> qLock \<Rightarrow> bool" where
  "queue_ok q ts ql \<longleftrightarrow> ts_ok ts \<and> ts_name ts = q \<and> (\<forall>i t. map_of (ts_byID ts) i = Some t \<longrightarrow> t_Queue t = q) \<and>
     ql_queue ql = q \<and> wf_ch (ql_heap ql) \<and> ch_of q (ql_heap ql) \<and>
     ch_view (ql_heap ql) = (\<lambda>i. map_option t_At (map_of (ts_byID ts) i))"

definition wf_queues :: "('dt, 'lt) EQMem \<Rightarrow> bool" where
  "wf_queues s \<longleftrightarrow> gm_ok (em_queues s) \<and> gm_ok (em_locks s) \<and>
     (\<forall>q. (map_of (em_queues s) q = None) = (map_of (em_locks s) q = None)) \<and>
     (\<forall>q ts ql. map_of (em_queues s) q = Some ts \<longrightarrow> map_of (em_locks s) q = Some ql \<longrightarrow> queue_ok q ts ql)"

text \<open>A queue is kept only while it has tasks or an operation depends on it.\<close>

definition live :: "('dt, 'lt) EQMem \<Rightarrow> bool" where
  "live s \<longleftrightarrow> (\<forall>q ql. map_of (em_locks s) q = Some ql \<longrightarrow>
     0 \<le> ql_dependents ql \<and> (ql_dependents ql = 0 \<longrightarrow> tasks_at s q \<noteq> Map.empty))"

definition lk :: "('dt, 'lt) EQMem \<Rightarrow> bool" where
  "lk s \<longleftrightarrow> wf_queues s \<and> live s"

text \<open>What the operations on queues leave alone.\<close>

definition same_rest :: "('dt, 'lt) EQMem \<Rightarrow> ('dt, 'lt) EQMem \<Rightarrow> bool" where
  "same_rest s s' \<longleftrightarrow> em_namespaces s' = em_namespaces s \<and> em_nslocks s' = em_nslocks s \<and>
     em_qByID s' = em_qByID s \<and> em_journal s' = em_journal s \<and>
     em_staleDocReplays s' = em_staleDocReplays s \<and> em_staleDocExamples s' = em_staleDocExamples s"

lemma same_rest_refl [simp]: "same_rest s s"
  by (simp add: same_rest_def)

lemma same_rest_trans: "same_rest s s' \<Longrightarrow> same_rest s' s'' \<Longrightarrow> same_rest s s''"
  by (simp add: same_rest_def)

definition has_lock :: "('dt, 'lt) EQMem \<Rightarrow> string \<Rightarrow> bool" where
  "has_lock s q \<longleftrightarrow> map_of (em_locks s) q \<noteq> None"

lemma wf_queues_cases:
  assumes "wf_queues s"
  obtains "map_of (em_queues s) q = None" "map_of (em_locks s) q = None"
  | ts ql where "map_of (em_queues s) q = Some ts" "map_of (em_locks s) q = Some ql" "queue_ok q ts ql"
  using assms unfolding wf_queues_def by (metis not_Some_eq)

lemma set_sel [simp]:
  "em_queues (set_queue q ts s) = gm_set q ts (em_queues s)" "em_locks (set_queue q ts s) = em_locks s"
  "em_queues (set_lock q ql s) = em_queues s" "em_locks (set_lock q ql s) = gm_set q ql (em_locks s)"
  "same_rest s (set_queue q ts s') \<longleftrightarrow> same_rest s s'" "same_rest s (set_lock q ql s') \<longleftrightarrow> same_rest s s'"
  by (simp_all add: set_queue_def set_lock_def same_rest_def)

text \<open>Writing back a queue and its lock structure.\<close>

lemma wf_queues_set:
  assumes "wf_queues s" "queue_ok q ts ql"
  shows "wf_queues (set_queue q ts (set_lock q ql s))"
  using assms by (auto simp: wf_queues_def)

lemma tasks_at_set [simp]:
  "tasks_at (set_queue q ts s) = (tasks_at s)(q := map_of (ts_byID ts))" "tasks_at (set_lock q ql s) = tasks_at s"
  by (auto simp: tasks_at_def fun_eq_iff)

lemma deps_set [simp]:
  "deps (set_lock q ql s) = (deps s)(q := ql_dependents ql)" "deps (set_queue q ts s) = deps s"
  by (auto simp: deps_def fun_eq_iff)

section \<open>Locking and unlocking\<close>

lemma lockForQueueUnsafe_ok:
  assumes "lk s"
  obtains s' where "lockForQueueUnsafe q s = Inr s'" "lk s'" "tasks_at s' = tasks_at s"
    "deps s' = (deps s)(q := deps s q + 1)" "same_rest s s'" "\<forall>x. has_lock s' x \<longleftrightarrow> has_lock s x \<or> x = q"
proof -
  have wf: "wf_queues s" and lv: "live s" using assms by (simp_all add: lk_def)
  show thesis
  proof (cases rule: wf_queues_cases[OF wf, of q])
    case 1
    let ?ql = "\<lparr>ql_queue = q, ql_heap = newClaimHeap, ql_dependents = 1\<rparr>"
    let ?s = "set_lock q ?ql (set_queue q (newTaskQueue q) s)"
    have "queue_ok q (newTaskQueue q) ?ql"
      using wf_newClaimHeap by (auto simp: queue_ok_def ch_of_def newClaimHeap_def)
    then have "wf_queues ?s"
      using wf by (auto simp: wf_queues_def)
    moreover have "tasks_at ?s = tasks_at s"
      using 1 by (auto simp: tasks_at_def fun_eq_iff)
    moreover have "live ?s"
      using lv calculation(2) by (auto simp: live_def)
    ultimately show thesis
      using that[of ?s] 1 by (auto simp: lockForQueueUnsafe_def lk_def deps_def has_lock_def)
  next
    case (2 ts ql)
    let ?s = "set_lock q (ql\<lparr>ql_dependents := ql_dependents ql + 1\<rparr>) s"
    have "queue_ok q ts (ql\<lparr>ql_dependents := ql_dependents ql + 1\<rparr>)"
      using 2 by (simp add: queue_ok_def)
    then have "wf_queues ?s"
      using wf 2 by (auto simp: wf_queues_def)
    moreover have "0 \<le> ql_dependents ql"
      using lv 2 by (simp add: live_def)
    then have "live ?s"
      using lv by (auto simp: live_def)
    ultimately show thesis
      using that[of ?s] 2 by (auto simp: lockForQueueUnsafe_def lk_def deps_def has_lock_def)
  qed
qed

lemma locksForQueues_ok:
  assumes "lk s" "distinct qs"
  shows "\<exists>s'. locksForQueues qs s = Inr s' \<and> lk s' \<and> tasks_at s' = tasks_at s \<and>
    deps s' = (\<lambda>q. deps s q + of_bool (q \<in> set qs)) \<and> same_rest s s' \<and> (\<forall>x. has_lock s' x \<longleftrightarrow> has_lock s x \<or> x \<in> set qs)"
  using assms
proof (induction qs arbitrary: s)
  case Nil
  then show ?case by (simp add: locksForQueues_def)
next
  case (Cons q qs)
  obtain s1 where s1: "lockForQueueUnsafe q s = Inr s1" "lk s1" "tasks_at s1 = tasks_at s"
    "deps s1 = (deps s)(q := deps s q + 1)" "same_rest s s1" "\<forall>x. has_lock s1 x \<longleftrightarrow> has_lock s x \<or> x = q"
    by (rule lockForQueueUnsafe_ok[OF Cons.prems(1)])
  from Cons.IH[OF s1(2)] Cons.prems(2) obtain s2 where
    "locksForQueues qs s1 = Inr s2" "lk s2" "tasks_at s2 = tasks_at s1" "same_rest s1 s2"
    "deps s2 = (\<lambda>q. deps s1 q + of_bool (q \<in> set qs))" "\<forall>x. has_lock s2 x \<longleftrightarrow> has_lock s1 x \<or> x \<in> set qs"
    by auto
  with s1 Cons.prems(2) show ?case
    by (intro exI[of _ s2]) (auto simp: locksForQueues_def fun_eq_iff intro: same_rest_trans)
qed

lemma lockQueues_ok:
  assumes "lk s" "distinct qs"
  obtains s' where "lockQueues qs s = Inr (sort qs, s')" "lk s'" "tasks_at s' = tasks_at s"
    "deps s' = (\<lambda>q. deps s q + of_bool (q \<in> set qs))" "same_rest s s'" "\<forall>x. has_lock s' x \<longleftrightarrow> has_lock s x \<or> x \<in> set qs"
proof (cases "qs = []")
  case True
  with that[of s] assms show thesis by (simp add: lockQueues_def)
next
  case False
  with that locksForQueues_ok[of s "sort qs"] assms show thesis
    by (auto simp: lockQueues_def Let_def)
qed

lemma unlockQueue_ok:
  assumes "lk s" "1 \<le> deps s q"
  shows "lk (unlockQueue q s) \<and> tasks_at (unlockQueue q s) = tasks_at s \<and>
    deps (unlockQueue q s) = (deps s)(q := deps s q - 1) \<and> same_rest s (unlockQueue q s)"
proof -
  have wf: "wf_queues s" and lv: "live s" using assms by (simp_all add: lk_def)
  from assms(2) obtain ts ql where q: "map_of (em_queues s) q = Some ts" "map_of (em_locks s) q = Some ql" "queue_ok q ts ql"
    by (cases rule: wf_queues_cases[OF wf, of q]) (auto simp: deps_def)
  let ?ql = "ql\<lparr>ql_dependents := ql_dependents ql - 1\<rparr>"
  let ?s = "set_lock q ?ql s"
  have ok: "queue_ok q ts ?ql" and name: "ql_queue ql = q" and ts: "ts_ok ts"
    using q(3) by (simp_all add: queue_ok_def)
  have wf': "wf_queues ?s" using wf q ok by (auto simp: wf_queues_def)
  show ?thesis
  proof (cases "ql_dependents ql = 1 \<and> ts_size ts = 0")
    case True
    then have e: "map_of (ts_byID ts) = Map.empty" using ts_empty[OF ts] by simp
    let ?d = "?s\<lparr>em_queues := gm_del q (em_queues ?s), em_locks := gm_del q (em_locks ?s)\<rparr>"
    have u: "unlockQueue q s = ?d"
      using True q name by (simp add: unlockQueue_def Let_def ts_Len_def)
    have t: "tasks_at ?d = tasks_at s"
      using e q by (auto simp: tasks_at_def fun_eq_iff)
    have "wf_queues ?d" using wf' by (auto simp: wf_queues_def)
    moreover have "live ?d" using lv t by (auto simp: live_def split: if_splits)
    ultimately show ?thesis
      using True q t unfolding u by (auto simp: lk_def deps_def fun_eq_iff same_rest_def set_lock_def)
  next
    case False
    then have u: "unlockQueue q s = ?s"
      using q name by (auto simp: unlockQueue_def Let_def ts_Len_def)
    have "live ?s"
      using False lv q assms(2) ts_empty[OF ts] by (auto simp: live_def deps_def tasks_at_def)
    with wf' q show ?thesis unfolding u by (auto simp: lk_def deps_def)
  qed
qed

lemma unlockQueues_ok:
  assumes "lk s" "distinct qs" "\<forall>q \<in> set qs. 1 \<le> deps s q"
  shows "lk (unlockQueues qs s) \<and> tasks_at (unlockQueues qs s) = tasks_at s \<and>
    deps (unlockQueues qs s) = (\<lambda>q. deps s q - of_bool (q \<in> set qs)) \<and> same_rest s (unlockQueues qs s)"
proof -
  have "lk (fold unlockQueue xs s) \<and> tasks_at (fold unlockQueue xs s) = tasks_at s \<and>
      deps (fold unlockQueue xs s) = (\<lambda>q. deps s q - of_bool (q \<in> set xs)) \<and> same_rest s (fold unlockQueue xs s)"
    if "lk s" "distinct xs" "\<forall>q \<in> set xs. 1 \<le> deps s q" for xs s
    using that
  proof (induction xs arbitrary: s)
    case (Cons q xs)
    then have 1: "lk (unlockQueue q s) \<and> tasks_at (unlockQueue q s) = tasks_at s \<and>
      deps (unlockQueue q s) = (deps s)(q := deps s q - 1) \<and> same_rest s (unlockQueue q s)"
      by (intro unlockQueue_ok) auto
    with Cons.IH[of "unlockQueue q s"] Cons.prems show ?case
      by (auto simp: fun_eq_iff intro: same_rest_trans)
  qed simp
  from this[of s "rev qs"] assms show ?thesis by (simp add: unlockQueues_def)
qed

section \<open>Operations on a locked queue\<close>

text \<open>The queues held by an operation: it depends on each.\<close>

definition held :: "('dt, 'lt) EQMem \<Rightarrow> string list \<Rightarrow> bool" where
  "held s byQ \<longleftrightarrow> (\<forall>q \<in> set byQ. 1 \<le> deps s q)"

lemma held_queue:
  assumes "lk s" "held s byQ" "q \<in> set byQ"
  obtains ts ql where "map_of (em_queues s) q = Some ts" "map_of (em_locks s) q = Some ql" "queue_ok q ts ql"
    "1 \<le> ql_dependents ql" "tasks_at s q = map_of (ts_byID ts)"
proof -
  have wf: "wf_queues s" using assms(1) by (simp add: lk_def)
  have d: "1 \<le> deps s q" using assms by (simp add: held_def)
  show thesis
    by (cases rule: wf_queues_cases[OF wf, of q]) (use d that in \<open>auto simp: deps_def tasks_at_def\<close>)
qed

text \<open>Writing back a queue that is held, with its lock structure's heap changed.\<close>

lemma write_queue_ok:
  assumes "lk s" "map_of (em_locks s) q = Some ql" "1 \<le> ql_dependents ql" "queue_ok q ts (ql\<lparr>ql_heap := h\<rparr>)"
  shows "lk (set_queue q ts (set_lock q (ql\<lparr>ql_heap := h\<rparr>) s)) \<and>
    tasks_at (set_queue q ts (set_lock q (ql\<lparr>ql_heap := h\<rparr>) s)) = (tasks_at s)(q := map_of (ts_byID ts)) \<and>
    deps (set_queue q ts (set_lock q (ql\<lparr>ql_heap := h\<rparr>) s)) = deps s \<and>
    same_rest s (set_queue q ts (set_lock q (ql\<lparr>ql_heap := h\<rparr>) s))"
proof -
  have "live (set_queue q ts (set_lock q (ql\<lparr>ql_heap := h\<rparr>) s))"
    using assms by (auto simp: lk_def live_def)
  moreover have "deps s q = ql_dependents ql"
    using assms(2) by (simp add: deps_def)
  ultimately show ?thesis
    using assms by (auto simp: lk_def wf_queues_set)
qed

lemma insert_ok:
  assumes "lk s" "held s byQ" "t_Queue t \<in> set byQ" "tasks_at s (t_Queue t) (t_ID t) = None"
  shows "\<exists>s'. insertTask byQ t (s, st) = Inr (s', st @ [(t_ID t, Some (t_Queue t))]) \<and> lk s' \<and>
    tasks_at s' = (tasks_at s)(t_Queue t := (tasks_at s (t_Queue t))(t_ID t \<mapsto> t)) \<and> deps s' = deps s \<and> same_rest s s'"
proof -
  let ?q = "t_Queue t" and ?i = "t_ID t"
  obtain ts ql where q: "map_of (em_queues s) ?q = Some ts" "map_of (em_locks s) ?q = Some ql" "queue_ok ?q ts ql"
    "1 \<le> ql_dependents ql" "tasks_at s ?q = map_of (ts_byID ts)"
    by (rule held_queue[OF assms(1-3)])
  let ?h = "PushItem (ql_heap ql) (newItem (ql_queue ql) ?i (t_At t))"
  have wf: "wf_ch (ql_heap ql)" and v: "ch_view (ql_heap ql) = (\<lambda>i. map_option t_At (map_of (ts_byID ts) i))"
    and c: "ch_of ?q (ql_heap ql)" "ql_queue ql = ?q"
    using q(3) by (simp_all add: queue_ok_def)
  have fresh: "ch_view (ql_heap ql) (ci_id (newItem (ql_queue ql) ?i (t_At t))) = None"
    using assms(4) q(5) v by (simp add: newItem_def)
  have "queue_ok ?q (ts_Set ?i t ts) (ql\<lparr>ql_heap := ?h\<rparr>)"
    using q(3) PushItem_ok[OF wf fresh] v c
    by (auto simp: queue_ok_def ts_ok_Set newItem_def fun_eq_iff)
  from write_queue_ok[OF assms(1) q(2,4) this] show ?thesis
    using assms(3) q by (simp add: insertTask_def with_queue_def queueUnsafeInsertTask_def)
qed

lemma delete_ok:
  assumes "lk s" "held s byQ" "q \<in> set byQ"
  shows "\<exists>s'. deleteID byQ q i (s, st) = Inr (s', st @ [(i, None)]) \<and> lk s' \<and>
    tasks_at s' = (tasks_at s)(q := (tasks_at s q)(i := None)) \<and> deps s' = deps s \<and> same_rest s s'"
proof -
  obtain ts ql where q: "map_of (em_queues s) q = Some ts" "map_of (em_locks s) q = Some ql" "queue_ok q ts ql"
    "1 \<le> ql_dependents ql" "tasks_at s q = map_of (ts_byID ts)"
    by (rule held_queue[OF assms])
  have wf: "wf_ch (ql_heap ql)" and v: "ch_view (ql_heap ql) = (\<lambda>i. map_option t_At (map_of (ts_byID ts) i))"
    and c: "ch_of q (ql_heap ql)"
    using q(3) by (simp_all add: queue_ok_def)
  obtain h where h: "RemoveID (ql_heap ql) i = Inr (h, ch_view (ql_heap ql) i \<noteq> None)" "wf_ch h"
    "ch_view h = (ch_view (ql_heap ql))(i := None)" "\<forall>q. ch_of q (ql_heap ql) \<longrightarrow> ch_of q h"
    by (rule RemoveID_ok[OF wf])
  have "queue_ok q (ts_Delete i ts) (ql\<lparr>ql_heap := h\<rparr>)"
    using q(3) h v c by (auto simp: queue_ok_def ts_ok_Delete fun_eq_iff)
  from write_queue_ok[OF assms(1) q(2,4) this] show ?thesis
    using assms(3) q h(1) by (simp add: deleteID_def with_queue_def queueUnsafeDeleteID_def)
qed

lemma update_ok:
  assumes "lk s" "held s byQ" "t_Queue t \<in> set byQ" "tasks_at s (t_Queue t) (t_ID t) \<noteq> None"
  shows "\<exists>s'. updateTask byQ t (s, st) = Inr (s', st) \<and> lk s' \<and>
    tasks_at s' = (tasks_at s)(t_Queue t := (tasks_at s (t_Queue t))(t_ID t \<mapsto> t)) \<and> deps s' = deps s \<and> same_rest s s'"
proof -
  let ?q = "t_Queue t" and ?i = "t_ID t"
  obtain ts ql where q: "map_of (em_queues s) ?q = Some ts" "map_of (em_locks s) ?q = Some ql" "queue_ok ?q ts ql"
    "1 \<le> ql_dependents ql" "tasks_at s ?q = map_of (ts_byID ts)"
    by (rule held_queue[OF assms(1-3)])
  have wf: "wf_ch (ql_heap ql)" and v: "ch_view (ql_heap ql) = (\<lambda>i. map_option t_At (map_of (ts_byID ts) i))"
    and c: "ch_of ?q (ql_heap ql)"
    using q(3) by (simp_all add: queue_ok_def)
  have in_heap: "ch_view (ql_heap ql) ?i \<noteq> None"
    using assms(4) q(5) v by simp
  obtain h where h: "UpdateID (ql_heap ql) ?i (t_At t) = Inr (h, ch_view (ql_heap ql) ?i \<noteq> None)" "wf_ch h"
    "ch_view h = (if ch_view (ql_heap ql) ?i = None then ch_view (ql_heap ql) else (ch_view (ql_heap ql))(?i \<mapsto> t_At t))"
    "\<forall>q. ch_of q (ql_heap ql) \<longrightarrow> ch_of q h"
    by (rule UpdateID_ok[OF wf])
  have "queue_ok ?q (ts_Set ?i t ts) (ql\<lparr>ql_heap := h\<rparr>)"
    using q(3) h v c in_heap by (auto simp: queue_ok_def ts_ok_Set fun_eq_iff)
  from write_queue_ok[OF assms(1) q(2,4) this] show ?thesis
    using assms(3) q h(1) in_heap by (simp add: updateTask_def with_queue_def queueUnsafeUpdateTask_def)
qed

end
