(* ===== verification/EQMemClaim.thy ===== *)
theory EQMemClaim
  imports EQMemQueues
begin

text \<open>
  Claims of the in-memory backend: TryClaim keeps the backend's invariant, never panics, returns
  nothing only when nothing is available, and changes exactly the task it returns.
\<close>

section \<open>The invariant between operations\<close>

definition qByID_ok :: "('dt, 'lt) EQMem \<Rightarrow> bool" where
  "qByID_ok s \<longleftrightarrow> gm_ok (em_qByID s) \<and> (\<forall>i q. map_of (em_qByID s) i = Some q \<longleftrightarrow> tasks_at s q i \<noteq> None)"

text \<open>No task has an empty ID and no queue with tasks has an empty name.\<close>

definition named :: "('dt, 'lt) EQMem \<Rightarrow> bool" where
  "named s \<longleftrightarrow> (\<forall>q i. tasks_at s q i \<noteq> None \<longrightarrow> q \<noteq> [] \<and> i \<noteq> [])"

definition wf_mem :: "('dt, 'lt) EQMem \<Rightarrow> bool" where
  "wf_mem s \<longleftrightarrow> lk s \<and> (\<forall>q. deps s q = 0) \<and> qByID_ok s \<and> named s"

text \<open>The tasks of the backend by ID.\<close>

definition store :: "('dt, 'lt) EQMem \<Rightarrow> string \<Rightarrow> Task option" where
  "store s i = (case map_of (em_qByID s) i of Some q \<Rightarrow> tasks_at s q i | None \<Rightarrow> None)"

lemma wf_new: "wf_mem (new_EQMem j) \<and> store (new_EQMem j) = Map.empty"
  by (auto simp: wf_mem_def lk_def wf_queues_def live_def qByID_ok_def named_def new_EQMem_def tasks_at_def deps_def store_def)

lemma tasks_at_task:
  assumes "wf_queues s" "tasks_at s q i = Some t"
  shows "t_ID t = i \<and> t_Queue t = q"
  using assms(2) by (cases rule: wf_queues_cases[OF assms(1), of q])
    (auto simp: tasks_at_def queue_ok_def ts_ok_def)

lemma one_queue:
  assumes "qByID_ok s" "tasks_at s q i \<noteq> None" "tasks_at s q' i \<noteq> None"
  shows "q = q'"
  using assms unfolding qByID_ok_def by (metis option.inject)

lemma qByID_iff: "wf_mem s \<Longrightarrow> map_of (em_qByID s) i = Some q \<longleftrightarrow> tasks_at s q i \<noteq> None"
  by (simp add: wf_mem_def qByID_ok_def)

lemma store_Some:
  assumes "wf_mem s"
  shows "store s i = Some t \<longleftrightarrow> tasks_at s (t_Queue t) i = Some t"
proof
  assume "store s i = Some t"
  then obtain q where "tasks_at s q i = Some t" by (auto simp: store_def split: option.splits)
  moreover from this have "t_Queue t = q" using assms tasks_at_task by (auto simp: wf_mem_def lk_def)
  ultimately show "tasks_at s (t_Queue t) i = Some t" by simp
next
  assume t: "tasks_at s (t_Queue t) i = Some t"
  then have "map_of (em_qByID s) i = Some (t_Queue t)" by (simp add: qByID_iff[OF assms])
  with t show "store s i = Some t" by (simp add: store_def)
qed

lemma store_None:
  assumes "wf_mem s"
  shows "store s i = None \<longleftrightarrow> (\<forall>q. tasks_at s q i = None)"
proof (cases "map_of (em_qByID s) i")
  case None
  then show ?thesis using qByID_iff[OF assms, of i] by (auto simp: store_def)
next
  case (Some q)
  moreover from this have "tasks_at s q i \<noteq> None" using qByID_iff[OF assms] by blast
  ultimately show ?thesis by (auto simp: store_def)
qed

lemma tasks_at_store:
  assumes "wf_mem s"
  shows "tasks_at s q i = (case store s i of Some t \<Rightarrow> if t_Queue t = q then Some t else None | None \<Rightarrow> None)"
proof (cases "tasks_at s q i")
  case None
  then show ?thesis using store_Some[OF assms] by (auto split: option.splits)
next
  case (Some t)
  then have "t_Queue t = q" using assms tasks_at_task by (auto simp: wf_mem_def lk_def)
  with Some show ?thesis using store_Some[OF assms, of i t] by simp
qed

text \<open>The fields that claims leave alone apart from the queues.\<close>

definition same_docs :: "('dt, 'lt) EQMem \<Rightarrow> ('dt, 'lt) EQMem \<Rightarrow> bool" where
  "same_docs s s' \<longleftrightarrow> em_namespaces s' = em_namespaces s \<and> em_nslocks s' = em_nslocks s \<and>
     em_qByID s' = em_qByID s \<and> em_staleDocReplays s' = em_staleDocReplays s"

lemma same_docs_simps: "same_docs s s" "same_rest s s' \<Longrightarrow> same_docs s s'"
  by (simp_all add: same_docs_def same_rest_def)

lemma same_docs_trans: "same_docs s s' \<Longrightarrow> same_docs s' s'' \<Longrightarrow> same_docs s s''"
  by (simp add: same_docs_def)

lemma appendJournal_sel [simp]:
  "em_queues (appendJournal m j s) = em_queues s" "em_locks (appendJournal m j s) = em_locks s"
  "em_qByID (appendJournal m j s) = em_qByID s" "em_namespaces (appendJournal m j s) = em_namespaces s"
  "em_nslocks (appendJournal m j s) = em_nslocks s"
  "tasks_at (appendJournal m j s) = tasks_at s" "deps (appendJournal m j s) = deps s"
  "lk (appendJournal m j s) = lk s" "same_docs s0 (appendJournal m j s) = same_docs s0 s"
  by (simp_all add: appendJournal_def lk_def wf_queues_def live_def tasks_at_def[abs_def] deps_def[abs_def]
      same_docs_def split: option.splits)

section \<open>Claiming from one queue\<close>

definition available :: "('dt, 'lt) EQMem \<Rightarrow> string \<Rightarrow> time \<Rightarrow> string set" where
  "available s q now = {i. \<exists>t. tasks_at s q i = Some t \<and> t_At t \<le> now}"

lemma arrived_available:
  "queue_ok q ts ql \<Longrightarrow> tasks_at s q = map_of (ts_byID ts) \<Longrightarrow> arrived (ch_view (ql_heap ql)) now = available s q now"
  by (auto simp: queue_ok_def arrived_def available_def)

lemma claim_task_sel [simp]:
  "t_ID (claim_task cq now t) = t_ID t" "t_Queue (claim_task cq now t) = t_Queue t"
  "t_At (claim_task cq now t) = now + cq_Duration cq"
  by (simp_all add: claim_task_def Task_Copy_def)

text \<open>The outcome of a claim from queue \<open>q\<close>.\<close>

definition claim_outcome :: "ClaimQuery \<Rightarrow> time \<Rightarrow> string \<Rightarrow> ('dt, 'lt) EQMem \<Rightarrow> Task option \<Rightarrow> ('dt, 'lt) EQMem \<Rightarrow> bool" where
  "claim_outcome cq now q s r s' \<longleftrightarrow>
     (case r of
        None \<Rightarrow> available s q now = {} \<and> tasks_at s' = tasks_at s
      | Some t' \<Rightarrow> \<exists>t. tasks_at s q (t_ID t') = Some t \<and> t_At t \<le> now \<and> t' = claim_task cq now t \<and>
          tasks_at s' = (tasks_at s)(q := (tasks_at s q)(t_ID t' \<mapsto> t')))"

lemma claim_locked_ok:
  assumes "lk s" "held s [q]"
  shows "\<exists>r s'. claim_locked draw now q cq s = Inr (r, s') \<and> lk s' \<and> deps s' = deps s \<and> same_docs s s' \<and>
    claim_outcome cq now q s r s'"
    and "i \<in> available s q now \<Longrightarrow> \<exists>draw t' s'. claim_locked draw now q cq s = Inr (Some t', s') \<and> t_ID t' = i"
proof -
  obtain ts ql where q: "map_of (em_queues s) q = Some ts" "map_of (em_locks s) q = Some ql" "queue_ok q ts ql"
    "1 \<le> ql_dependents ql" "tasks_at s q = map_of (ts_byID ts)"
    by (rule held_queue[OF assms]) auto
  have wf: "wf_ch (ql_heap ql)" and v: "ch_view (ql_heap ql) = (\<lambda>i. map_option t_At (map_of (ts_byID ts) i))"
    and c: "ch_of q (ql_heap ql)" and ts: "ts_ok ts"
    using q(3) by (simp_all add: queue_ok_def)
  note av = arrived_available[OF q(3,5)]
  have none: "claim_locked draw now q cq s = Inr (None, s)"
    if "RandomAvailable draw (ql_heap ql) now = None" for draw
    using that by (simp add: claim_locked_def q)
  have empty: "available s q now = {}" if "RandomAvailable draw (ql_heap ql) now = None" for draw
    using that RandomAvailable_None[OF wf] av by simp
  have some: "\<exists>s' t. claim_locked draw now q cq s = Inr (Some (claim_task cq now t), s') \<and> lk s' \<and> deps s' = deps s \<and>
      same_docs s s' \<and> claim_outcome cq now q s (Some (claim_task cq now t)) s' \<and> t_ID t = ci_id (ch_mem (ql_heap ql) ! p)"
    if p: "RandomAvailable draw (ql_heap ql) now = Some p" for draw p
  proof -
    let ?i = "ci_id (ch_mem (ql_heap ql) ! p)"
    have r: "map_of (ch_byID (ql_heap ql)) ?i = Some p" "?i \<in> available s q now"
      using RandomAvailable_Some[OF wf p] av by auto
    then obtain t where t: "map_of (ts_byID ts) ?i = Some t" "t_At t \<le> now"
      using q(5) by (auto simp: available_def)
    have tid: "t_ID t = ?i" using ts t(1) by (auto simp: ts_ok_def)
    obtain h where h: "UpdateItem (ql_heap ql) p (now + cq_Duration cq) = Inr h" "wf_ch h"
      "ch_view h = (ch_view (ql_heap ql))(?i \<mapsto> now + cq_Duration cq)" "\<forall>q. ch_of q (ql_heap ql) \<longrightarrow> ch_of q h"
      by (rule UpdateItem_ok[OF wf r(1)])
    let ?t = "claim_task cq now t" and ?ts = "ts\<lparr>ts_byID := gm_set ?i (claim_task cq now t) (ts_byID ts)\<rparr>"
    have u: "ts_Update ?i (claim_task cq now) ts = Inr ?ts"
      using t by (simp add: ts_Update_def)
    have tsok: "ts_ok ?ts" using ts u by (rule ts_ok_Update) simp
    have "queue_ok q ?ts (ql\<lparr>ql_heap := h\<rparr>)"
      using q(3) h v c tsok t(1) by (auto simp: queue_ok_def fun_eq_iff)
    from write_queue_ok[OF assms(1) q(2,4) this] show ?thesis
      using q p h(1) u t tid
      by (intro exI[of _ "appendJournal (Some (claim_journal cq ?t)) [] (set_queue q ?ts (set_lock q (ql\<lparr>ql_heap := h\<rparr>) s))"] exI[of _ t])
        (auto simp: claim_locked_def Let_def claim_outcome_def same_docs_simps)
  qed
  show "\<exists>r s'. claim_locked draw now q cq s = Inr (r, s') \<and> lk s' \<and> deps s' = deps s \<and> same_docs s s' \<and>
    claim_outcome cq now q s r s'"
  proof (cases "RandomAvailable draw (ql_heap ql) now")
    case None
    from none[OF this] empty[OF this] show ?thesis
      using assms(1) by (simp add: claim_outcome_def same_docs_simps)
  next
    case (Some p)
    from some[OF this] show ?thesis by blast
  qed
  show "\<exists>draw t' s'. claim_locked draw now q cq s = Inr (Some t', s') \<and> t_ID t' = i" if "i \<in> available s q now"
    using RandomAvailable_fair[OF wf, of i now] some that av by fastforce
qed

text \<open>A claim keeps which IDs are in which queue.\<close>

lemma claim_outcome_dom:
  assumes "claim_outcome cq now q s r s'"
  shows "tasks_at s' x i = None \<longleftrightarrow> tasks_at s x i = None"
  using assms by (auto simp: claim_outcome_def split: option.splits if_splits)

lemma claim_outcome_cong:
  "tasks_at s0 = tasks_at s \<Longrightarrow> tasks_at s1 = tasks_at s' \<Longrightarrow> claim_outcome cq now q s r s' \<Longrightarrow> claim_outcome cq now q s0 r s1"
  by (simp add: claim_outcome_def available_def split: option.splits)

lemma claim_outcome_wf:
  assumes "claim_outcome cq now q s r s'" "wf_mem s" "lk s'" "deps s' = deps s" "same_docs s s'"
  shows "wf_mem s'"
  using assms(2-5) claim_outcome_dom[OF assms(1)] by (auto simp: wf_mem_def qByID_ok_def same_docs_def named_def)

lemma queueLen_zero:
  assumes "wf_queues s" "queueLen q s = 0"
  shows "tasks_at s q = Map.empty"
  by (cases rule: wf_queues_cases[OF assms(1), of q])
    (use assms(2) ts_empty in \<open>auto simp: queueLen_def tasks_at_def queue_ok_def ts_Len_def\<close>)

lemma mustTryClaimOne_ok:
  assumes "wf_mem s"
  shows "\<exists>r s'. mustTryClaimOne draw now q cq s = Inr (r, s') \<and> wf_mem s' \<and> same_docs s s' \<and> claim_outcome cq now q s r s'"
    and "i \<in> available s q now \<Longrightarrow> \<exists>draw t' s'. mustTryClaimOne draw now q cq s = Inr (Some t', s') \<and> t_ID t' = i"
proof -
  have lks: "lk s" and d0: "deps s = (\<lambda>_. 0)" using assms by (auto simp: wf_mem_def)
  obtain s1 where s1: "lockQueues [q] s = Inr (sort [q], s1)" "lk s1" "tasks_at s1 = tasks_at s"
    "deps s1 = (\<lambda>x. deps s x + of_bool (x \<in> set [q]))" "same_rest s s1"
    by (rule lockQueues_ok[OF lks, of "[q]"]) auto
  have held1: "held s1 [q]" using s1(4) d0 by (simp add: held_def)
  have av1: "available s1 q now = available s q now" using s1(3) by (simp add: available_def)
  have fin: "\<exists>s'. mustTryClaimOne draw now q cq s = Inr (r, s') \<and> wf_mem s' \<and> same_docs s s' \<and> claim_outcome cq now q s r s'"
    if l: "queueLen q s \<noteq> 0" and c: "claim_locked draw now q cq s1 = Inr (r, s2)" for draw r s2
  proof -
    have 2: "lk s2" "deps s2 = deps s1" "same_docs s1 s2" "claim_outcome cq now q s1 r s2"
      using claim_locked_ok(1)[OF s1(2) held1, of draw now cq] c by auto
    have 3: "lk (unlockQueues [q] s2)" "tasks_at (unlockQueues [q] s2) = tasks_at s2"
      "deps (unlockQueues [q] s2) = deps s" "same_rest s2 (unlockQueues [q] s2)"
      using unlockQueues_ok[OF 2(1), of "[q]"] 2(2) s1(4) d0 by (auto simp: fun_eq_iff)
    have o: "claim_outcome cq now q s r (unlockQueues [q] s2)"
      by (rule claim_outcome_cong[OF s1(3)[symmetric] 3(2) 2(4)])
    have "same_docs s (unlockQueues [q] s2)"
      using same_docs_simps(2)[OF s1(5)] 2(3) same_docs_simps(2)[OF 3(4)] by (blast intro: same_docs_trans)
    with o 3 show ?thesis
      using claim_outcome_wf[OF o assms] l s1(1) c by (simp add: mustTryClaimOne_def)
  qed
  show "\<exists>r s'. mustTryClaimOne draw now q cq s = Inr (r, s') \<and> wf_mem s' \<and> same_docs s s' \<and> claim_outcome cq now q s r s'"
  proof (cases "queueLen q s = 0")
    case True
    with queueLen_zero[OF _ True] lks assms show ?thesis
      by (simp add: mustTryClaimOne_def claim_outcome_def available_def lk_def same_docs_simps)
  next
    case False
    with claim_locked_ok(1)[OF s1(2) held1, of draw now cq] fin show ?thesis by blast
  qed
  show "\<exists>draw t' s'. mustTryClaimOne draw now q cq s = Inr (Some t', s') \<and> t_ID t' = i" if i: "i \<in> available s q now"
  proof -
    from i have "queueLen q s \<noteq> 0"
      using queueLen_zero[of s q] lks by (auto simp: available_def lk_def)
    with claim_locked_ok(2)[OF s1(2) held1, of i now cq] fin i av1 show ?thesis by blast
  qed
qed

section \<open>TryClaim\<close>

lemma try_queues_ok:
  assumes "wf_mem s"
  shows "\<exists>r s'. try_queues draw now cq qs s = Inr (r, s') \<and> wf_mem s' \<and> same_docs s s' \<and>
    (case r of
       None \<Rightarrow> tasks_at s' = tasks_at s \<and> (\<forall>q \<in> set qs. available s q (now q) = {})
     | Some t' \<Rightarrow> \<exists>q \<in> set qs. claim_outcome cq (now q) q s r s')"
  using assms
proof (induction qs arbitrary: s)
  case Nil
  then show ?case by (simp add: same_docs_simps)
next
  case (Cons q qs)
  from mustTryClaimOne_ok(1)[OF Cons.prems] obtain r1 s1 where 1: "mustTryClaimOne (draw q) (now q) q cq s = Inr (r1, s1)"
    "wf_mem s1" "same_docs s s1" "claim_outcome cq (now q) q s r1 s1" by blast
  show ?case
  proof (cases r1)
    case (Some t)
    with 1 show ?thesis by auto
  next
    case None
    with 1 have e: "tasks_at s1 = tasks_at s" "available s q (now q) = {}" by (simp_all add: claim_outcome_def)
    from Cons.IH[OF 1(2)] obtain r s' where r: "try_queues draw now cq qs s1 = Inr (r, s')" "wf_mem s'" "same_docs s1 s'"
      "case r of
         None \<Rightarrow> tasks_at s' = tasks_at s1 \<and> (\<forall>q \<in> set qs. available s1 q (now q) = {})
       | Some t' \<Rightarrow> \<exists>q \<in> set qs. claim_outcome cq (now q) q s1 r s'" by blast
    have "claim_outcome cq (now x) x s r s'" if "claim_outcome cq (now x) x s1 r s'" for x
      by (rule claim_outcome_cong[OF e(1)[symmetric] refl that])
    with r 1 None e same_docs_trans[OF 1(3) r(3)] show ?thesis
      by (auto simp: available_def split: option.splits)
  qed
qed

lemma claim_outcome_store:
  assumes "claim_outcome cq now q s (Some t') s'" "wf_mem s" "wf_mem s'"
  shows "\<exists>t. store s (t_ID t') = Some t \<and> t_Queue t = q \<and> t_At t \<le> now \<and> t' = claim_task cq now t \<and>
    store s' = (store s)(t_ID t' \<mapsto> t')"
proof -
  obtain t where t: "tasks_at s q (t_ID t') = Some t" "t_At t \<le> now" "t' = claim_task cq now t"
    "tasks_at s' = (tasks_at s)(q := (tasks_at s q)(t_ID t' \<mapsto> t'))"
    using assms(1) by (auto simp: claim_outcome_def)
  have tq: "t_Queue t = q" using tasks_at_task[OF _ t(1)] assms(2) by (simp add: wf_mem_def lk_def)
  have "store s' i = ((store s)(t_ID t' \<mapsto> t')) i" for i
  proof (cases "i = t_ID t'")
    case True
    then show ?thesis using store_Some[OF assms(3), of i t'] t tq by simp
  next
    case False
    then have "tasks_at s' x i = tasks_at s x i" for x using t(4) by auto
    then have "store s' i = Some u \<longleftrightarrow> store s i = Some u" for u
      by (simp add: store_Some[OF assms(2)] store_Some[OF assms(3)])
    with False show ?thesis by (cases "store s i") auto
  qed
  then have "store s' = (store s)(t_ID t' \<mapsto> t')" by blast
  moreover have "store s (t_ID t') = Some t" using store_Some[OF assms(2)] t(1) tq by simp
  ultimately show ?thesis using t tq by blast
qed

text \<open>What a claim from the queues \<open>qs\<close> does to the tasks by ID.\<close>

definition claim_result :: "ClaimQuery \<Rightarrow> (string \<Rightarrow> time) \<Rightarrow> string set \<Rightarrow> ('dt, 'lt) EQMem \<Rightarrow> Task option \<Rightarrow> ('dt, 'lt) EQMem \<Rightarrow> bool" where
  "claim_result cq now qs s r s' \<longleftrightarrow>
     (case r of
        None \<Rightarrow> tasks_at s' = tasks_at s \<and> (\<forall>q \<in> qs. available s q (now q) = {})
      | Some t' \<Rightarrow> \<exists>t. store s (t_ID t') = Some t \<and> t_Queue t \<in> qs \<and> t_At t \<le> now (t_Queue t) \<and>
          t' = claim_task cq (now (t_Queue t)) t \<and> store s' = (store s)(t_ID t' \<mapsto> t'))"

lemma TryClaim_Inr:
  assumes "wf_mem s" "validate_Claim cq = None"
  obtains r s' where "TryClaim shuffle draw now cq s = Inr (r, s')" "wf_mem s'" "same_docs s s'"
    "claim_result cq now (set (shuffle (cq_Queues cq))) s r s'"
proof -
  from try_queues_ok[OF assms(1), of draw now cq "shuffle (cq_Queues cq)"] obtain r s' where
    r: "try_queues draw now cq (shuffle (cq_Queues cq)) s = Inr (r, s')" "wf_mem s'" "same_docs s s'"
    "case r of
       None \<Rightarrow> tasks_at s' = tasks_at s \<and> (\<forall>q \<in> set (shuffle (cq_Queues cq)). available s q (now q) = {})
     | Some t' \<Rightarrow> \<exists>q \<in> set (shuffle (cq_Queues cq)). claim_outcome cq (now q) q s r s'" by blast
  have "claim_result cq now (set (shuffle (cq_Queues cq))) s r s'"
    using claim_outcome_store[OF _ assms(1) r(2)] r(4) by (fastforce simp: claim_result_def split: option.splits)
  with that[OF _ r(2,3)] r show thesis by (simp add: TryClaim_def assms(2))
qed

lemma store_cong:
  assumes "wf_mem s" "wf_mem s'" "tasks_at s' = tasks_at s"
  shows "store s' = store s"
proof
  show "store s' i = store s i" for i
    using store_Some[OF assms(1), of i] store_Some[OF assms(2), of i] assms(3) by (cases "store s i") auto
qed

lemma available_store:
  "wf_mem s \<Longrightarrow> i \<in> available s q now \<longleftrightarrow> (\<exists>t. store s i = Some t \<and> t_Queue t = q \<and> t_At t \<le> now)"
  by (auto simp: available_def tasks_at_store split: option.splits if_splits)

text \<open>A backend with one queue and one task, which arrived at 5.\<close>

definition ex_claimable :: Task where
  "ex_claimable = zero_Task\<lparr>t_ID := ''a'', t_Queue := ''q'', t_At := 5\<rparr>"

definition ex_mem :: "(unit, unit) EQMem" where
  "ex_mem = (new_EQMem False)\<lparr>
     em_queues := [(''q'', ts_Set ''a'' ex_claimable (newTaskQueue ''q''))],
     em_locks := [(''q'', \<lparr>ql_queue = ''q'', ql_heap = PushItem newClaimHeap (newItem ''q'' ''a'' 5), ql_dependents = 0\<rparr>)],
     em_qByID := [(''a'', ''q'')]\<rparr>"

lemma ex_mem_ok: "wf_mem ex_mem" "store ex_mem = [''a'' \<mapsto> ex_claimable]"
proof -
  have "queue_ok ''q'' (ts_Set ''a'' ex_claimable (newTaskQueue ''q''))
      \<lparr>ql_queue = ''q'', ql_heap = PushItem newClaimHeap (newItem ''q'' ''a'' 5), ql_dependents = 0\<rparr>"
    using PushItem_ok[of newClaimHeap "newItem ''q'' ''a'' 5"] wf_newClaimHeap
    by (auto simp: queue_ok_def ts_ok_Set newItem_def ex_claimable_def ch_of_def newClaimHeap_def ch_view_def fun_eq_iff)
  then show "wf_mem ex_mem"
    by (auto simp: wf_mem_def lk_def wf_queues_def live_def qByID_ok_def named_def deps_def tasks_at_def ex_mem_def ex_claimable_def
        new_EQMem_def ts_Set_def newTaskQueue_def gm_ok_def)
  show "store ex_mem = [''a'' \<mapsto> ex_claimable]"
    by (auto simp: store_def tasks_at_def ex_mem_def new_EQMem_def ts_Set_def newTaskQueue_def)
qed

definition ex_query :: ClaimQuery where
  "ex_query = \<lparr>cq_Queues = [''q''], cq_Claimant = ''me'', cq_Duration = 10, cq_PollTime = 0\<rparr>"

lemma ex_query_ok: "validate_Claim ex_query = None" "cq_Queues ex_query = [''q'']" "cq_Duration ex_query = 10"
  by code_simp (simp_all add: ex_query_def)

section \<open>Properties of claims\<close>

text \<open>
  C11: TryClaim with a valid query on a well-formed backend never panics and leaves it well-formed.
  It returns no task only when no task of the queues named has arrived, and then changes nothing.
  Otherwise it takes one that had arrived, moves its arrival time to the end of the lease, sets
  the claimant, adds one to its version and its claims, and changes no other task and no doc.
\<close>

theorem TryClaim_spec:
  assumes "wf_mem s" "validate_Claim cq = None" "mset (shuffle (cq_Queues cq)) = mset (cq_Queues cq)"
  shows "\<exists>r s'. TryClaim shuffle draw now cq s = Inr (r, s') \<and> wf_mem s' \<and> em_namespaces s' = em_namespaces s \<and>
    (case r of
       None \<Rightarrow> store s' = store s \<and>
         (\<forall>i t. store s i = Some t \<longrightarrow> t_Queue t \<in> set (cq_Queues cq) \<longrightarrow> now (t_Queue t) < t_At t)
     | Some t' \<Rightarrow> \<exists>i t. store s i = Some t \<and> t_Queue t \<in> set (cq_Queues cq) \<and> t_At t \<le> now (t_Queue t) \<and>
         t' = t\<lparr>t_Value := copy_bytes (t_Value t), t_At := now (t_Queue t) + cq_Duration cq, t_Claimant := cq_Claimant cq,
           t_Version := t_Version t + 1, t_Claims := t_Claims t + 1, t_Modified := now (t_Queue t)\<rparr> \<and>
         store s' = (store s)(i \<mapsto> t'))"
proof -
  obtain r s' where r: "TryClaim shuffle draw now cq s = Inr (r, s')" "wf_mem s'" "same_docs s s'"
    "claim_result cq now (set (shuffle (cq_Queues cq))) s r s'"
    by (rule TryClaim_Inr[OF assms(1,2), of shuffle draw now])
  have sh: "set (shuffle (cq_Queues cq)) = set (cq_Queues cq)" using assms(3) mset_eq_setD by blast
  show ?thesis
  proof (cases r)
    case None
    with r(4) sh have "available s q (now q) = {}" if "q \<in> set (cq_Queues cq)" for q
      using that by (simp add: claim_result_def)
    then have "\<forall>i t. store s i = Some t \<longrightarrow> t_Queue t \<in> set (cq_Queues cq) \<longrightarrow> now (t_Queue t) < t_At t"
      using available_store[OF assms(1)] by (fastforce simp: not_le[symmetric])
    with None r store_cong[OF assms(1) r(2)] show ?thesis by (simp add: same_docs_def claim_result_def)
  next
    case (Some t')
    with r(4) sh obtain t where t: "store s (t_ID t') = Some t" "t_Queue t \<in> set (cq_Queues cq)"
      "t_At t \<le> now (t_Queue t)" "t' = claim_task cq (now (t_Queue t)) t" "store s' = (store s)(t_ID t' \<mapsto> t')"
      by (auto simp: claim_result_def)
    show ?thesis
      unfolding r(1) using Some r(2,3) t
      by (auto simp: same_docs_def claim_task_def[unfolded Task_Copy_def] intro!: exI[of _ "t_ID t"] exI[of _ t])
  qed
qed

theorem TryClaim_spec_witness:
  "\<exists>t' s'. TryClaim (\<lambda>qs. qs) (\<lambda>_ _. (True, True)) (\<lambda>_. 6) ex_query ex_mem = Inr (Some t', s') \<and>
     t_Claimant t' = ''me'' \<and> t_At t' = 16 \<and> store s' = [''a'' \<mapsto> t']"
proof -
  have "t_Queue ex_claimable = ''q''" "t_At ex_claimable = 5" by (simp_all add: ex_claimable_def)
  then show ?thesis
    using TryClaim_spec[of ex_mem ex_query "\<lambda>qs. qs" "\<lambda>_ _. (True, True)" "\<lambda>_. 6"] ex_mem_ok ex_query_ok
    by (auto simp: ex_query_def split: option.splits if_splits)
qed

text \<open>A sequence of calls of TryClaim: what each returns. A call that fails changes nothing.\<close>

type_synonym claim_call = "(string list \<Rightarrow> string list) \<times> (string \<Rightarrow> nat \<Rightarrow> bool \<times> bool) \<times> (string \<Rightarrow> time) \<times> ClaimQuery"

fun run_claims :: "claim_call list \<Rightarrow> ('dt, 'lt) EQMem \<Rightarrow> Task option list" where
  "run_claims [] s = []"
| "run_claims ((shuffle, draw, now, cq) # cs) s =
     (case TryClaim shuffle draw now cq s of
        Inl _ \<Rightarrow> None # run_claims cs s
      | Inr (r, s') \<Rightarrow> r # run_claims cs s')"

definition call_now :: "claim_call \<Rightarrow> string \<Rightarrow> time" where
  "call_now = (\<lambda>(_, _, now, _). now)"

lemma validate_Claim_pos: "validate_Claim cq = None \<Longrightarrow> 0 < cq_Duration cq"
  by (auto simp: validate_Claim_def ClaimQuery_Validate_def err_or_def split: if_splits option.splits)

lemma TryClaim_cases:
  assumes "wf_mem s"
  obtains e where "TryClaim shuffle draw now cq s = Inl e"
  | s' where "TryClaim shuffle draw now cq s = Inr (None, s')" "wf_mem s'" "store s' = store s"
  | t t' s' where "TryClaim shuffle draw now cq s = Inr (Some t', s')" "wf_mem s'" "store s (t_ID t') = Some t"
      "t_At t \<le> now (t_Queue t')" "t_At t < t_At t'" "store s' = (store s)(t_ID t' \<mapsto> t')"
proof (cases "validate_Claim cq")
  case (Some e)
  then show thesis using that(1) by (simp add: TryClaim_def)
next
  case None
  obtain r s' where r: "TryClaim shuffle draw now cq s = Inr (r, s')" "wf_mem s'" "same_docs s s'"
    "claim_result cq now (set (shuffle (cq_Queues cq))) s r s'"
    by (rule TryClaim_Inr[OF assms None, of shuffle draw now])
  show thesis
  proof (cases r)
    case None
    with r store_cong[OF assms r(2)] show thesis by (intro that(2)[of s']) (auto simp: claim_result_def)
  next
    case (Some t')
    with r obtain t where "store s (t_ID t') = Some t" "t_At t \<le> now (t_Queue t)"
      "t' = claim_task cq (now (t_Queue t)) t" "store s' = (store s)(t_ID t' \<mapsto> t')"
      by (auto simp: claim_result_def)
    with r Some validate_Claim_pos[OF None] show thesis by (intro that(3)[of t' s' t]) auto
  qed
qed

lemma lease_kept:
  assumes "wf_mem s" "store s i = Some t" "j < length cs" "run_claims cs s ! j = Some u" "t_ID u = i"
  shows "t_At t \<le> call_now (cs ! j) (t_Queue u)"
  using assms
proof (induction cs arbitrary: s t j)
  case (Cons c cs)
  obtain shuffle draw now cq where c: "c = (shuffle, draw, now, cq)" by (cases c)
  show ?case
  proof (cases rule: TryClaim_cases[OF Cons.prems(1), of shuffle draw now cq])
    case (1 e)
    with Cons c show ?thesis by (cases j) auto
  next
    case (2 s')
    with Cons c show ?thesis by (cases j) auto
  next
    case (3 t0 t' s')
    show ?thesis
    proof (cases j)
      case 0
      with 3 Cons.prems c show ?thesis by (simp add: call_now_def)
    next
      case (Suc k)
      have u: "run_claims cs s' ! k = Some u" "k < length cs" using Suc 3 Cons.prems c by auto
      show ?thesis
      proof (cases "i = t_ID t'")
        case True
        with Cons.IH[OF 3(2) _ u(2,1)] 3 Cons.prems Suc show ?thesis by fastforce
      next
        case False
        with Cons.IH[OF 3(2) _ u(2,1)] 3 Cons.prems Suc show ?thesis by simp
      qed
    qed
  qed
qed simp

text \<open>
  In any sequence of calls of TryClaim, by any claimants at any instants, a task that one of
  them returns is returned by no later call before its lease has ended: the instant of the later
  call has reached the arrival time that the earlier one gave the task.
\<close>

theorem claims_exclusive:
  assumes "wf_mem s" "i < j" "j < length cs" "run_claims cs s ! i = Some t" "run_claims cs s ! j = Some u" "t_ID u = t_ID t"
  shows "t_At t \<le> call_now (cs ! j) (t_Queue u)"
  using assms
proof (induction cs arbitrary: s i j)
  case (Cons c cs)
  obtain shuffle draw now cq where c: "c = (shuffle, draw, now, cq)" by (cases c)
  from Cons.prems obtain k where k: "j = Suc k" by (cases j) auto
  show ?case
  proof (cases i)
    case 0
    show ?thesis
    proof (cases rule: TryClaim_cases[OF Cons.prems(1), of shuffle draw now cq])
      case (3 t0 t' s')
      with Cons.prems c k 0 lease_kept[OF 3(2), of "t_ID t" t k cs u] show ?thesis by simp
    qed (use Cons.prems c k 0 in auto)
  next
    case (Suc l)
    show ?thesis
      by (cases rule: TryClaim_cases[OF Cons.prems(1), of shuffle draw now cq])
        (use Cons c k Suc in auto)
  qed
qed simp

definition ex_calls :: "claim_call list" where
  "ex_calls = [(\<lambda>qs. qs, \<lambda>_ _. (True, True), \<lambda>_. 6, ex_query), (\<lambda>qs. qs, \<lambda>_ _. (True, True), \<lambda>_. 20, ex_query)]"

theorem claims_exclusive_witness:
  "\<exists>t u. run_claims ex_calls ex_mem = [Some t, Some u] \<and> t_ID u = t_ID t \<and> t_At t = 16 \<and> t_At t \<le> 20"
proof -
  have "map (map_option (\<lambda>t. (t_ID t, t_At t))) (run_claims ex_calls ex_mem) = [Some (''a'', 16), Some (''a'', 30)]"
    by code_simp
  then obtain t u where r: "run_claims ex_calls ex_mem = [Some t, Some u]" "t_ID u = t_ID t" "t_At t = 16"
    by (auto simp: map_eq_Cons_conv)
  from claims_exclusive[OF ex_mem_ok(1), of 0 1 ex_calls t u] r show ?thesis
    by (simp add: ex_calls_def call_now_def)
qed

text \<open>
  C12: no task that has arrived is starved by the way TryClaim chooses: whatever else the queues
  hold, some order of the queues and some draws make it return that very task.
\<close>

theorem TryClaim_can_return:
  assumes "wf_mem s" "validate_Claim cq = None" "store s i = Some t" "t_Queue t \<in> set (cq_Queues cq)"
    "t_At t \<le> now (t_Queue t)"
  shows "\<exists>shuffle draw t' s'. (\<forall>qs. mset (shuffle qs) = mset qs) \<and>
    TryClaim shuffle draw now cq s = Inr (Some t', s') \<and> t_ID t' = i"
proof -
  let ?q = "t_Queue t"
  let ?shuffle = "\<lambda>qs. if ?q \<in> set qs then ?q # remove1 ?q qs else qs"
  have "i \<in> available s ?q (now ?q)" using available_store[OF assms(1)] assms(3,5) by blast
  from mustTryClaimOne_ok(2)[OF assms(1) this] obtain draw t' s' where
    d: "mustTryClaimOne draw (now ?q) ?q cq s = Inr (Some t', s')" "t_ID t' = i" by blast
  moreover have "\<forall>qs. mset (?shuffle qs) = mset qs" by simp
  ultimately show ?thesis
    using assms(2,4) by (intro exI[of _ ?shuffle] exI[of _ "\<lambda>_. draw"] exI[of _ t'] exI[of _ s'])
      (simp add: TryClaim_def)
qed

theorem TryClaim_can_return_witness:
  "\<exists>shuffle draw t' s'. (\<forall>qs. mset (shuffle qs) = mset qs) \<and>
    TryClaim shuffle draw (\<lambda>_. 6) ex_query ex_mem = Inr (Some t', s') \<and> t_ID t' = ''a''"
  by (rule TryClaim_can_return[of ex_mem ex_query "''a''" ex_claimable "\<lambda>_. 6"])
    (simp_all add: ex_mem_ok ex_query_ok, simp_all add: ex_claimable_def)

end
