(* ===== verification/EQMemTasks.thy ===== *)
theory EQMemTasks
  imports EQMemClaim
begin

text \<open>
  Modify of the in-memory backend on tasks: it finds the tasks named, applies all of the
  operations or none, and keeps the invariant. The effect is that of one update of the map from
  IDs to tasks.
\<close>

section \<open>Tasks by ID while a modification runs\<close>

text \<open>The part of a map from IDs to tasks that is in queue \<open>q\<close>.\<close>

definition at_queue :: "(string \<rightharpoonup> Task) \<Rightarrow> string \<Rightarrow> string \<rightharpoonup> Task" where
  "at_queue M q i = (case M i of Some t \<Rightarrow> if t_Queue t = q then Some t else None | None \<Rightarrow> None)"

text \<open>What the final steps do to the index of queues by ID.\<close>

definition qstep :: "string \<times> string option \<Rightarrow> (string, string) gomap \<Rightarrow> (string, string) gomap" where
  "qstep = (\<lambda>(i, qo) m. case qo of None \<Rightarrow> gm_del i m | Some q \<Rightarrow> gm_set i q m)"

lemma fold_final_step: "fold final_step st s = s\<lparr>em_qByID := fold qstep st (em_qByID s)\<rparr>"
  by (induction st arbitrary: s) (auto simp: final_step_def qstep_def split: option.splits)

lemma final_views [simp]:
  "tasks_at (s\<lparr>em_qByID := m\<rparr>) = tasks_at s" "deps (s\<lparr>em_qByID := m\<rparr>) = deps s" "lk (s\<lparr>em_qByID := m\<rparr>) = lk s"
  by (simp_all add: tasks_at_def[abs_def] deps_def[abs_def] lk_def wf_queues_def live_def)

text \<open>
  From the state \<open>s0\<close>, in which the queues \<open>byQ\<close> were locked, a modification has come to the
  state \<open>s\<close> with the final steps \<open>st\<close> to do, and the tasks by ID are \<open>M\<close>.
\<close>

definition work :: "string list \<Rightarrow> ('dt, 'lt) EQMem \<Rightarrow> ('dt, 'lt) EQMem \<times> steps \<Rightarrow> (string \<rightharpoonup> Task) \<Rightarrow> bool" where
  "work byQ s0 = (\<lambda>(s, st) M. lk s \<and> held s byQ \<and> deps s = deps s0 \<and> same_rest s0 s \<and>
     tasks_at s = at_queue M \<and> gm_ok (fold qstep st (em_qByID s0)) \<and>
     map_of (fold qstep st (em_qByID s0)) = (\<lambda>i. map_option t_Queue (M i)))"

lemma work_delete:
  assumes "work byQ s0 x M" "q \<in> set byQ" "\<forall>t. M i = Some t \<longrightarrow> t_Queue t = q"
  shows "\<exists>x'. deleteID byQ q i x = Inr x' \<and> work byQ s0 x' (M(i := None))"
proof -
  obtain s st where x: "x = (s, st)" by (cases x)
  have w: "lk s" "held s byQ" "deps s = deps s0" "same_rest s0 s" "tasks_at s = at_queue M"
    "gm_ok (fold qstep st (em_qByID s0))" "map_of (fold qstep st (em_qByID s0)) = (\<lambda>i. map_option t_Queue (M i))"
    using assms(1) x by (simp_all add: work_def)
  from delete_ok[OF w(1,2) assms(2), of i st] obtain s' where s': "deleteID byQ q i (s, st) = Inr (s', st @ [(i, None)])"
    "lk s'" "tasks_at s' = (tasks_at s)(q := (tasks_at s q)(i := None))" "deps s' = deps s" "same_rest s s'" by blast
  have "tasks_at s' = at_queue (M(i := None))"
    using s'(3) w(5) assms(3) by (auto simp: at_queue_def fun_eq_iff split: option.splits)
  with s' w x show ?thesis
    by (auto simp: work_def held_def qstep_def fun_eq_iff intro: same_rest_trans)
qed

lemma work_insert:
  assumes "work byQ s0 x M" "t_Queue t \<in> set byQ" "M (t_ID t) = None"
  shows "\<exists>x'. insertTask byQ t x = Inr x' \<and> work byQ s0 x' (M(t_ID t \<mapsto> t))"
proof -
  obtain s st where x: "x = (s, st)" by (cases x)
  have w: "lk s" "held s byQ" "deps s = deps s0" "same_rest s0 s" "tasks_at s = at_queue M"
    "gm_ok (fold qstep st (em_qByID s0))" "map_of (fold qstep st (em_qByID s0)) = (\<lambda>i. map_option t_Queue (M i))"
    using assms(1) x by (simp_all add: work_def)
  have "tasks_at s (t_Queue t) (t_ID t) = None" using w(5) assms(3) by (simp add: at_queue_def)
  from insert_ok[OF w(1,2) assms(2) this, of st] obtain s' where
    s': "insertTask byQ t (s, st) = Inr (s', st @ [(t_ID t, Some (t_Queue t))])" "lk s'"
    "tasks_at s' = (tasks_at s)(t_Queue t := (tasks_at s (t_Queue t))(t_ID t \<mapsto> t))" "deps s' = deps s" "same_rest s s'" by blast
  have "tasks_at s' = at_queue (M(t_ID t \<mapsto> t))"
    using s'(3) w(5) assms(3) by (auto simp: at_queue_def fun_eq_iff split: option.splits)
  with s' w x show ?thesis
    by (auto simp: work_def held_def qstep_def fun_eq_iff intro: same_rest_trans)
qed

lemma work_update:
  assumes "work byQ s0 x M" "t_Queue t \<in> set byQ" "M (t_ID t) = Some old" "t_Queue old = t_Queue t"
  shows "\<exists>x'. updateTask byQ t x = Inr x' \<and> work byQ s0 x' (M(t_ID t \<mapsto> t))"
proof -
  obtain s st where x: "x = (s, st)" by (cases x)
  have w: "lk s" "held s byQ" "deps s = deps s0" "same_rest s0 s" "tasks_at s = at_queue M"
    "gm_ok (fold qstep st (em_qByID s0))" "map_of (fold qstep st (em_qByID s0)) = (\<lambda>i. map_option t_Queue (M i))"
    using assms(1) x by (simp_all add: work_def)
  have "tasks_at s (t_Queue t) (t_ID t) \<noteq> None" using w(5) assms(3,4) by (simp add: at_queue_def)
  from update_ok[OF w(1,2) assms(2) this, of st] obtain s' where
    s': "updateTask byQ t (s, st) = Inr (s', st)" "lk s'"
    "tasks_at s' = (tasks_at s)(t_Queue t := (tasks_at s (t_Queue t))(t_ID t \<mapsto> t))" "deps s' = deps s" "same_rest s s'" by blast
  have "tasks_at s' = at_queue (M(t_ID t \<mapsto> t))"
    using s'(3) w(5) assms(3,4) by (auto simp: at_queue_def fun_eq_iff split: option.splits)
  with s' w x assms(3,4) show ?thesis
    by (auto simp: work_def held_def fun_eq_iff intro: same_rest_trans)
qed

section \<open>The new tasks\<close>

text \<open>What a change makes of the stored task \<open>old\<close>.\<close>

definition changed_to :: "Modification \<Rightarrow> time \<Rightarrow> Task \<Rightarrow> Task \<Rightarrow> Task" where
  "changed_to md now old c =
     c\<lparr>t_Value := copy_bytes (t_Value c), t_Version := t_Version c + 1,
       t_Claims := (if ResetsClaims md (t_ID c) then 0 else t_Claims old), t_Created := t_Created old,
       t_At := NormalizeArrival (now + t_by c) now,
       t_Claimant := holder (m_Claimant md) (NormalizeArrival (now + t_by c) now) now, t_Modified := now\<rparr>"

lemma changed_to_sel [simp]: "t_ID (changed_to md now old c) = t_ID c" "t_Queue (changed_to md now old c) = t_Queue c"
  by (simp_all add: changed_to_def)

lemma changed_task_eq: "map_of found (t_ID c) = Some old \<Longrightarrow> changed_task md found False now c = Inr (changed_to md now old c)"
  by (simp add: changed_task_def changed_to_def Task_Copy_def Let_def)

lemma inserted_task_sel [simp]:
  "t_ID (inserted_task md replay now td) = td_ID td" "t_Queue (inserted_task md replay now td) = td_Queue td"
  by (simp_all add: inserted_task_def Let_def)

lemma work_change:
  assumes "work byQ s0 x M" "map_of found (t_ID c) = Some old" "M (t_ID c) = Some old"
    "t_FromQueue c = t_Queue old" "t_FromQueue c \<in> set byQ" "t_Queue c \<in> set byQ"
  shows "\<exists>x'. apply_change byQ md found False now c (x, out) = Inr (x', out @ [changed_to md now old c]) \<and>
    work byQ s0 x' (M(t_ID c \<mapsto> changed_to md now old c))"
proof (cases "t_FromQueue c = t_Queue c")
  case True
  with work_update[OF assms(1), of "changed_to md now old c" old] assms show ?thesis
    by (auto simp: apply_change_def changed_task_eq)
next
  case False
  from work_delete[OF assms(1,5), of "t_ID c"] assms obtain x1 where
    x1: "deleteID byQ (t_FromQueue c) (t_ID c) x = Inr x1" "work byQ s0 x1 (M(t_ID c := None))" by auto
  from work_insert[OF x1(2), of "changed_to md now old c"] assms False x1(1) show ?thesis
    by (auto simp: apply_change_def changed_task_eq)
qed

text \<open>The tasks by ID that a modification leaves.\<close>

definition commit_tasks :: "Modification \<Rightarrow> time \<Rightarrow> (string \<rightharpoonup> Task) \<Rightarrow> string \<rightharpoonup> Task" where
  "commit_tasks md now S =
     S |` (- set (map tid_ID (m_Deletes md)))
       ++ map_of (map (\<lambda>c. (t_ID c, changed_to md now (the (S (t_ID c))) c)) (m_Changes md))
       ++ map_of (map (\<lambda>td. (td_ID td, inserted_task md False now td)) (m_Inserts md))"

lemma distinct_key_Cons: "distinct (map f (x # xs)) \<Longrightarrow> \<forall>y \<in> set xs. f y \<noteq> f x"
  by (simp, metis imageI)

lemma map_add_Cons:
  "k \<notin> fst ` set xs \<Longrightarrow> M ++ map_of ((k, v) # xs) = (M(k \<mapsto> v)) ++ map_of xs"
  using map_of_eq_None_iff[of xs k] by (simp add: map_add_upd_left domIff)

lemma work_deletes:
  assumes "work byQ s0 x M" "\<forall>d \<in> set ds. tid_Queue d \<in> set byQ \<and> (\<forall>t. M (tid_ID d) = Some t \<longrightarrow> t_Queue t = tid_Queue d)"
  shows "\<exists>x'. foldE (\<lambda>d. deleteID byQ (tid_Queue d) (tid_ID d)) ds x = Inr x' \<and>
    work byQ s0 x' (M |` (- set (map tid_ID ds)))"
  using assms
proof (induction ds arbitrary: x M)
  case Nil
  then show ?case by (simp add: restrict_map_def)
next
  case (Cons d ds)
  from Cons.prems obtain x1 where x1: "deleteID byQ (tid_Queue d) (tid_ID d) x = Inr x1" "work byQ s0 x1 (M(tid_ID d := None))"
    using work_delete[OF Cons.prems(1), of "tid_Queue d" "tid_ID d"] by auto
  have "\<forall>e \<in> set ds. tid_Queue e \<in> set byQ \<and> (\<forall>t. (M(tid_ID d := None)) (tid_ID e) = Some t \<longrightarrow> t_Queue t = tid_Queue e)"
    using Cons.prems(2) by simp
  from Cons.IH[OF x1(2) this] obtain x2 where
    x2: "foldE (\<lambda>d. deleteID byQ (tid_Queue d) (tid_ID d)) ds x1 = Inr x2"
    "work byQ s0 x2 ((M(tid_ID d := None)) |` (- set (map tid_ID ds)))" by blast
  have "(M(tid_ID d := None)) |` (- set (map tid_ID ds)) = M |` (- set (map tid_ID (d # ds)))"
    by (auto simp: restrict_map_def fun_eq_iff)
  with x1 x2 show ?case by simp
qed

lemma work_changes:
  assumes "work byQ s0 x M" "distinct (map t_ID cs)"
    "\<forall>c \<in> set cs. t_FromQueue c \<in> set byQ \<and> t_Queue c \<in> set byQ \<and>
       (\<exists>old. map_of found (t_ID c) = Some old \<and> M (t_ID c) = Some old \<and> S (t_ID c) = Some old \<and> t_FromQueue c = t_Queue old)"
  shows "\<exists>x'. foldE (apply_change byQ md found False now) cs (x, out) =
      Inr (x', out @ map (\<lambda>c. changed_to md now (the (S (t_ID c))) c) cs) \<and>
    work byQ s0 x' (M ++ map_of (map (\<lambda>c. (t_ID c, changed_to md now (the (S (t_ID c))) c)) cs))"
  using assms
proof (induction cs arbitrary: x M out)
  case (Cons c cs)
  then obtain old where old: "map_of found (t_ID c) = Some old" "M (t_ID c) = Some old" "S (t_ID c) = Some old"
    "t_FromQueue c = t_Queue old" by auto
  let ?n = "changed_to md now old c"
  from Cons.prems(3) old obtain x1 where x1: "apply_change byQ md found False now c (x, out) = Inr (x1, out @ [?n])"
    "work byQ s0 x1 (M(t_ID c \<mapsto> ?n))"
    using work_change[OF Cons.prems(1) old(1,2,4), of md now out] by auto
  note diff = distinct_key_Cons[OF Cons.prems(2)]
  have "distinct (map t_ID cs)" using Cons.prems(2) by simp
  moreover have "\<forall>c' \<in> set cs. t_FromQueue c' \<in> set byQ \<and> t_Queue c' \<in> set byQ \<and>
       (\<exists>old. map_of found (t_ID c') = Some old \<and> (M(t_ID c \<mapsto> ?n)) (t_ID c') = Some old \<and> S (t_ID c') = Some old \<and>
         t_FromQueue c' = t_Queue old)"
    using Cons.prems(3) diff by simp
  ultimately obtain x2 where x2: "foldE (apply_change byQ md found False now) cs (x1, out @ [?n]) =
      Inr (x2, (out @ [?n]) @ map (\<lambda>c. changed_to md now (the (S (t_ID c))) c) cs)"
    "work byQ s0 x2 ((M(t_ID c \<mapsto> ?n)) ++ map_of (map (\<lambda>c. (t_ID c, changed_to md now (the (S (t_ID c))) c)) cs))"
    using Cons.IH[OF x1(2)] by blast
  have e: "M ++ map_of (map (\<lambda>c. (t_ID c, changed_to md now (the (S (t_ID c))) c)) (c # cs)) =
      (M(t_ID c \<mapsto> ?n)) ++ map_of (map (\<lambda>c. (t_ID c, changed_to md now (the (S (t_ID c))) c)) cs)"
    unfolding list.map old(3) option.sel by (rule map_add_Cons) (use diff in auto)
  have f: "foldE (apply_change byQ md found False now) (c # cs) (x, out) =
      Inr (x2, out @ map (\<lambda>c. changed_to md now (the (S (t_ID c))) c) (c # cs))"
    using x1(1) x2(1) old(3) by simp
  show ?case unfolding e f by (intro exI[of _ x2] conjI refl x2(2))
qed simp

lemma work_inserts:
  assumes "work byQ s0 x M" "distinct (map td_ID tds)" "\<forall>td \<in> set tds. td_Queue td \<in> set byQ \<and> M (td_ID td) = None"
  shows "\<exists>x'. foldE (apply_insert byQ md False now) tds (x, out) = Inr (x', out @ map (inserted_task md False now) tds) \<and>
    work byQ s0 x' (M ++ map_of (map (\<lambda>td. (td_ID td, inserted_task md False now td)) tds))"
  using assms
proof (induction tds arbitrary: x M out)
  case (Cons td tds)
  let ?n = "inserted_task md False now td"
  from Cons.prems(3) obtain x1 where x1: "insertTask byQ ?n x = Inr x1" "work byQ s0 x1 (M(td_ID td \<mapsto> ?n))"
    using work_insert[OF Cons.prems(1), of ?n] by auto
  have "distinct (map td_ID tds)" "\<forall>d \<in> set tds. td_Queue d \<in> set byQ \<and> (M(td_ID td \<mapsto> ?n)) (td_ID d) = None"
    using Cons.prems(2,3) distinct_key_Cons[OF Cons.prems(2)] by auto
  with Cons.IH[OF x1(2)] obtain x2 where
    x2: "foldE (apply_insert byQ md False now) tds (x1, out @ [?n]) = Inr (x2, (out @ [?n]) @ map (inserted_task md False now) tds)"
    "work byQ s0 x2 ((M(td_ID td \<mapsto> ?n)) ++ map_of (map (\<lambda>td. (td_ID td, inserted_task md False now td)) tds))"
    by blast
  have e: "M ++ map_of (map (\<lambda>td. (td_ID td, inserted_task md False now td)) (td # tds)) =
      (M(td_ID td \<mapsto> ?n)) ++ map_of (map (\<lambda>td. (td_ID td, inserted_task md False now td)) tds)"
    unfolding list.map by (rule map_add_Cons) (use distinct_key_Cons[OF Cons.prems(2)] in auto)
  have "apply_insert byQ md False now td (x, out) = Inr (x1, out @ [?n])"
    using x1(1) by (simp add: apply_insert_def)
  then have f: "foldE (apply_insert byQ md False now) (td # tds) (x, out) =
      Inr (x2, out @ map (inserted_task md False now) (td # tds))"
    using x2(1) by simp
  show ?case unfolding e f by (intro exI[of _ x2] conjI refl x2(2))
qed simp

text \<open>The operations of a modification that can all be applied to the tasks \<open>S\<close>, the queues they name being locked.\<close>

definition applicable :: "string list \<Rightarrow> Modification \<Rightarrow> (string, Task) gomap \<Rightarrow> (string \<rightharpoonup> Task) \<Rightarrow> bool" where
  "applicable byQ md found S \<longleftrightarrow>
     distinct (map t_ID (m_Changes md) @ map tid_ID (m_Deletes md) @ map td_ID (m_Inserts md)) \<and>
     (\<forall>d \<in> set (m_Deletes md). tid_Queue d \<in> set byQ \<and> (\<exists>t. S (tid_ID d) = Some t \<and> t_Queue t = tid_Queue d)) \<and>
     (\<forall>c \<in> set (m_Changes md). t_FromQueue c \<in> set byQ \<and> t_Queue c \<in> set byQ \<and>
        (\<exists>old. map_of found (t_ID c) = Some old \<and> S (t_ID c) = Some old \<and> t_FromQueue c = t_Queue old)) \<and>
     (\<forall>td \<in> set (m_Inserts md). td_Queue td \<in> set byQ \<and> S (td_ID td) = None)"

lemma apply_tasks_ok:
  assumes "work byQ s (s, []) S" "applicable byQ md found S"
  shows "\<exists>x. apply_tasks byQ md found False now s =
      Inr (x, map (\<lambda>c. changed_to md now (the (S (t_ID c))) c) (m_Changes md), map (inserted_task md False now) (m_Inserts md)) \<and>
    work byQ s x (commit_tasks md now S)"
proof -
  have a: "distinct (map t_ID (m_Changes md))" "distinct (map td_ID (m_Inserts md))"
    "\<forall>d \<in> set (m_Deletes md). tid_Queue d \<in> set byQ \<and> (\<forall>t. S (tid_ID d) = Some t \<longrightarrow> t_Queue t = tid_Queue d)"
    using assms(2) by (auto simp: applicable_def)
  from work_deletes[OF assms(1) a(3)] obtain x1 where
    x1: "foldE (\<lambda>d. deleteID byQ (tid_Queue d) (tid_ID d)) (m_Deletes md) (s, []) = Inr x1"
    "work byQ s x1 (S |` (- set (map tid_ID (m_Deletes md))))" by blast
  have "\<forall>c \<in> set (m_Changes md). t_FromQueue c \<in> set byQ \<and> t_Queue c \<in> set byQ \<and>
      (\<exists>old. map_of found (t_ID c) = Some old \<and> (S |` (- set (map tid_ID (m_Deletes md)))) (t_ID c) = Some old \<and>
        S (t_ID c) = Some old \<and> t_FromQueue c = t_Queue old)"
    using assms(2) by (fastforce simp: applicable_def restrict_map_def)
  from work_changes[OF x1(2) a(1) this, of md now "[]"] obtain x2 where
    x2: "foldE (apply_change byQ md found False now) (m_Changes md) (x1, []) =
      Inr (x2, map (\<lambda>c. changed_to md now (the (S (t_ID c))) c) (m_Changes md))"
    "work byQ s x2 (S |` (- set (map tid_ID (m_Deletes md))) ++
       map_of (map (\<lambda>c. (t_ID c, changed_to md now (the (S (t_ID c))) c)) (m_Changes md)))" by auto
  have "(S |` (- set (map tid_ID (m_Deletes md))) ++
       map_of (map (\<lambda>c. (t_ID c, changed_to md now (the (S (t_ID c))) c)) (m_Changes md))) (td_ID td) = None"
    if "td \<in> set (m_Inserts md)" for td
  proof -
    have "S (td_ID td) = None" "td_ID td \<notin> t_ID ` set (m_Changes md)"
      using assms(2) that by (auto simp: applicable_def)
    then show ?thesis by (simp add: restrict_map_def map_add_None map_of_eq_None_iff image_image)
  qed
  moreover have "\<forall>td \<in> set (m_Inserts md). td_Queue td \<in> set byQ" using assms(2) by (simp add: applicable_def)
  ultimately have "\<forall>td \<in> set (m_Inserts md). td_Queue td \<in> set byQ \<and> (S |` (- set (map tid_ID (m_Deletes md))) ++
       map_of (map (\<lambda>c. (t_ID c, changed_to md now (the (S (t_ID c))) c)) (m_Changes md))) (td_ID td) = None"
    by blast
  from work_inserts[OF x2(2) a(2) this, of md now "[]"] x1(1) x2(1) show ?thesis
    by (auto simp: apply_tasks_def commit_tasks_def)
qed

section \<open>Finding the tasks named\<close>

text \<open>A map from IDs to tasks under their own IDs, in named queues.\<close>

definition typed :: "(string \<rightharpoonup> Task) \<Rightarrow> bool" where
  "typed S \<longleftrightarrow> (\<forall>i t. S i = Some t \<longrightarrow> t_ID t = i \<and> i \<noteq> [] \<and> t_Queue t \<noteq> [])"

lemma typed_store:
  assumes "wf_mem s"
  shows "typed (store s)"
  unfolding typed_def
proof (intro allI impI)
  fix i t assume "store s i = Some t"
  then have t: "tasks_at s (t_Queue t) i = Some t" using store_Some[OF assms] by blast
  with assms tasks_at_task[OF _ t] show "t_ID t = i \<and> i \<noteq> [] \<and> t_Queue t \<noteq> []"
    unfolding wf_mem_def lk_def named_def by (metis option.distinct(1))
qed

lemma lookup_task_eq:
  assumes "lk s" "held s byQ" "tasks_at s = at_queue S" "typed S"
  shows "lookup_task byQ s q i = Some t \<longleftrightarrow> q \<in> set byQ \<and> S i = Some t \<and> t_Queue t = q"
proof (cases "q \<in> set byQ")
  case True
  then obtain ts where "map_of (em_queues s) q = Some ts" "tasks_at s q = map_of (ts_byID ts)"
    by (rule held_queue[OF assms(1,2)]) auto
  then have "lookup_task byQ s q i = (if q = [] \<or> i = [] then None else at_queue S q i)"
    using True assms(3) by (auto simp: lookup_task_def ts_Get_def)
  with assms(4) True show ?thesis by (auto simp: typed_def at_queue_def split: option.splits)
qed (simp add: lookup_task_def)

lemma fold_addFound:
  assumes "\<And>q i t. lookup_task byQ s q i = Some t \<Longrightarrow> S i = Some t \<and> t_ID t = i" "\<And>i t. map_of acc i = Some t \<Longrightarrow> S i = Some t"
  shows "map_of (fold (addFound byQ s) refs acc) i = Some t \<longleftrightarrow>
    map_of acc i = Some t \<or> (\<exists>q. (q, i) \<in> set refs \<and> lookup_task byQ s q i = Some t)"
  using assms(2)
proof (induction refs arbitrary: acc)
  case (Cons r refs)
  obtain q j where r: "r = (q, j)" by (cases r)
  show ?case
  proof (cases "lookup_task byQ s q j")
    case None
    then have "addFound byQ s r acc = acc" by (simp add: addFound_def r)
    with Cons None r show ?thesis by auto
  next
    case (Some u)
    then have u: "S j = Some u" "t_ID u = j" using assms(1) by auto
    have a: "addFound byQ s r acc = gm_set j u acc" using Some u by (simp add: addFound_def r)
    have "map_of (fold (addFound byQ s) refs (gm_set j u acc)) i = Some t \<longleftrightarrow>
        map_of (gm_set j u acc) i = Some t \<or> (\<exists>q. (q, i) \<in> set refs \<and> lookup_task byQ s q i = Some t)"
      by (rule Cons.IH) (use Cons.prems u in \<open>auto split: if_splits\<close>)
    with a r Some Cons.prems[of j] u show ?thesis by (auto split: if_splits)
  qed
qed simp

lemma found_tasks_eq:
  assumes "lk s" "held s byQ" "tasks_at s = at_queue S" "typed S"
    "\<forall>(q, i) \<in> set (task_refs md misplaced). q = [] \<or> q \<in> set byQ"
  shows "map_of (found_tasks byQ s md misplaced) i = Some t \<longleftrightarrow> S i = Some t \<and> (t_Queue t, i) \<in> set (task_refs md misplaced)"
proof -
  have "map_of (found_tasks byQ s md misplaced) i = Some t \<longleftrightarrow>
      (\<exists>q. (q, i) \<in> set (task_refs md misplaced) \<and> lookup_task byQ s q i = Some t)"
    unfolding found_tasks_def
    by (subst fold_addFound[where S = S]) (use assms(4) lookup_task_eq[OF assms(1-4)] in \<open>auto simp: typed_def\<close>)
  with assms(4,5) lookup_task_eq[OF assms(1-4)] show ?thesis by (fastforce simp: typed_def)
qed

definition add_misplaced :: "(string, string) gomap \<Rightarrow> TaskData \<Rightarrow> (string, string) gomap \<Rightarrow> (string, string) gomap" where
  "add_misplaced qb ins m = (if td_ID ins \<noteq> [] then
     (case map_of qb (td_ID ins) of
        Some q \<Rightarrow> if q \<noteq> td_Queue ins then gm_set (td_ID ins) q m else m
      | None \<Rightarrow> m) else m)"

lemma fold_add_misplaced:
  assumes "\<And>j r. map_of acc j = Some r \<Longrightarrow> map_of qb j = Some r"
  shows "map_of (fold (add_misplaced qb) inss acc) i = Some q \<longleftrightarrow>
    map_of acc i = Some q \<or> i \<noteq> [] \<and> map_of qb i = Some q \<and> (\<exists>td \<in> set inss. td_ID td = i \<and> td_Queue td \<noteq> q)"
  using assms
proof (induction inss arbitrary: acc)
  case (Cons td inss)
  show ?case
  proof (cases "td_ID td \<noteq> [] \<and> (\<exists>r. map_of qb (td_ID td) = Some r \<and> r \<noteq> td_Queue td)")
    case True
    then obtain r where r: "map_of qb (td_ID td) = Some r" "r \<noteq> td_Queue td" "td_ID td \<noteq> []" by blast
    then have a: "add_misplaced qb td acc = gm_set (td_ID td) r acc" by (simp add: add_misplaced_def)
    have "map_of (fold (add_misplaced qb) inss (gm_set (td_ID td) r acc)) i = Some q \<longleftrightarrow>
        map_of (gm_set (td_ID td) r acc) i = Some q \<or>
        i \<noteq> [] \<and> map_of qb i = Some q \<and> (\<exists>td \<in> set inss. td_ID td = i \<and> td_Queue td \<noteq> q)"
      by (rule Cons.IH) (use Cons.prems r in \<open>auto split: if_splits\<close>)
    with a r Cons.prems[of "td_ID td"] show ?thesis by (auto split: if_splits)
  next
    case False
    then have "add_misplaced qb td acc = acc" by (auto simp: add_misplaced_def split: option.splits)
    with Cons.IH[OF Cons.prems] False show ?thesis by auto
  qed
qed simp

lemma map_of_misplaced:
  "map_of (misplaced_inserts qb inss) i = Some q \<longleftrightarrow>
     i \<noteq> [] \<and> map_of qb i = Some q \<and> (\<exists>td \<in> set inss. td_ID td = i \<and> td_Queue td \<noteq> q)"
  unfolding misplaced_inserts_def add_misplaced_def[symmetric, abs_def]
  using fold_add_misplaced[of "[]" qb inss i q] by simp

section \<open>Checking the operations on tasks\<close>

text \<open>
  The state in which the tasks of a valid modification are looked up: the queues it names are
  locked, the tasks by ID are \<open>S\<close>, and \<open>qb\<close> is the index that the modification was prepared with.
\<close>

definition prepared :: "string list \<Rightarrow> ('dt, 'lt) EQMem \<Rightarrow> Modification \<Rightarrow> (string, string) gomap \<Rightarrow> (string \<rightharpoonup> Task) \<Rightarrow> bool" where
  "prepared byQ s md qb S \<longleftrightarrow> lk s \<and> held s byQ \<and> tasks_at s = at_queue S \<and> typed S \<and>
     map_of qb = (\<lambda>i. map_option t_Queue (S i)) \<and>
     set byQ = set (mod_queues md (misplaced_inserts qb (m_Inserts md))) \<and> distinct (task_op_ids md) \<and>
     (\<forall>td \<in> set (m_Inserts md). td_ID td \<noteq> [] \<and> td_Queue td \<noteq> []) \<and> (\<forall>c \<in> set (m_Changes md). t_Queue c \<noteq> []) \<and>
     (\<forall>a \<in> set (m_Arrives md). tid_Queue (ta_TaskID a) \<noteq> [])"

abbreviation found_in :: "string list \<Rightarrow> ('dt, 'lt) EQMem \<Rightarrow> Modification \<Rightarrow> (string, string) gomap \<Rightarrow> (string, Task) gomap" where
  "found_in byQ s md qb \<equiv> found_tasks byQ s md (misplaced_inserts qb (m_Inserts md))"

lemma mod_queues_iff:
  "q \<in> set (mod_queues md mis) \<longleftrightarrow> q \<noteq> [] \<and>
     (q \<in> snd ` set mis \<or> q \<in> td_Queue ` set (m_Inserts md) \<or> q \<in> t_FromQueue ` set (m_Changes md) \<or>
      q \<in> t_Queue ` set (m_Changes md) \<or> q \<in> tid_Queue ` set (m_Deletes md) \<or> q \<in> tid_Queue ` set (m_Depends md) \<or>
      q \<in> (\<lambda>a. tid_Queue (ta_TaskID a)) ` set (m_Arrives md))"
  by (simp add: mod_queues_def conj_commute)

lemma task_refs_queue:
  assumes "(q, i) \<in> set (task_refs md mis)"
  shows "q \<in> snd ` set mis \<or> q \<in> td_Queue ` set (m_Inserts md) \<or> q \<in> t_FromQueue ` set (m_Changes md) \<or>
      q \<in> tid_Queue ` set (m_Deletes md) \<or> q \<in> tid_Queue ` set (m_Depends md) \<or>
      q \<in> (\<lambda>a. tid_Queue (ta_TaskID a)) ` set (m_Arrives md)"
proof -
  have "r \<in> snd ` set mis" if "map_of mis j = Some r" for j r
    using map_of_SomeD[OF that] by force
  with assms show ?thesis
    unfolding task_refs_def set_append Un_iff
    by (elim disjE) (auto split: option.splits)
qed

lemma refs_locked:
  assumes "prepared byQ s md qb S" "(q, i) \<in> set (task_refs md (misplaced_inserts qb (m_Inserts md)))"
  shows "q = [] \<or> q \<in> set byQ"
proof -
  have "set byQ = set (mod_queues md (misplaced_inserts qb (m_Inserts md)))" using assms(1) by (simp add: prepared_def)
  then show ?thesis using task_refs_queue[OF assms(2)] by (simp only: mod_queues_iff) blast
qed

lemma found_iff:
  assumes "prepared byQ s md qb S"
  shows "map_of (found_in byQ s md qb) i = Some t \<longleftrightarrow>
    S i = Some t \<and> (t_Queue t, i) \<in> set (task_refs md (misplaced_inserts qb (m_Inserts md)))"
  using assms refs_locked[OF assms] by (intro found_tasks_eq) (auto simp: prepared_def)

text \<open>A task of ID \<open>i\<close> is stored in queue \<open>q\<close>.\<close>

definition in_queue :: "(string \<rightharpoonup> Task) \<Rightarrow> string \<Rightarrow> string \<Rightarrow> Task \<Rightarrow> bool" where
  "in_queue S q i t \<longleftrightarrow> S i = Some t \<and> t_Queue t = q"

lemma found_op:
  assumes "prepared byQ s md qb S" "in_queue S q i t"
    "(q, i) \<in> set (map (\<lambda>d. (tid_Queue d, tid_ID d)) (m_Deletes md) @ map (\<lambda>d. (tid_Queue d, tid_ID d)) (m_Depends md) @
     map (\<lambda>c. (t_FromQueue c, t_ID c)) (m_Changes md) @ map (\<lambda>a. (tid_Queue (ta_TaskID a), tid_ID (ta_TaskID a))) (m_Arrives md))"
  shows "map_of (found_in byQ s md qb) i = Some t"
  unfolding found_iff[OF assms(1)] using assms(2,3) by (auto simp: in_queue_def task_refs_def)

lemma found_insert:
  assumes "prepared byQ s md qb S" "td \<in> set (m_Inserts md)"
  shows "map_of (found_in byQ s md qb) (td_ID td) = S (td_ID td)"
proof (cases "S (td_ID td)")
  case None
  then show ?thesis using found_iff[OF assms(1), of "td_ID td"] by (metis not_Some_eq)
next
  case (Some t)
  have "(t_Queue t, td_ID td) \<in> set (task_refs md (misplaced_inserts qb (m_Inserts md)))"
  proof (cases "t_Queue t = td_Queue td")
    case True
    with assms(2) show ?thesis by (auto simp: task_refs_def)
  next
    case False
    with assms Some have "map_of (misplaced_inserts qb (m_Inserts md)) (td_ID td) = Some (t_Queue t)"
      unfolding map_of_misplaced by (auto simp: prepared_def)
    with assms(2) show ?thesis by (force simp: task_refs_def)
  qed
  with Some found_iff[OF assms(1)] show ?thesis by metis
qed

lemma task_refs_ids:
  assumes "(q, i) \<in> set (task_refs md mis)"
  shows "i \<in> tid_ID ` set (m_Deletes md) \<or> i \<in> tid_ID ` set (m_Depends md) \<or> i \<in> t_ID ` set (m_Changes md) \<or>
      i \<in> td_ID ` set (m_Inserts md) \<or> (\<exists>a \<in> set (m_Arrives md). i = tid_ID (ta_TaskID a) \<and> q = tid_Queue (ta_TaskID a))"
  using assms unfolding task_refs_def set_append Un_iff by (elim disjE) (auto split: option.splits)

lemma distinct_third:
  "distinct (as @ bs @ cs @ ds @ es) \<Longrightarrow> x \<in> set cs \<Longrightarrow> x \<notin> set as \<and> x \<notin> set bs \<and> x \<notin> set ds \<and> x \<notin> set es"
  by auto

lemma task_refs_arrive:
  assumes "distinct (task_op_ids md)" "\<forall>td \<in> set (m_Inserts md). td_ID td \<noteq> []" "a \<in> set (m_Arrives md)"
    "(q, tid_ID (ta_TaskID a)) \<in> set (task_refs md misplaced)"
  shows "q = tid_Queue (ta_TaskID a)"
proof -
  let ?i = "tid_ID (ta_TaskID a)"
  have ins: "filter (\<lambda>i. i \<noteq> []) (map td_ID (m_Inserts md)) = map td_ID (m_Inserts md)"
    using assms(2) by (simp add: filter_id_conv)
  have "?i \<in> set (map (\<lambda>a. tid_ID (ta_TaskID a)) (m_Arrives md))" using assms(3) by simp
  from distinct_third[OF assms(1)[unfolded task_op_ids_def ins] this]
  have "?i \<notin> t_ID ` set (m_Changes md)" "?i \<notin> tid_ID ` set (m_Deletes md)" "?i \<notin> tid_ID ` set (m_Depends md)"
    "?i \<notin> td_ID ` set (m_Inserts md)" by simp_all
  moreover have "distinct (map (\<lambda>a. tid_ID (ta_TaskID a)) (m_Arrives md))"
    using assms(1) by (simp add: task_op_ids_def)
  then have "a' = a" if "a' \<in> set (m_Arrives md)" "?i = tid_ID (ta_TaskID a')" for a'
    using assms(3) that by (auto simp: distinct_map dest: inj_onD)
  ultimately show ?thesis
    using task_refs_ids[OF assms(4)] by blast
qed

lemma found_arrive:
  assumes "prepared byQ s md qb S" "a \<in> set (m_Arrives md)"
  shows "map_of (found_in byQ s md qb) (tid_ID (ta_TaskID a)) = Some t \<longleftrightarrow>
    in_queue S (tid_Queue (ta_TaskID a)) (tid_ID (ta_TaskID a)) t"
proof
  assume "map_of (found_in byQ s md qb) (tid_ID (ta_TaskID a)) = Some t"
  moreover have "distinct (task_op_ids md)" "\<forall>td \<in> set (m_Inserts md). td_ID td \<noteq> []"
    using assms(1) by (simp_all add: prepared_def)
  ultimately show "in_queue S (tid_Queue (ta_TaskID a)) (tid_ID (ta_TaskID a)) t"
    unfolding found_iff[OF assms(1)] in_queue_def using task_refs_arrive[OF _ _ assms(2)] by blast
next
  assume "in_queue S (tid_Queue (ta_TaskID a)) (tid_ID (ta_TaskID a)) t"
  from found_op[OF assms(1) this] assms(2) show "map_of (found_in byQ s md qb) (tid_ID (ta_TaskID a)) = Some t" by auto
qed

text \<open>
  When a modification can be applied to the tasks \<open>S\<close>: its inserts collide with none, and its other
  operations name tasks at their version and in their queue, which no other claimant holds
  unless they only depend on them.
\<close>

definition task_op_ok :: "Modification \<Rightarrow> time \<Rightarrow> (string \<rightharpoonup> Task) \<Rightarrow> string \<Rightarrow> string \<Rightarrow> int32 \<Rightarrow> bool" where
  "task_op_ok md now S q i v \<longleftrightarrow> (\<exists>t. in_queue S q i t \<and> t_Version t = v \<and> \<not> otherwiseClaimed md t now)"

definition task_deps_ok :: "Modification \<Rightarrow> time \<Rightarrow> (string \<rightharpoonup> Task) \<Rightarrow> bool" where
  "task_deps_ok md now S \<longleftrightarrow>
     (\<forall>td \<in> set (m_Inserts md). S (td_ID td) = None) \<and>
     (\<forall>c \<in> set (m_Changes md). task_op_ok md now S (t_FromQueue c) (t_ID c) (t_Version c)) \<and>
     (\<forall>d \<in> set (m_Deletes md). task_op_ok md now S (tid_Queue d) (tid_ID d) (tid_Version d)) \<and>
     (\<forall>a \<in> set (m_Arrives md). task_op_ok md now S (tid_Queue (ta_TaskID a)) (tid_ID (ta_TaskID a)) (tid_Version (ta_TaskID a))) \<and>
     (\<forall>d \<in> set (m_Depends md). \<exists>t. in_queue S (tid_Queue d) (tid_ID d) t \<and> t_Version t = tid_Version d)"

lemma ensureModQueues_None:
  assumes "typed S" "map_of qb = (\<lambda>i. map_option t_Queue (S i))"
  shows "ensureModQueues md qb = None \<longleftrightarrow>
    (\<forall>d \<in> set (m_Deletes md). \<exists>t. in_queue S (tid_Queue d) (tid_ID d) t) \<and>
    (\<forall>d \<in> set (m_Depends md). \<exists>t. in_queue S (tid_Queue d) (tid_ID d) t) \<and>
    (\<forall>c \<in> set (m_Changes md). \<exists>t. in_queue S (t_FromQueue c) (t_ID c) t)"
proof -
  have "(q = [] \<or> q \<noteq> queue_of qb i) \<longleftrightarrow> \<not> (\<exists>t. in_queue S q i t)" for q i
    using assms by (auto simp: queue_of_def in_queue_def typed_def split: option.splits)
  then show ?thesis by (simp add: ensureModQueues_def Let_def zero_DependencyError_def filter_Nil) blast
qed

lemma DependencyError_tasks:
  "Modification_DependencyError (task_part md) found Map.empty now = None \<longleftrightarrow>
     (\<forall>td \<in> set (m_Inserts md). found (td_ID td) = None) \<and>
     (\<forall>c \<in> set (m_Changes md). task_ok md found now (t_ID c) (t_Version c)) \<and>
     (\<forall>d \<in> set (m_Deletes md). task_ok md found now (tid_ID d) (tid_Version d)) \<and>
     (\<forall>d \<in> set (m_Depends md). \<exists>t. found (tid_ID d) = Some t \<and> t_Version t = tid_Version d)"
proof -
  have "claimed_at (task_part md) found now i v = claimed_at md found now i v" for i v
    by (simp add: claimed_at_def otherwiseClaimed_def task_part_def split: option.splits)
  moreover have "\<not> missing_at found i v \<longleftrightarrow> (\<exists>t. found i = Some t \<and> t_Version t = v)" for i v
    by (auto simp: missing_at_def split: option.splits)
  ultimately show ?thesis
    unfolding Modification_DependencyError_None badInserts_Nil
    by (auto simp: bad_defs filter_Nil task_ok_iff task_part_def Let_def)
qed

lemma arrival_Changes_sel [simp]:
  "m_Inserts (arrival_Changes md f) = m_Inserts md" "m_Deletes (arrival_Changes md f) = m_Deletes md"
  "m_Depends (arrival_Changes md f) = m_Depends md" "m_Claimant (arrival_Changes md f) = m_Claimant md"
  "m_Changes (arrival_Changes md f) = m_Changes md @ map (\<lambda>a. TaskArrival_Change a (f (tid_ID (ta_TaskID a)))) (m_Arrives md)"
  "m_resetClaims (arrival_Changes md f) = m_resetClaims md" "m_DocDepends (arrival_Changes md f) = m_DocDepends md"
  "m_DocInserts (arrival_Changes md f) = m_DocInserts md" "m_DocChanges (arrival_Changes md f) = m_DocChanges md"
  "m_DocDeletes (arrival_Changes md f) = m_DocDeletes md" "m_DocArrives (arrival_Changes md f) = m_DocArrives md"
  by (simp_all add: arrival_Changes_def)

lemma TaskArrival_Change_sel:
  assumes "\<And>t. f = Some t \<Longrightarrow> t_ID t = tid_ID (ta_TaskID a)"
  shows "t_ID (TaskArrival_Change a f) = tid_ID (ta_TaskID a)" "t_Version (TaskArrival_Change a f) = tid_Version (ta_TaskID a)"
    "t_Queue (TaskArrival_Change a f) = tid_Queue (ta_TaskID a)" "t_FromQueue (TaskArrival_Change a f) = tid_Queue (ta_TaskID a)"
  using assms by (auto simp: TaskArrival_Change_def Let_def Task_Copy_def new_Task_def split: option.splits)

lemma otherwiseClaimed_cong: "m_Claimant md' = m_Claimant md \<Longrightarrow> otherwiseClaimed md' t now = otherwiseClaimed md t now"
  by (simp add: otherwiseClaimed_def)

lemma task_checks:
  assumes "prepared byQ s md qb S"
  shows "ensureModQueues md qb = None \<and>
    Modification_DependencyError (task_part (arrival_Changes md (map_of (found_in byQ s md qb))))
      (map_of (found_in byQ s md qb)) Map.empty now = None \<longleftrightarrow> task_deps_ok md now S"
proof -
  let ?f = "map_of (found_in byQ s md qb)"
  have pre: "typed S" "map_of qb = (\<lambda>i. map_option t_Queue (S i))" using assms by (simp_all add: prepared_def)
  have op: "(\<exists>t. in_queue S q i t) \<and> task_ok md ?f now i v \<longleftrightarrow> task_op_ok md now S q i v"
    "(\<exists>t. in_queue S q i t) \<and> (\<exists>t. ?f i = Some t \<and> t_Version t = v) \<longleftrightarrow> (\<exists>t. in_queue S q i t \<and> t_Version t = v)"
    if "(q, i) \<in> set (map (\<lambda>d. (tid_Queue d, tid_ID d)) (m_Deletes md) @ map (\<lambda>d. (tid_Queue d, tid_ID d)) (m_Depends md) @
     map (\<lambda>c. (t_FromQueue c, t_ID c)) (m_Changes md) @ map (\<lambda>a. (tid_Queue (ta_TaskID a), tid_ID (ta_TaskID a))) (m_Arrives md))"
    for q i v
    using found_op[OF assms _ that] by (fastforce simp: task_ok_def task_op_ok_def in_queue_def)+
  have fid: "t_ID t = i" if "?f i = Some t" for i t
    using that pre(1) unfolding found_iff[OF assms] typed_def by blast
  have arr: "task_ok md ?f now (t_ID (TaskArrival_Change a (?f (tid_ID (ta_TaskID a))))) (t_Version (TaskArrival_Change a (?f (tid_ID (ta_TaskID a))))) \<longleftrightarrow>
      task_op_ok md now S (tid_Queue (ta_TaskID a)) (tid_ID (ta_TaskID a)) (tid_Version (ta_TaskID a))"
    if "a \<in> set (m_Arrives md)" for a
    using found_arrive[OF assms that] TaskArrival_Change_sel[OF fid] by (simp add: task_ok_def task_op_ok_def)
  have ok: "task_ok (arrival_Changes md ?f) ?f now = task_ok md ?f now"
    by (simp add: task_ok_def[abs_def] otherwiseClaimed_cong[of "arrival_Changes md ?f" md])
  have "(\<forall>d \<in> set (m_Deletes md). \<exists>t. in_queue S (tid_Queue d) (tid_ID d) t) \<and>
      (\<forall>d \<in> set (m_Deletes md). task_ok md ?f now (tid_ID d) (tid_Version d)) \<longleftrightarrow>
      (\<forall>d \<in> set (m_Deletes md). task_op_ok md now S (tid_Queue d) (tid_ID d) (tid_Version d))"
    unfolding ball_conj_distrib[symmetric] by (intro ball_cong refl op(1)) auto
  moreover have "(\<forall>d \<in> set (m_Depends md). \<exists>t. in_queue S (tid_Queue d) (tid_ID d) t) \<and>
      (\<forall>d \<in> set (m_Depends md). \<exists>t. ?f (tid_ID d) = Some t \<and> t_Version t = tid_Version d) \<longleftrightarrow>
      (\<forall>d \<in> set (m_Depends md). \<exists>t. in_queue S (tid_Queue d) (tid_ID d) t \<and> t_Version t = tid_Version d)"
    unfolding ball_conj_distrib[symmetric] by (intro ball_cong refl op(2)) auto
  moreover have "(\<forall>c \<in> set (m_Changes md). \<exists>t. in_queue S (t_FromQueue c) (t_ID c) t) \<and>
      (\<forall>c \<in> set (m_Changes md). task_ok md ?f now (t_ID c) (t_Version c)) \<longleftrightarrow>
      (\<forall>c \<in> set (m_Changes md). task_op_ok md now S (t_FromQueue c) (t_ID c) (t_Version c))"
    unfolding ball_conj_distrib[symmetric] by (intro ball_cong refl op(1)) auto
  moreover have "(\<forall>td \<in> set (m_Inserts md). ?f (td_ID td) = None) \<longleftrightarrow> (\<forall>td \<in> set (m_Inserts md). S (td_ID td) = None)"
    by (intro ball_cong refl) (simp add: found_insert[OF assms])
  moreover have "(\<forall>c \<in> set (m_Changes (arrival_Changes md ?f)). task_ok md ?f now (t_ID c) (t_Version c)) \<longleftrightarrow>
      (\<forall>c \<in> set (m_Changes md). task_ok md ?f now (t_ID c) (t_Version c)) \<and>
      (\<forall>a \<in> set (m_Arrives md). task_op_ok md now S (tid_Queue (ta_TaskID a)) (tid_ID (ta_TaskID a)) (tid_Version (ta_TaskID a)))"
    using arr by (simp add: ball_Un)
  ultimately show ?thesis
    unfolding ensureModQueues_None[OF pre] DependencyError_tasks ok task_deps_ok_def arrival_Changes_sel(1-4) by argo
qed

lemma arrival_Changes_cong:
  "(\<And>a. a \<in> set (m_Arrives md) \<Longrightarrow> f (tid_ID (ta_TaskID a)) = g (tid_ID (ta_TaskID a))) \<Longrightarrow>
    arrival_Changes md f = arrival_Changes md g"
  by (simp add: arrival_Changes_def)

lemma arrivals_found:
  assumes "prepared byQ s md qb S" "task_deps_ok md now S"
  shows "arrival_Changes md (map_of (found_in byQ s md qb)) = arrival_Changes md S"
proof (rule arrival_Changes_cong)
  fix a assume a: "a \<in> set (m_Arrives md)"
  with assms(2) obtain t where "in_queue S (tid_Queue (ta_TaskID a)) (tid_ID (ta_TaskID a)) t"
    by (auto simp: task_deps_ok_def task_op_ok_def)
  with found_arrive[OF assms(1) a, of t]
  show "map_of (found_in byQ s md qb) (tid_ID (ta_TaskID a)) = S (tid_ID (ta_TaskID a))" by (simp add: in_queue_def)
qed

lemma distinct_parts:
  "distinct (as @ bs @ cs @ ds @ es) \<Longrightarrow> distinct ((as @ cs) @ bs @ es)"
  by auto

lemma applicable_ok:
  assumes "prepared byQ s md qb S" "task_deps_ok md now S"
  shows "applicable byQ (arrival_Changes md S) (found_in byQ s md qb) S"
proof -
  let ?md = "arrival_Changes md S"
  have pre: "typed S" "distinct (task_op_ids md)" "\<forall>td \<in> set (m_Inserts md). td_ID td \<noteq> [] \<and> td_Queue td \<noteq> []"
    "\<forall>c \<in> set (m_Changes md). t_Queue c \<noteq> []" "\<forall>a \<in> set (m_Arrives md). tid_Queue (ta_TaskID a) \<noteq> []"
    and Q: "set byQ = set (mod_queues md (misplaced_inserts qb (m_Inserts md)))"
    using assms(1) by (simp_all add: prepared_def)
  have named: "q \<noteq> []" if "in_queue S q i t" for q i t using that pre(1) by (auto simp: in_queue_def typed_def)
  have fid: "t_ID t = i" if "S i = Some t" for i t using that pre(1) by (simp add: typed_def)
  note ta = TaskArrival_Change_sel[OF fid]
  have chg: "map t_ID (m_Changes ?md) = map t_ID (m_Changes md) @ map (\<lambda>a. tid_ID (ta_TaskID a)) (m_Arrives md)"
    using ta(1) by simp
  have ins: "filter (\<lambda>i. i \<noteq> []) (map td_ID (m_Inserts md)) = map td_ID (m_Inserts md)"
    using pre(3) by (simp add: filter_id_conv)
  have "distinct (map t_ID (m_Changes ?md) @ map tid_ID (m_Deletes ?md) @ map td_ID (m_Inserts ?md))"
    unfolding chg arrival_Changes_sel(1,2) by (rule distinct_parts[OF pre(2)[unfolded task_op_ids_def ins]])
  moreover have "\<forall>d \<in> set (m_Deletes ?md). tid_Queue d \<in> set byQ \<and> (\<exists>t. S (tid_ID d) = Some t \<and> t_Queue t = tid_Queue d)"
  proof
    fix d assume d: "d \<in> set (m_Deletes ?md)"
    with assms(2) obtain t where t: "in_queue S (tid_Queue d) (tid_ID d) t" by (auto simp: task_deps_ok_def task_op_ok_def)
    with named[OF t] d show "tid_Queue d \<in> set byQ \<and> (\<exists>t. S (tid_ID d) = Some t \<and> t_Queue t = tid_Queue d)"
      by (auto simp: Q mod_queues_iff in_queue_def)
  qed
  moreover have "t_FromQueue c \<in> set byQ \<and> t_Queue c \<in> set byQ \<and>
      (\<exists>old. map_of (found_in byQ s md qb) (t_ID c) = Some old \<and> S (t_ID c) = Some old \<and> t_FromQueue c = t_Queue old)"
    if "c \<in> set (m_Changes ?md)" for c
  proof -
    from that consider "c \<in> set (m_Changes md)"
      | a where "a \<in> set (m_Arrives md)" "c = TaskArrival_Change a (S (tid_ID (ta_TaskID a)))" by auto
    then show ?thesis
    proof cases
      case 1
      with assms(2) obtain t where t: "in_queue S (t_FromQueue c) (t_ID c) t" by (auto simp: task_deps_ok_def task_op_ok_def)
      from found_op[OF assms(1) t] 1 named[OF t] t pre(4) show ?thesis by (auto simp: Q mod_queues_iff in_queue_def)
    next
      case (2 a)
      with assms(2) obtain t where t: "in_queue S (tid_Queue (ta_TaskID a)) (tid_ID (ta_TaskID a)) t"
        by (auto simp: task_deps_ok_def task_op_ok_def)
      from found_arrive[OF assms(1) 2(1)] 2 named[OF t] t show ?thesis
        by (auto simp: ta Q mod_queues_iff in_queue_def)
    qed
  qed
  moreover have "\<forall>td \<in> set (m_Inserts ?md). td_Queue td \<in> set byQ \<and> S (td_ID td) = None"
    using assms(2) pre(3) by (auto simp: Q mod_queues_iff task_deps_ok_def)
  ultimately show ?thesis unfolding applicable_def by blast
qed

section \<open>What the doc side leaves alone\<close>

definition same_tasks :: "('dt, 'lt) EQMem \<Rightarrow> ('dt, 'lt) EQMem \<Rightarrow> bool" where
  "same_tasks s s' \<longleftrightarrow> em_queues s' = em_queues s \<and> em_locks s' = em_locks s \<and> em_qByID s' = em_qByID s \<and>
     em_journal s' = em_journal s"

lemma same_tasks_refl [simp]: "same_tasks s s"
  by (simp add: same_tasks_def)

lemma same_tasks_trans: "same_tasks s s' \<Longrightarrow> same_tasks s' s'' \<Longrightarrow> same_tasks s s''"
  by (simp add: same_tasks_def)

lemma same_tasks_views:
  assumes "same_tasks s s'"
  shows "tasks_at s' = tasks_at s" "deps s' = deps s" "lk s' = lk s" "held s' = held s" "wf_mem s' = wf_mem s" "store s' = store s"
proof -
  show t: "tasks_at s' = tasks_at s" and d: "deps s' = deps s"
    using assms by (simp_all add: same_tasks_def tasks_at_def[abs_def] deps_def[abs_def])
  with assms show l: "lk s' = lk s" "held s' = held s"
    by (simp_all add: same_tasks_def lk_def wf_queues_def live_def held_def[abs_def])
  with assms t d show "wf_mem s' = wf_mem s" "store s' = store s"
    by (simp_all add: same_tasks_def wf_mem_def qByID_ok_def named_def store_def fun_eq_iff split: option.splits)
qed

lemma foldE_same_tasks:
  assumes "\<And>x y y'. x \<in> set xs \<Longrightarrow> f x y = Inr y' \<Longrightarrow> same_tasks (g y) (g y')"
  shows "foldE f xs y = Inr y' \<Longrightarrow> same_tasks (g y) (g y')"
  using assms
proof (induction xs arbitrary: y)
  case (Cons x xs)
  from Cons.prems(1) obtain y1 where "f x y = Inr y1" "foldE f xs y1 = Inr y'" by (auto simp: sbind_Inr_iff)
  with Cons show ?case by (meson list.set_intros same_tasks_trans)
qed simp

lemma lockNamespaces_same:
  assumes "lockNamespaces T ns s = Inr (nls, s')"
  shows "same_tasks s s'"
proof -
  have "same_tasks s s'" if "lockForNamespaceUnsafe T n s = Inr s'" for n and s s' :: "('a, 'b) EQMem"
    using that by (auto simp: lockForNamespaceUnsafe_def same_tasks_def split: option.splits)
  then have "same_tasks s s'" if "foldE (lockForNamespaceUnsafe T) xs s = Inr s'" for xs
    using foldE_same_tasks[where g = "\<lambda>s. s", OF _ that] by blast
  with assms show ?thesis by (auto simp: lockNamespaces_def Let_def sbind_Inr_iff split: if_splits)
qed

lemma unlockNamespaces_same: "same_tasks s (unlockNamespaces T nls s)"
proof -
  have "same_tasks s (unlockNamespace T n s)" for n and s :: "('a, 'b) EQMem"
    by (auto simp: unlockNamespace_def same_tasks_def Let_def split: option.splits)
  then have "same_tasks s (fold (unlockNamespace T) xs s)" for xs
    by (induction xs arbitrary: s) (auto intro: same_tasks_trans)
  then show ?thesis by (simp add: unlockNamespaces_def)
qed

lemma with_namespace_same: "with_namespace byNS ns f s = Inr s' \<Longrightarrow> same_tasks s s'"
  by (auto simp: with_namespace_def same_tasks_def split: if_splits option.splits)

lemma apply_docs_same:
  assumes "apply_docs T byNS md foundDocs plan replay now s = Inr (s', r)"
  shows "same_tasks s s'"
proof -
  let ?chg = "\<lambda>c (s, out). let r = withLock T replay plan s (changed_doc foundDocs replay now c) in
              sbind (setRes T byNS r s) (\<lambda>s. Inr (s, out @ [r]))"
  let ?ins = "\<lambda>rd (s, out). let r = withLock T replay plan s (inserted_doc now rd) in
              sbind (setRes T byNS r s) (\<lambda>s. Inr (s, out @ [r]))"
  obtain s1 s2 s3 out2 out3 where e:
    "foldE (\<lambda>d. with_namespace byNS (did_Namespace d) (dn_Delete T (did_ID d))) (m_DocDeletes md) s = Inr s1"
    "foldE ?chg (m_DocChanges md) (s1, []) = Inr (s2, out2)" "foldE ?ins (m_DocInserts md) (s2, []) = Inr (s3, out3)"
    "foldE (\<lambda>(g, l). with_namespace byNS (g_Namespace g) (SetLock T (g_Key g) l)) (pl_Locks plan) s3 = Inr s'"
    using assms by (auto simp: apply_docs_def sbind_Inr_iff)
  have "same_tasks s s1"
    by (rule foldE_same_tasks[where g = "\<lambda>s. s", OF _ e(1)]) (rule with_namespace_same)
  moreover have "same_tasks (fst (s1, [] :: Doc list)) (fst (s2, out2))"
    by (rule foldE_same_tasks[OF _ e(2)]) (auto simp: Let_def sbind_Inr_iff setRes_def dest: with_namespace_same)
  moreover have "same_tasks (fst (s2, [] :: Doc list)) (fst (s3, out3))"
    by (rule foldE_same_tasks[OF _ e(3)]) (auto simp: Let_def sbind_Inr_iff setRes_def dest: with_namespace_same)
  moreover have "same_tasks s3 s'"
    by (rule foldE_same_tasks[where g = "\<lambda>s. s", OF _ e(4)]) (auto dest: with_namespace_same)
  ultimately show ?thesis by (auto intro: same_tasks_trans)
qed

section \<open>The modification under its locks\<close>

lemma ensureModQueues_HasAny: "ensureModQueues md qb = Some e \<Longrightarrow> HasAny e"
  by (auto simp: ensureModQueues_def Let_def HasAny_iff split: if_splits)

lemma check_deps_None:
  "check_deps False a b = None \<longleftrightarrow> \<not> HasAny (or_zero a) \<and> \<not> HasAny (or_zero b)"
  using Merge_None[of a b] by (auto simp: check_deps_def or_zero_def HasAny_zero split: option.splits)

lemma HasAny_Merge: "HasAny (or_zero (Merge a b)) \<longleftrightarrow> HasAny (or_zero a) \<or> HasAny (or_zero b)"
  by (simp add: Merge_eq Let_def HasAny_merged or_zero_def HasAny_zero)

lemma checks_passed:
  assumes "check_deps False (ensureModQueues md qb) (case e of Some e' \<Rightarrow> Merge d (Some e') | None \<Rightarrow> d) = None"
    "d = Modification_DependencyError m found foundDocs now"
  shows "ensureModQueues md qb = None \<and> d = None"
proof -
  have 1: "\<not> HasAny (or_zero (ensureModQueues md qb))" "\<not> HasAny (or_zero (case e of Some e' \<Rightarrow> Merge d (Some e') | None \<Rightarrow> d))"
    using assms(1) by (simp_all add: check_deps_None)
  have "\<not> HasAny (or_zero d)"
    using 1(2) by (cases e) (auto simp: HasAny_Merge)
  then have "d = None"
    using DependencyError_HasAny[of m found foundDocs now] assms(2)[symmetric] by (cases d) (auto simp: or_zero_def)
  moreover have "ensureModQueues md qb = None"
    using 1(1) ensureModQueues_HasAny by (cases "ensureModQueues md qb") (auto simp: or_zero_def)
  ultimately show ?thesis by blast
qed

definition after_commit :: "Modification \<Rightarrow> time \<Rightarrow> (string \<rightharpoonup> Task) \<Rightarrow> ('dt, 'lt) EQMem \<Rightarrow> ('dt, 'lt) EQMem \<Rightarrow> bool" where
  "after_commit md now S s s' \<longleftrightarrow> lk s' \<and> deps s' = deps s \<and> tasks_at s' = at_queue (commit_tasks md now S) \<and>
     gm_ok (em_qByID s') \<and> map_of (em_qByID s') = (\<lambda>i. map_option t_Queue (commit_tasks md now S i))"

lemma modifyBody_tasks:
  assumes "prepared byQ s md (em_qByID s) S" "gm_ok (em_qByID s)"
    "pr_mod p = md" "pr_misplaced p = misplaced_inserts (em_qByID s) (m_Inserts md)" "pr_queueDeps p = ensureModQueues md (em_qByID s)"
    "modifyBody T now False p byQ byNS s = Inr (s', resp, notified)"
  shows "task_deps_ok md now S \<and> after_commit (arrival_Changes md S) now S s s' \<and>
    mr_ChangedTasks resp = map (\<lambda>c. changed_to md now (the (S (t_ID c))) c) (m_Changes (arrival_Changes md S)) \<and>
    mr_InsertedTasks resp = map (inserted_task md False now) (m_Inserts md) \<and>
    notified = NotifyModified (mr_InsertedTasks resp) (mr_ChangedTasks resp)"
proof -
  let ?found = "found_in byQ s md (em_qByID s)"
  let ?md = "arrival_Changes md (map_of ?found)"
  let ?d = "Modification_DependencyError (task_part ?md) (map_of ?found) Map.empty now"
  let ?fd = "found_docs byNS s md"
  note body = assms(6)[unfolded modifyBody_def assms(3,4,5) Let_def if_False]
  from body obtain plan where plan: "eval_docs T byNS now ?md ?fd s = Inr plan"
    by (cases "eval_docs T byNS now ?md ?fd s") auto
  note body = body[unfolded plan sbind_simps]
  from body have chk: "check_deps False (ensureModQueues md (em_qByID s))
      (case pl_Err plan of Some e \<Rightarrow> Merge ?d (Some e) | None \<Rightarrow> ?d) = None"
    by (auto split: option.splits)
  note body = body[unfolded chk option.case]
  from body obtain s1 steps changed inserted where b2:
    "apply_tasks byQ ?md ?found False now s = Inr ((s1, steps), changed, inserted)"
    by (cases "apply_tasks byQ ?md ?found False now s") auto
  note body = body[unfolded b2 sbind_simps prod.case]
  from body obtain s2 changedDocs insertedDocs where b3:
    "apply_docs T byNS ?md ?fd plan False now s1 = Inr (s2, changedDocs, insertedDocs)"
    by (cases "apply_docs T byNS ?md ?fd plan False now s1") auto
  note body = body[unfolded b3 sbind_simps prod.case]
  have b: "resp = \<lparr>mr_InsertedTasks = inserted, mr_ChangedTasks = changed, mr_InsertedDocs = insertedDocs,
       mr_ChangedDocs = changedDocs, mr_ChangedSets = pl_Arrived plan\<rparr>"
    "s' = appendJournal (Some (journal_mod ?md resp)) (journalLocksOf (pl_Locks plan)) (fold final_step steps s2)"
    "notified = NotifyModified inserted changed"
    using body by auto
  from checks_passed[OF chk refl] have ok: "task_deps_ok md now S"
    using task_checks[OF assms(1), of now] by blast
  note md = arrivals_found[OF assms(1) ok]
  have w0: "work byQ s (s, []) S"
    using assms(1,2) by (simp add: work_def prepared_def)
  from apply_tasks_ok[OF w0 applicable_ok[OF assms(1) ok], of now] b2 md
  have w: "work byQ s (s1, steps) (commit_tasks (arrival_Changes md S) now S)"
    and c: "changed = map (\<lambda>c. changed_to (arrival_Changes md S) now (the (S (t_ID c))) c) (m_Changes (arrival_Changes md S))"
    and i: "inserted = map (inserted_task (arrival_Changes md S) False now) (m_Inserts md)"
    by (simp_all add: md)
  note st = same_tasks_views[OF apply_docs_same[OF b3]]
  have "same_rest s s1" using w by (simp add: work_def)
  with apply_docs_same[OF b3] have q: "em_qByID s2 = em_qByID s" by (simp add: same_rest_def same_tasks_def)
  have "after_commit (arrival_Changes md S) now S s s'"
    using w st q unfolding b(2) fold_final_step
    by (simp add: after_commit_def work_def final_views)
  moreover have "changed_to (arrival_Changes md S) = changed_to md" "inserted_task (arrival_Changes md S) = inserted_task md"
    by (simp_all add: changed_to_def inserted_task_def ResetsClaims_def fun_eq_iff Let_def)
  ultimately show ?thesis using ok c i b(1,3) by simp
qed

section \<open>The whole modification\<close>

text \<open>What validation promises about the tasks of a modification whose inserts have IDs.\<close>

definition valid_tasks :: "Modification \<Rightarrow> bool" where
  "valid_tasks md \<longleftrightarrow> distinct (task_op_ids md) \<and>
     (\<forall>td \<in> set (m_Inserts md). td_ID td \<noteq> [] \<and> td_Queue td \<noteq> []) \<and> (\<forall>c \<in> set (m_Changes md). t_Queue c \<noteq> []) \<and>
     (\<forall>a \<in> set (m_Arrives md). tid_Queue (ta_TaskID a) \<noteq> [])"

lemma wf_mem_work:
  assumes "wf_mem s"
  shows "tasks_at s = at_queue (store s)" "typed (store s)" "map_of (em_qByID s) = (\<lambda>i. map_option t_Queue (store s i))"
    "gm_ok (em_qByID s)"
proof -
  show "tasks_at s = at_queue (store s)" by (simp add: tasks_at_store[OF assms] at_queue_def fun_eq_iff)
  show t: "typed (store s)" by (rule typed_store[OF assms])
  show "map_of (em_qByID s) = (\<lambda>i. map_option t_Queue (store s i))"
  proof
    show "map_of (em_qByID s) i = map_option t_Queue (store s i)" for i
    proof (cases "map_of (em_qByID s) i")
      case None
      then show ?thesis by (simp add: store_def)
    next
      case (Some q)
      with qByID_iff[OF assms] obtain t where t: "tasks_at s q i = Some t" by blast
      with tasks_at_task[OF _ t] assms Some show ?thesis by (simp add: store_def wf_mem_def lk_def)
    qed
  qed
  show "gm_ok (em_qByID s)" using assms by (simp add: wf_mem_def qByID_ok_def)
qed

lemma typed_add: "typed A \<Longrightarrow> typed B \<Longrightarrow> typed (A ++ B)"
  by (auto simp: typed_def map_add_Some_iff)

lemma typed_restrict: "typed A \<Longrightarrow> typed (A |` X)"
  by (auto simp: typed_def restrict_map_def)

lemma typed_map_of:
  "(\<And>x. x \<in> set xs \<Longrightarrow> t_ID (g x) = f x \<and> f x \<noteq> [] \<and> t_Queue (g x) \<noteq> []) \<Longrightarrow> typed (map_of (map (\<lambda>x. (f x, g x)) xs))"
  by (fastforce simp: typed_def dest: map_of_SomeD)

lemma typed_commit:
  assumes "typed S" "valid_tasks md" "task_deps_ok md now S"
  shows "typed (commit_tasks (arrival_Changes md S) now S)"
proof -
  have fid: "t_ID t = i" if "S i = Some t" for i t using that assms(1) by (simp add: typed_def)
  have "t_Queue c \<noteq> [] \<and> t_ID c \<noteq> []" if c: "c \<in> set (m_Changes (arrival_Changes md S))" for c
  proof -
    from c consider "c \<in> set (m_Changes md)"
      | a where "a \<in> set (m_Arrives md)" "c = TaskArrival_Change a (S (tid_ID (ta_TaskID a)))" by auto
    then show ?thesis
    proof cases
      case 1
      with assms show ?thesis by (auto simp: valid_tasks_def task_deps_ok_def task_op_ok_def in_queue_def typed_def)
    next
      case (2 a)
      with assms TaskArrival_Change_sel[OF fid] show ?thesis
        by (auto simp: valid_tasks_def task_deps_ok_def task_op_ok_def in_queue_def typed_def)
    qed
  qed
  then show ?thesis
    unfolding commit_tasks_def using assms(1,2)
    by (intro typed_add typed_restrict typed_map_of) (auto simp: valid_tasks_def)
qed

text \<open>From the tasks after the commit back to the backend's invariant and its map.\<close>

lemma after_commit_wf:
  assumes "lk s" "\<forall>q. deps s q = 0" "tasks_at s = at_queue M" "gm_ok (em_qByID s)"
    "map_of (em_qByID s) = (\<lambda>i. map_option t_Queue (M i))" "typed M"
  shows "wf_mem s" "store s = M"
proof -
  have "map_of (em_qByID s) i = Some q \<longleftrightarrow> tasks_at s q i \<noteq> None" for i q
    using assms(3,5) by (auto simp: at_queue_def split: option.splits)
  moreover have "named s"
    using assms(3,6) by (auto simp: named_def at_queue_def typed_def split: option.splits if_splits)
  ultimately show "wf_mem s" using assms(1,2,4) by (simp add: wf_mem_def qByID_ok_def)
  show "store s = M"
    using assms(3,5) by (auto simp: store_def at_queue_def fun_eq_iff split: option.splits)
qed

lemma modPrep_sel [simp]:
  "pr_mod (modPrep md False s) = md" "pr_queues (modPrep md False s) = mod_queues md (misplaced_inserts (em_qByID s) (m_Inserts md))"
  "pr_misplaced (modPrep md False s) = misplaced_inserts (em_qByID s) (m_Inserts md)"
  "pr_namespaces (modPrep md False s) = mod_namespaces md" "pr_queueDeps (modPrep md False s) = ensureModQueues md (em_qByID s)"
  by (simp_all add: modPrep_def Let_def)

text \<open>The locks of the queues of a modification, and the state in which its body runs.\<close>

lemma lock_prepared:
  assumes "wf_mem s" "valid_tasks md"
  obtains qls s1 where "lockQueues (pr_queues (modPrep md False s)) s = Inr (qls, s1)" "distinct qls"
    "lk s1" "tasks_at s1 = tasks_at s" "deps s1 = (\<lambda>q. of_bool (q \<in> set qls))" "em_qByID s1 = em_qByID s" "same_rest s s1"
    "\<forall>s2. same_tasks s1 s2 \<longrightarrow> prepared qls s2 md (em_qByID s2) (store s)"
proof -
  let ?qs = "mod_queues md (misplaced_inserts (em_qByID s) (m_Inserts md))"
  have lks: "lk s" and d0: "deps s = (\<lambda>_. 0)" using assms(1) by (auto simp: wf_mem_def)
  have "distinct ?qs" by (simp add: mod_queues_def)
  from lockQueues_ok[OF lks this] obtain s1 where s1: "lockQueues ?qs s = Inr (sort ?qs, s1)" "lk s1" "tasks_at s1 = tasks_at s"
    "deps s1 = (\<lambda>q. deps s q + of_bool (q \<in> set ?qs))" "same_rest s s1" by blast
  have q: "em_qByID s1 = em_qByID s" using s1(5) by (simp add: same_rest_def)
  have "prepared (sort ?qs) s2 md (em_qByID s2) (store s)" if "same_tasks s1 s2" for s2
  proof -
    have "em_qByID s2 = em_qByID s" using that q by (simp add: same_tasks_def)
    then show ?thesis
      using same_tasks_views[OF that] wf_mem_work[OF assms(1)] s1 d0 assms(2)
      by (simp add: prepared_def valid_tasks_def held_def)
  qed
  with that[of "sort ?qs" s1] s1 q d0 show thesis by (simp add: mod_queues_def)
qed

lemma unlock_unchanged:
  assumes "wf_mem s" "lk s2" "tasks_at s2 = tasks_at s" "deps s2 = (\<lambda>q. of_bool (q \<in> set qls))" "distinct qls"
    "em_qByID s2 = em_qByID s"
  shows "wf_mem (unlockQueues qls s2)" "store (unlockQueues qls s2) = store s"
proof -
  have u: "lk (unlockQueues qls s2)" "tasks_at (unlockQueues qls s2) = tasks_at s2"
    "deps (unlockQueues qls s2) = (\<lambda>_. 0)" "em_qByID (unlockQueues qls s2) = em_qByID s2"
    using unlockQueues_ok[OF assms(2,5)] assms(4) by (simp_all add: same_rest_def)
  note w = wf_mem_work[OF assms(1)]
  show "wf_mem (unlockQueues qls s2)" "store (unlockQueues qls s2) = store s"
    using after_commit_wf[of "unlockQueues qls s2" "store s"] u w assms(3,6) by simp_all
qed

lemma nothing_to_lock_tasks:
  assumes "nothing_to_lock (modPrep md False s)" "valid_tasks md"
  shows "m_Inserts md = [] \<and> m_Changes md = [] \<and> m_Deletes md = [] \<and> m_Depends md = [] \<and> m_Arrives md = []"
proof -
  have e: "set (mod_queues md (misplaced_inserts (em_qByID s) (m_Inserts md))) = {}" "m_Deletes md = []" "m_Depends md = []"
    using assms(1) by (simp_all add: nothing_to_lock_def)
  have "td_Queue td = []" if "td \<in> set (m_Inserts md)" for td using e(1) that unfolding set_eq_iff mod_queues_iff by auto
  moreover have "t_Queue c = []" if "c \<in> set (m_Changes md)" for c using e(1) that unfolding set_eq_iff mod_queues_iff by auto
  moreover have "tid_Queue (ta_TaskID a) = []" if "a \<in> set (m_Arrives md)" for a
    using e(1) that unfolding set_eq_iff mod_queues_iff by auto
  ultimately have "set (m_Inserts md) = {}" "set (m_Changes md) = {}" "set (m_Arrives md) = {}"
    using assms(2) unfolding valid_tasks_def by fastforce+
  with e show ?thesis by simp
qed

text \<open>What a modification does to the tasks: all of it when it succeeds, nothing when it fails.\<close>

definition task_outcome :: "Modification \<Rightarrow> time \<Rightarrow> (string \<rightharpoonup> Task) \<Rightarrow> (string \<rightharpoonup> Task) \<Rightarrow> goerror + ModifyResponse \<times> string list \<Rightarrow> bool" where
  "task_outcome md now S S' r \<longleftrightarrow>
     (case r of
        Inl e \<Rightarrow> S' = S
      | Inr (resp, notified) \<Rightarrow>
          task_deps_ok md now S \<and> S' = commit_tasks (arrival_Changes md S) now S \<and>
          mr_ChangedTasks resp = map (\<lambda>c. changed_to md now (the (S (t_ID c))) c) (m_Changes (arrival_Changes md S)) \<and>
          mr_InsertedTasks resp = map (inserted_task md False now) (m_Inserts md) \<and>
          notified = NotifyModified (mr_InsertedTasks resp) (mr_ChangedTasks resp))"

end
