(* ===== verification/EQMemCommit.thy ===== *)
theory EQMemCommit
  imports EQMemTasks
begin

text \<open>
  Modify of the in-memory backend as a transaction on the tasks: the theorems on whole calls, and
  on sequences of calls of Modify and TryClaim.
\<close>

section \<open>One call\<close>

lemma modifyLocked_tasks:
  assumes "wf_mem s" "valid_tasks md" "modifyLocked T now False (modPrep md False s) s = (s', r)"
  shows "wf_mem s' \<and> task_outcome md now (store s) (store s') r"
proof (cases "nothing_to_lock (modPrep md False s)")
  case True
  from nothing_to_lock_tasks[OF True assms(2)] assms(1,3) True show ?thesis
    by (auto simp: modifyLocked_def task_outcome_def task_deps_ok_def commit_tasks_def zero_ModifyResponse_def
        NotifyModified_def restrict_map_def)
next
  case False
  obtain qls s1 where l: "lockQueues (pr_queues (modPrep md False s)) s = Inr (qls, s1)" "distinct qls"
    "lk s1" "tasks_at s1 = tasks_at s" "deps s1 = (\<lambda>q. of_bool (q \<in> set qls))" "em_qByID s1 = em_qByID s" "same_rest s s1"
    "\<forall>s2. same_tasks s1 s2 \<longrightarrow> prepared qls s2 md (em_qByID s2) (store s)"
    by (rule lock_prepared[OF assms(1,2)])
  have undo: "wf_mem (unlockQueues qls s2) \<and> store (unlockQueues qls s2) = store s" if "same_tasks s1 s2" for s2
    using unlock_unchanged[OF assms(1), of s2 qls] same_tasks_views[OF that] that l by (auto simp: same_tasks_def)
  show ?thesis
  proof (cases "lockNamespaces T (pr_namespaces (modPrep md False s)) s1")
    case (Inl e)
    with assms(3) False l(1) undo[of s1] show ?thesis by (auto simp: modifyLocked_def task_outcome_def)
  next
    case (Inr x)
    obtain nls s2 where x: "x = (nls, s2)" by (cases x)
    note nl = Inr[unfolded x]
    have st: "same_tasks s1 s2" using lockNamespaces_same nl by blast
    show ?thesis
    proof (cases "modifyBody T now False (modPrep md False s) qls nls s2")
      case (Inl e)
      with assms(3) False l(1) nl undo[OF same_tasks_trans[OF st unlockNamespaces_same]] show ?thesis
        by (auto simp: modifyLocked_def task_outcome_def)
    next
      case (Inr y)
      obtain s3 resp notified where y: "y = (s3, resp, notified)" by (cases y)
      let ?s4 = "unlockNamespaces T nls s3"
      let ?M = "commit_tasks (arrival_Changes md (store s)) now (store s)"
      have q: "em_qByID s2 = em_qByID s" using st l(6) by (simp add: same_tasks_def)
      have p: "prepared qls s2 md (em_qByID s2) (store s)" using l(8) st by blast
      have b: "task_deps_ok md now (store s) \<and> after_commit (arrival_Changes md (store s)) now (store s) s2 s3 \<and>
        mr_ChangedTasks resp = map (\<lambda>c. changed_to md now (the (store s (t_ID c))) c) (m_Changes (arrival_Changes md (store s))) \<and>
        mr_InsertedTasks resp = map (inserted_task md False now) (m_Inserts md) \<and>
        notified = NotifyModified (mr_InsertedTasks resp) (mr_ChangedTasks resp)"
        by (rule modifyBody_tasks[OF p]) (use wf_mem_work(4)[OF assms(1)] q Inr y in simp_all)
      note v = same_tasks_views[OF unlockNamespaces_same, of T nls s3]
      have s4: "lk ?s4" "deps ?s4 = (\<lambda>q. of_bool (q \<in> set qls))" "tasks_at ?s4 = at_queue ?M"
        "gm_ok (em_qByID ?s4)" "map_of (em_qByID ?s4) = (\<lambda>i. map_option t_Queue (?M i))"
        using b v same_tasks_views[OF st] l(5) unlockNamespaces_same[of s3 T nls]
        by (simp_all add: after_commit_def same_tasks_def)
      have u: "lk (unlockQueues qls ?s4)" "tasks_at (unlockQueues qls ?s4) = tasks_at ?s4"
        "deps (unlockQueues qls ?s4) = (\<lambda>_. 0)" "em_qByID (unlockQueues qls ?s4) = em_qByID ?s4"
        using unlockQueues_ok[OF s4(1) l(2)] s4(2) by (simp_all add: same_rest_def)
      have "typed ?M" using typed_commit wf_mem_work(2)[OF assms(1)] assms(2) b by blast
      then have "wf_mem (unlockQueues qls ?s4) \<and> store (unlockQueues qls ?s4) = ?M"
        using after_commit_wf[of "unlockQueues qls ?s4" ?M] u s4 by simp
      with assms(3) False l(1) nl Inr y b show ?thesis
        by (auto simp: modifyLocked_def task_outcome_def)
    qed
  qed
qed

lemma valid_tasks_intro:
  assumes "validate_Modification md = None" "missing_ids md = None"
  shows "valid_tasks md"
  using validate_Modification_tasks[OF assms(1)] assms(2)
  by (auto simp: valid_tasks_def missing_ids_def first_some_None err_or_def split: option.splits if_splits)

lemma Modify_tasks:
  assumes "wf_mem s" "Modify T now md s = (s', r)"
  shows "wf_mem s' \<and> task_outcome md now (store s) (store s') r"
proof (cases "validate_Modification md = None \<and> missing_ids md = None")
  case True
  with modifyLocked_tasks[OF assms(1) valid_tasks_intro, of md T now s' r] assms(2) show ?thesis
    by (simp add: Modify_def modifyImpl_def)
next
  case False
  with assms show ?thesis
    by (auto simp: Modify_def modifyImpl_def task_outcome_def split: option.splits)
qed

section \<open>Modifications without doc operations\<close>

definition no_docs :: "Modification \<Rightarrow> bool" where
  "no_docs md \<longleftrightarrow> m_DocInserts md = [] \<and> m_DocChanges md = [] \<and> m_DocDeletes md = [] \<and> m_DocDepends md = [] \<and>
     m_DocArrives md = []"

lemma no_docs_simps:
  assumes "no_docs md"
  shows "mod_namespaces md = []" "docset_Sets md member = []" "pl_Err (Evaluate md now member occ lock) = None"
    "pl_Locks (Evaluate md now member occ lock) = []"
  using assms
  by (simp_all add: no_docs_def mod_namespaces_def docset_Sets_def Evaluate_def eval_all_def eval_start_def Let_def
      HasAny_zero zero_DependencyError_def HasAny_iff)

lemma modifyBody_no_docs:
  assumes "prepared byQ s md (em_qByID s) S" "gm_ok (em_qByID s)" "no_docs md"
    "pr_mod p = md" "pr_misplaced p = misplaced_inserts (em_qByID s) (m_Inserts md)" "pr_queueDeps p = ensureModQueues md (em_qByID s)"
  shows "if task_deps_ok md now S then \<exists>r. modifyBody T now False p byQ byNS s = Inr r
    else \<exists>e. modifyBody T now False p byQ byNS s = Inl (DependencyErr e) \<and> HasAny e"
proof -
  let ?found = "found_in byQ s md (em_qByID s)"
  let ?md = "arrival_Changes md (map_of ?found)"
  let ?d = "Modification_DependencyError (task_part ?md) (map_of ?found) Map.empty now"
  let ?fd = "found_docs byNS s md"
  let ?plan = "Evaluate ?md now (member_of ?fd) (occupant_of T s) (lock_of T s)"
  have nd: "no_docs ?md" using assms(3) by (simp add: no_docs_def)
  note e = no_docs_simps[OF nd]
  have plan: "eval_docs T byNS now ?md ?fd s = Inr ?plan" by (simp add: eval_docs_def e)
  have chk: "task_deps_ok md now S \<longleftrightarrow> ensureModQueues md (em_qByID s) = None \<and> ?d = None"
    using task_checks[OF assms(1), of now] by simp
  have body: "modifyBody T now False p byQ byNS s =
      (case check_deps False (ensureModQueues md (em_qByID s)) ?d of Some e \<Rightarrow> Inl e
       | None \<Rightarrow> sbind (apply_tasks byQ ?md ?found False now s) (\<lambda>((s, steps), changed, inserted).
             sbind (apply_docs T byNS ?md ?fd ?plan False now s) (\<lambda>(s, changedDocs, insertedDocs).
             let resp = \<lparr>mr_InsertedTasks = inserted, mr_ChangedTasks = changed, mr_InsertedDocs = insertedDocs,
                         mr_ChangedDocs = changedDocs, mr_ChangedSets = pl_Arrived ?plan\<rparr>;
                 s = fold final_step steps s;
                 s = appendJournal (Some (journal_mod ?md resp)) (journalLocksOf (pl_Locks ?plan)) s
             in Inr (s, resp, NotifyModified inserted changed))))"
    by (simp add: modifyBody_def assms(4-6) Let_def plan e(3))
  have docs: "apply_docs T byNS ?md ?fd ?plan False now s1 = Inr (s1, [], [])" for s1
    using assms(3) by (simp add: apply_docs_def no_docs_def e(4))
  show ?thesis
  proof (cases "task_deps_ok md now S")
    case True
    then have "check_deps False (ensureModQueues md (em_qByID s)) ?d = None" using chk by (simp add: check_deps_def)
    moreover have "work byQ s (s, []) S" using assms(1,2) by (simp add: work_def prepared_def)
    from apply_tasks_ok[OF this applicable_ok[OF assms(1) True], of now]
    obtain s1 st ch ins where "apply_tasks byQ ?md ?found False now s = Inr ((s1, st), ch, ins)"
      using arrivals_found[OF assms(1) True] by auto
    ultimately show ?thesis using True by (simp add: body docs Let_def)
  next
    case False
    then consider e where "ensureModQueues md (em_qByID s) = Some e" | e where "?d = Some e"
      using chk by (cases "ensureModQueues md (em_qByID s)"; cases ?d) auto
    then have "HasAny (or_zero (ensureModQueues md (em_qByID s))) \<or> HasAny (or_zero ?d)"
      by cases (simp_all add: or_zero_def ensureModQueues_HasAny DependencyError_HasAny)
    moreover from this have "check_deps False (ensureModQueues md (em_qByID s)) ?d = map_option DependencyErr (Merge (ensureModQueues md (em_qByID s)) ?d)"
      by (auto simp: check_deps_def or_zero_def HasAny_zero split: option.splits)
    moreover obtain e where "Merge (ensureModQueues md (em_qByID s)) ?d = Some e"
      using calculation(1) Merge_None by blast
    moreover have "HasAny e"
      using HasAny_Merge[of "ensureModQueues md (em_qByID s)" ?d] calculation by (simp add: or_zero_def)
    ultimately show ?thesis using False by (simp add: body)
  qed
qed

lemma modifyLocked_no_docs:
  assumes "wf_mem s" "valid_tasks md" "no_docs md"
  shows "if task_deps_ok md now (store s) then \<exists>s' r. modifyLocked T now False (modPrep md False s) s = (s', Inr r)
    else \<exists>s' e. modifyLocked T now False (modPrep md False s) s = (s', Inl (DependencyErr e)) \<and> HasAny e"
proof (cases "nothing_to_lock (modPrep md False s)")
  case True
  from nothing_to_lock_tasks[OF True assms(2)] True show ?thesis
    by (simp add: modifyLocked_def task_deps_ok_def)
next
  case False
  obtain qls s1 where l: "lockQueues (pr_queues (modPrep md False s)) s = Inr (qls, s1)"
    "em_qByID s1 = em_qByID s" "\<forall>s2. same_tasks s1 s2 \<longrightarrow> prepared qls s2 md (em_qByID s2) (store s)"
    by (rule lock_prepared[OF assms(1,2)])
  have p: "prepared qls s1 md (em_qByID s1) (store s)" using l(3) by simp
  have g: "gm_ok (em_qByID s1)" using wf_mem_work(4)[OF assms(1)] l(2) by simp
  have n: "lockNamespaces T (pr_namespaces (modPrep md False s)) s1 = Inr ([], s1)"
    using no_docs_simps(1)[OF assms(3)] by (simp add: lockNamespaces_def)
  have b: "if task_deps_ok md now (store s) then \<exists>r. modifyBody T now False (modPrep md False s) qls [] s1 = Inr r
    else \<exists>e. modifyBody T now False (modPrep md False s) qls [] s1 = Inl (DependencyErr e) \<and> HasAny e"
    by (rule modifyBody_no_docs[OF p g assms(3)]) (simp_all add: l(2))
  show ?thesis
  proof (cases "task_deps_ok md now (store s)")
    case True
    then obtain r where "modifyBody T now False (modPrep md False s) qls [] s1 = Inr r" using b by auto
    then show ?thesis using True False l(1) n by (cases r) (simp add: modifyLocked_def)
  next
    case nok: False
    then obtain e where "modifyBody T now False (modPrep md False s) qls [] s1 = Inl (DependencyErr e)" "HasAny e" using b by auto
    then show ?thesis using nok False l(1) n by (simp add: modifyLocked_def)
  qed
qed

section \<open>What a commit does to one task\<close>

text \<open>The IDs that a modification writes: those of its changes, arrivals, deletes and inserts.\<close>

definition written_ids :: "Modification \<Rightarrow> string set" where
  "written_ids md = t_ID ` set (m_Changes md) \<union> (\<lambda>a. tid_ID (ta_TaskID a)) ` set (m_Arrives md) \<union>
     tid_ID ` set (m_Deletes md) \<union> td_ID ` set (m_Inserts md)"

lemma changes_ids:
  assumes "typed S"
  shows "t_ID ` set (m_Changes (arrival_Changes md S)) = t_ID ` set (m_Changes md) \<union> (\<lambda>a. tid_ID (ta_TaskID a)) ` set (m_Arrives md)"
proof -
  have fid: "t_ID t = i" if "S i = Some t" for i t using that assms by (simp add: typed_def)
  show ?thesis using TaskArrival_Change_sel(1)[OF fid] by (auto simp: image_Un image_image)
qed

lemma commit_untouched:
  assumes "typed S" "i \<notin> written_ids md"
  shows "commit_tasks (arrival_Changes md S) now S i = S i"
proof -
  have "i \<notin> t_ID ` set (m_Changes (arrival_Changes md S))" "i \<notin> tid_ID ` set (m_Deletes md)" "i \<notin> td_ID ` set (m_Inserts md)"
    using assms(2) unfolding changes_ids[OF assms(1)] written_ids_def by blast+
  then have "map_of (map (\<lambda>c. (t_ID c, changed_to (arrival_Changes md S) now (the (S (t_ID c))) c)) (m_Changes (arrival_Changes md S))) i = None"
    "map_of (map (\<lambda>td. (td_ID td, inserted_task (arrival_Changes md S) False now td)) (m_Inserts md)) i = None" "i \<in> - set (map tid_ID (m_Deletes md))"
    unfolding map_of_eq_None_iff set_map image_image by simp_all
  then show ?thesis unfolding commit_tasks_def arrival_Changes_sel(1,2) by (simp add: map_add_def restrict_map_def)
qed

lemma held_untouched:
  assumes "typed S" "task_deps_ok md now S" "S i = Some t" "otherwiseClaimed md t now"
  shows "i \<notin> written_ids md"
  using assms(2-4) unfolding written_ids_def task_deps_ok_def task_op_ok_def in_queue_def by fastforce

lemma map_of_map_pair: "map_of (map (\<lambda>x. (f x, g x)) xs) i = Some y \<Longrightarrow> \<exists>x \<in> set xs. f x = i \<and> y = g x"
  by (fastforce dest: map_of_SomeD)

lemma commit_at:
  assumes "typed S" "commit_tasks (arrival_Changes md S) now S i = Some t'"
  shows "S i = Some t' \<and> i \<notin> written_ids md \<or>
    (\<exists>c \<in> set (m_Changes (arrival_Changes md S)). t_ID c = i \<and> t' = changed_to (arrival_Changes md S) now (the (S i)) c) \<or>
    (\<exists>td \<in> set (m_Inserts md). td_ID td = i \<and> t' = inserted_task (arrival_Changes md S) False now td)"
proof (cases "i \<in> written_ids md")
  case False
  then show ?thesis using commit_untouched[OF assms(1) False, of now] assms(2) by simp
next
  case True
  let ?c = "map_of (map (\<lambda>c. (t_ID c, changed_to (arrival_Changes md S) now (the (S (t_ID c))) c)) (m_Changes (arrival_Changes md S)))"
  let ?i = "map_of (map (\<lambda>td. (td_ID td, inserted_task (arrival_Changes md S) False now td)) (m_Inserts md))"
  have e: "commit_tasks (arrival_Changes md S) now S = S |` (- set (map tid_ID (m_Deletes md))) ++ ?c ++ ?i"
    by (simp only: commit_tasks_def arrival_Changes_sel(1,2))
  from assms(2) consider "?i i = Some t'" | "?c i = Some t'" | "?i i = None" "?c i = None" "i \<notin> set (map tid_ID (m_Deletes md))"
    unfolding e by (auto simp: map_add_Some_iff restrict_map_def split: if_splits)
  then show ?thesis
  proof cases
    case 1
    from map_of_map_pair[OF this] show ?thesis by blast
  next
    case 2
    from map_of_map_pair[OF this] show ?thesis by blast
  next
    case 3
    then have "i \<notin> written_ids md"
      unfolding map_of_eq_None_iff set_map image_image written_ids_def changes_ids[OF assms(1), symmetric]
      by (simp add: image_def)
    with True show ?thesis by blast
  qed
qed

text \<open>Versions: a task a commit keeps is the same or one version on; a task it adds has version 0.\<close>

lemma commit_version:
  assumes "typed S" "task_deps_ok md now S" "commit_tasks (arrival_Changes md S) now S i = Some t'"
  shows "case S i of Some t \<Rightarrow> t' = t \<and> i \<notin> written_ids md \<or> i \<in> written_ids md \<and> t_Version t' = t_Version t + 1
    | None \<Rightarrow> i \<in> written_ids md \<and> t_Version t' = 0"
proof -
  have fid: "t_ID t = i" if "S i = Some t" for i t using that assms(1) by (simp add: typed_def)
  have w: "t_ID c \<in> written_ids md" if "c \<in> set (m_Changes (arrival_Changes md S))" for c
    using that changes_ids[OF assms(1), of md] unfolding written_ids_def by blast
  have v: "\<exists>t. S (t_ID c) = Some t \<and> t_Version t = t_Version c" if c: "c \<in> set (m_Changes (arrival_Changes md S))" for c
  proof -
    from c consider "c \<in> set (m_Changes md)"
      | a where "a \<in> set (m_Arrives md)" "c = TaskArrival_Change a (S (tid_ID (ta_TaskID a)))" by auto
    then show ?thesis
      by cases (use assms(2) TaskArrival_Change_sel[OF fid] in \<open>auto simp: task_deps_ok_def task_op_ok_def in_queue_def\<close>)
  qed
  from commit_at[OF assms(1,3)] show ?thesis
  proof (elim disjE bexE conjE)
    fix c assume c: "c \<in> set (m_Changes (arrival_Changes md S))" "t_ID c = i" "t' = changed_to (arrival_Changes md S) now (the (S i)) c"
    with v[OF c(1)] w[OF c(1)] show ?thesis by (auto simp: changed_to_def)
  next
    fix td assume "td \<in> set (m_Inserts md)" "td_ID td = i" "t' = inserted_task (arrival_Changes md S) False now td"
    with assms(2) show ?thesis
      by (auto simp: task_deps_ok_def inserted_task_def Let_def zero_Task_def written_ids_def)
  qed auto
qed

section \<open>Properties of Modify on tasks\<close>

text \<open>
  C1: Modify on a well-formed backend, whatever it is asked and whatever docs there are, leaves it
  well-formed and is a transaction on the tasks. When it returns an error no task has changed.
  When it succeeds, every operation named a task at its version, in its queue and not held by
  another claimant (inserts: no task at all), and the tasks are the ones before with the deleted ones
  removed and the changed and inserted ones written; these are the ones it returns, and
  the waiters of exactly the queues with newly available tasks are notified.
\<close>

theorem Modify_transaction:
  assumes "wf_mem s" "Modify T now md s = (s', r)"
  shows "wf_mem s' \<and>
    (case r of
       Inl e \<Rightarrow> store s' = store s
     | Inr (resp, notified) \<Rightarrow>
         task_deps_ok md now (store s) \<and> store s' = commit_tasks (arrival_Changes md (store s)) now (store s) \<and>
         mr_ChangedTasks resp = map (\<lambda>c. changed_to md now (the (store s (t_ID c))) c) (m_Changes (arrival_Changes md (store s))) \<and>
         mr_InsertedTasks resp = map (inserted_task md False now) (m_Inserts md) \<and>
         notified = NotifyModified (mr_InsertedTasks resp) (mr_ChangedTasks resp))"
  using Modify_tasks[OF assms] by (simp add: task_outcome_def)

definition ex_trees :: "(unit, unit) trees" where
  "ex_trees = \<lparr>tr_docs = \<lparr>bt_new = (), bt_ReplaceOrInsert = \<lambda>_ _. (), bt_Delete = \<lambda>_ _. (), bt_Get = \<lambda>_ _. None,
       bt_Len = \<lambda>_. 0, bt_Ascend = \<lambda>_. [], bt_AscendGreaterOrEqual = \<lambda>_ _. [], bt_AscendRange = \<lambda>_ _ _. []\<rparr>,
     tr_locks = \<lparr>bt_new = (), bt_ReplaceOrInsert = \<lambda>_ _. (), bt_Delete = \<lambda>_ _. (), bt_Get = \<lambda>_ _. None,
       bt_Len = \<lambda>_. 0, bt_Ascend = \<lambda>_. [], bt_AscendGreaterOrEqual = \<lambda>_ _. [], bt_AscendRange = \<lambda>_ _ _. []\<rparr>\<rparr>"

text \<open>A modification that moves the task of \<^const>\<open>ex_mem\<close> to another queue and inserts a second one.\<close>

definition ex_move :: Modification where
  "ex_move = zero_Modification\<lparr>m_Claimant := ''me'',
     m_Changes := [ex_claimable\<lparr>t_Queue := ''r'', t_FromQueue := ''q'', t_by := 3\<rparr>],
     m_Inserts := [\<lparr>td_Queue = ''q'', td_by = 0, td_Value = None, td_Attempt = 0, td_Err = [], td_ID = ''b'', td_At = 0,
       td_Created = 0, td_Modified = 0\<rparr>]\<rparr>"

theorem Modify_transaction_witness:
  "\<exists>s' resp notified. Modify ex_trees 6 ex_move ex_mem = (s', Inr (resp, notified)) \<and> wf_mem s' \<and>
     map_option t_Queue (store s' ''a'') = Some ''r'' \<and> map_option t_Version (store s' ''a'') = Some 1 \<and>
     map_option t_Queue (store s' ''b'') = Some ''q''"
proof -
  have "isl (snd (Modify ex_trees 6 ex_move ex_mem)) = False" by code_simp
  then obtain s' resp notified where m: "Modify ex_trees 6 ex_move ex_mem = (s', Inr (resp, notified))"
    by (cases "Modify ex_trees 6 ex_move ex_mem"; cases "snd (Modify ex_trees 6 ex_move ex_mem)") auto
  from Modify_transaction[OF ex_mem_ok(1) m] have st: "wf_mem s'"
    "store s' = commit_tasks (arrival_Changes ex_move [''a'' \<mapsto> ex_claimable]) 6 [''a'' \<mapsto> ex_claimable]"
    by (simp_all add: ex_mem_ok(2))
  have "map_option t_Queue (store s' ''a'') = Some ''r'' \<and> map_option t_Version (store s' ''a'') = Some 1 \<and>
     map_option t_Queue (store s' ''b'') = Some ''q''"
    unfolding st(2)
    by (simp add: commit_tasks_def ex_move_def zero_Modification_def arrival_Changes_def map_add_def
        changed_to_def inserted_task_def ex_claimable_def zero_Task_def Let_def)
  with m st(1) show ?thesis by blast
qed

text \<open>
  A modification of tasks alone succeeds exactly when it is valid, its inserts have IDs, and
  every one of its operations can be applied to the tasks stored; it never panics, and when only the
  last fails, the error it returns is a dependency error with a failure in it.
\<close>

theorem Modify_tasks_complete:
  assumes "wf_mem s" "no_docs md"
  shows "((\<exists>s' r. Modify T now md s = (s', Inr r)) \<longleftrightarrow>
      validate_Modification md = None \<and> missing_ids md = None \<and> task_deps_ok md now (store s)) \<and>
    (validate_Modification md = None \<and> missing_ids md = None \<and> \<not> task_deps_ok md now (store s) \<longrightarrow>
      (\<exists>e. snd (Modify T now md s) = Inl (DependencyErr e) \<and> HasAny e))"
proof -
  have v: "if task_deps_ok md now (store s) then \<exists>s' r. Modify T now md s = (s', Inr r)
      else \<exists>s' e. Modify T now md s = (s', Inl (DependencyErr e)) \<and> HasAny e"
    if "validate_Modification md = None" "missing_ids md = None"
    using modifyLocked_no_docs[OF assms(1) valid_tasks_intro[OF that] assms(2), of now T] that
    by (auto simp: Modify_def modifyImpl_def split: if_splits)
  have "(\<exists>s' r. Modify T now md s = (s', Inr r)) \<longleftrightarrow>
      validate_Modification md = None \<and> missing_ids md = None \<and> task_deps_ok md now (store s)"
  proof (cases "validate_Modification md = None \<and> missing_ids md = None")
    case True
    then show ?thesis using v by (auto split: if_splits)
  next
    case False
    then show ?thesis by (auto simp: Modify_def modifyImpl_def split: option.splits)
  qed
  moreover have "validate_Modification md = None \<and> missing_ids md = None \<and> \<not> task_deps_ok md now (store s) \<longrightarrow>
      (\<exists>e. snd (Modify T now md s) = Inl (DependencyErr e) \<and> HasAny e)"
    using v by auto
  ultimately show ?thesis by blast
qed

theorem Modify_tasks_complete_witness:
  "\<exists>e. snd (Modify ex_trees 6 (ex_move\<lparr>m_Changes := [ex_claimable\<lparr>t_Version := 7\<rparr>]\<rparr>) ex_mem) = Inl (DependencyErr e) \<and> HasAny e"
proof -
  let ?m = "ex_move\<lparr>m_Changes := [ex_claimable\<lparr>t_Version := 7\<rparr>]\<rparr>"
  have "validate_Modification ?m = None \<and> missing_ids ?m = None" by code_simp
  moreover have "no_docs ?m" by (simp add: no_docs_def ex_move_def zero_Modification_def)
  moreover have "\<not> task_deps_ok ?m 6 (store ex_mem)"
    by (simp add: task_deps_ok_def task_op_ok_def in_queue_def ex_mem_ok(2) ex_move_def ex_claimable_def zero_Task_def)
  ultimately show ?thesis using Modify_tasks_complete[OF ex_mem_ok(1), of ?m ex_trees 6] by blast
qed

end
