(* ===== verification/DocNamespaceFacts.thy ===== *)
theory DocNamespaceFacts
  imports DocNamespace
begin

text \<open>
  The docs and locks of one namespace: the invariant that ties the map by ID to the ordered tree,
  what every operation does to the two maps a caller sees, and a list implementation of
  the trees that satisfies the laws the code relies on.
\<close>

section \<open>The laws of the trees in use\<close>

definition trees_ok :: "('dt, 'lt) trees \<Rightarrow> ('dt \<Rightarrow> bool) \<Rightarrow> ('lt \<Rightarrow> bool) \<Rightarrow> bool" where
  "trees_ok T okd okl \<longleftrightarrow> btree_ok docKeyLess (tr_docs T) okd \<and> btree_ok lockKeyLess (tr_locks T) okl"

lemma btree_okD:
  assumes "btree_ok lt T ok"
  shows "ok (bt_new T)" "bt_Ascend T (bt_new T) = []"
    "ok t \<Longrightarrow> ok (bt_ReplaceOrInsert T e t)" "ok t \<Longrightarrow> ok (bt_Delete T e t)"
    "ok t \<Longrightarrow> set (bt_Ascend T (bt_ReplaceOrInsert T e t)) = insert e {x \<in> set (bt_Ascend T t). \<not> equiv_by lt e x}"
    "ok t \<Longrightarrow> set (bt_Ascend T (bt_Delete T e t)) = {x \<in> set (bt_Ascend T t). \<not> equiv_by lt e x}"
    "ok t \<Longrightarrow> sorted_wrt lt (bt_Ascend T t)" "ok t \<Longrightarrow> bt_Len T t = int (length (bt_Ascend T t))"
    "ok t \<Longrightarrow> bt_Get T e t = Some x \<longleftrightarrow> x \<in> set (bt_Ascend T t) \<and> equiv_by lt e x"
    "ok t \<Longrightarrow> bt_AscendGreaterOrEqual T e t = filter (\<lambda>x. \<not> lt x e) (bt_Ascend T t)"
    "ok t \<Longrightarrow> bt_AscendRange T e x t = filter (\<lambda>y. \<not> lt y e \<and> lt y x) (bt_Ascend T t)"
  using assms by (simp_all add: btree_ok_def)

lemma docKeyLess_equiv: "equiv_by docKeyLess a b \<longleftrightarrow> dk_Key a = dk_Key b \<and> dk_Secondary a = dk_Secondary b \<and> dk_ID a = dk_ID b"
  by (auto simp: equiv_by_def docKeyLess_def)

lemma lockKeyLess_equiv: "equiv_by lockKeyLess a b \<longleftrightarrow> le_Key a = le_Key b"
  by (auto simp: equiv_by_def lockKeyLess_def)

section \<open>The invariant of a namespace\<close>

definition dn_ok :: "('dt, 'lt) trees \<Rightarrow> ('dt \<Rightarrow> bool) \<Rightarrow> ('lt \<Rightarrow> bool) \<Rightarrow> ('dt, 'lt) docNamespace \<Rightarrow> bool" where
  "dn_ok T okd okl s \<longleftrightarrow> gm_ok (dn_byID s) \<and> okd (dn_byKey s) \<and> okl (dn_locks s) \<and>
     (\<forall>i d. map_of (dn_byID s) i = Some d \<longrightarrow> d_ID d = i \<and> d_Namespace d = dn_name s) \<and>
     set (bt_Ascend (tr_docs T) (dn_byKey s)) = entryFor ` ran (map_of (dn_byID s))"

lemma dn_ok_new: "trees_ok T okd okl \<Longrightarrow> dn_ok T okd okl (newDocNamespace T n)"
  using btree_okD(1,2)[of docKeyLess "tr_docs T" okd] btree_okD(1)[of lockKeyLess "tr_locks T" okl]
  by (simp add: dn_ok_def newDocNamespace_def trees_ok_def)

lemma entryFor_sel [simp]:
  "dk_Key (entryFor d) = d_Key d" "dk_Secondary (entryFor d) = d_SecondaryKey d" "dk_ID (entryFor d) = d_ID d"
  "dk_Doc (entryFor d) = Some d"
  by (simp_all add: entryFor_def)

lemma dn_ok_Set:
  assumes "trees_ok T okd okl" "dn_ok T okd okl s" "d_ID d = i" "d_Namespace d = dn_name s"
  shows "dn_ok T okd okl (dn_Set T i d s)"
    and "map_of (dn_byID (dn_Set T i d s)) = (map_of (dn_byID s))(i \<mapsto> d)"
    and "dn_locks (dn_Set T i d s) = dn_locks s" "dn_name (dn_Set T i d s) = dn_name s"
proof -
  let ?m = "map_of (dn_byID s)"
  define t where "t = (case ?m i of Some old \<Rightarrow> bt_Delete (tr_docs T) (entryFor old) (dn_byKey s) | None \<Rightarrow> dn_byKey s)"
  have bt: "btree_ok docKeyLess (tr_docs T) okd" using assms(1) by (simp add: trees_ok_def)
  have ok: "okd (dn_byKey s)" "set (bt_Ascend (tr_docs T) (dn_byKey s)) = entryFor ` ran ?m"
    "\<And>j e. ?m j = Some e \<Longrightarrow> d_ID e = j" using assms(2) by (simp_all add: dn_ok_def)
  have tt: "okd t \<and> set (bt_Ascend (tr_docs T) t) = entryFor ` ran (?m(i := None))"
  proof (cases "?m i")
    case None
    then show ?thesis using ok by (simp add: t_def fun_upd_idem)
  next
    case (Some old)
    then have "okd t" using ok btree_okD(4)[OF bt] by (simp add: t_def)
    moreover have "ran (?m(i := None)) = {e \<in> ran ?m. d_ID e \<noteq> i}"
      using ok(3) by (auto simp: ran_def split: if_splits)
    moreover have "equiv_by docKeyLess (entryFor old) (entryFor e) \<longleftrightarrow> d_ID e = i" if "e \<in> ran ?m" for e
      using that Some ok(3) by (auto simp: docKeyLess_equiv ran_def)
    ultimately show ?thesis
      using Some ok btree_okD(6)[OF bt ok(1), of "entryFor old"] by (auto simp: t_def)
  qed
  then have t: "okd t" "set (bt_Ascend (tr_docs T) t) = entryFor ` ran (?m(i := None))" by simp_all
  have s': "dn_Set T i d s = s\<lparr>dn_byKey := bt_ReplaceOrInsert (tr_docs T) (entryFor d) t, dn_byID := gm_set i d (dn_byID s)\<rparr>"
    by (simp add: dn_Set_def t_def Let_def)
  show m: "map_of (dn_byID (dn_Set T i d s)) = ?m(i \<mapsto> d)" by (simp add: s' fun_eq_iff)
  show "dn_locks (dn_Set T i d s) = dn_locks s" "dn_name (dn_Set T i d s) = dn_name s" by (simp_all add: s')
  have "\<not> equiv_by docKeyLess (entryFor d) (entryFor e)" if "e \<in> ran (?m(i := None))" for e
    using that ok(3) assms(3) by (auto simp: docKeyLess_equiv ran_def split: if_splits)
  then have "set (bt_Ascend (tr_docs T) (bt_ReplaceOrInsert (tr_docs T) (entryFor d) t)) = insert (entryFor d) (entryFor ` ran (?m(i := None)))"
    using btree_okD(5)[OF bt t(1), of "entryFor d"] t(2) by auto
  also have "\<dots> = entryFor ` ran (?m(i \<mapsto> d))" by (auto simp: ran_def split: if_splits)
  finally show "dn_ok T okd okl (dn_Set T i d s)"
    using assms(2-4) btree_okD(3)[OF bt t(1)] m by (auto simp: dn_ok_def s' split: if_splits)
qed

lemma dn_ok_Delete:
  assumes "trees_ok T okd okl" "dn_ok T okd okl s"
  shows "dn_ok T okd okl (dn_Delete T i s)"
    and "map_of (dn_byID (dn_Delete T i s)) = (map_of (dn_byID s))(i := None)"
    and "dn_locks (dn_Delete T i s) = dn_locks s" "dn_name (dn_Delete T i s) = dn_name s"
proof -
  let ?m = "map_of (dn_byID s)"
  have bt: "btree_ok docKeyLess (tr_docs T) okd" using assms(1) by (simp add: trees_ok_def)
  have ok: "okd (dn_byKey s)" "set (bt_Ascend (tr_docs T) (dn_byKey s)) = entryFor ` ran ?m"
    "\<And>j e. ?m j = Some e \<Longrightarrow> d_ID e = j" using assms(2) by (simp_all add: dn_ok_def)
  show m: "map_of (dn_byID (dn_Delete T i s)) = ?m(i := None)"
    by (simp add: dn_Delete_def fun_eq_iff split: option.splits)
  show "dn_locks (dn_Delete T i s) = dn_locks s" "dn_name (dn_Delete T i s) = dn_name s"
    by (simp_all add: dn_Delete_def split: option.splits)
  show "dn_ok T okd okl (dn_Delete T i s)"
  proof (cases "?m i")
    case None
    then show ?thesis using assms(2) by (simp add: dn_Delete_def)
  next
    case (Some old)
    have "ran (?m(i := None)) = {e \<in> ran ?m. d_ID e \<noteq> i}"
      using ok(3) by (auto simp: ran_def split: if_splits)
    moreover have "equiv_by docKeyLess (entryFor old) (entryFor e) \<longleftrightarrow> d_ID e = i" if "e \<in> ran ?m" for e
      using that Some ok(3) by (auto simp: docKeyLess_equiv ran_def)
    ultimately have "set (bt_Ascend (tr_docs T) (bt_Delete (tr_docs T) (entryFor old) (dn_byKey s))) = entryFor ` ran (?m(i := None))"
      using ok btree_okD(6)[OF bt ok(1), of "entryFor old"] by auto
    with Some m show ?thesis
      using assms(2) btree_okD(4)[OF bt ok(1)] by (auto simp: dn_ok_def dn_Delete_def split: if_splits)
  qed
qed

section \<open>Locks\<close>

lemma lockIn_iff:
  assumes "btree_ok lockKeyLess (tr_locks T) okl" "okl t"
  shows "bt_Get (tr_locks T) \<lparr>le_Key = key, le_Lock = l0\<rparr> t = Some e \<longleftrightarrow> e \<in> set (bt_Ascend (tr_locks T) t) \<and> le_Key e = key"
  using btree_okD(9)[OF assms] by (auto simp: lockKeyLess_equiv)

lemma lock_entries_unique:
  assumes "btree_ok lockKeyLess (tr_locks T) okl" "okl t" "a \<in> set (bt_Ascend (tr_locks T) t)" "b \<in> set (bt_Ascend (tr_locks T) t)"
    "le_Key a = le_Key b"
  shows "a = b"
proof -
  have "sorted_wrt lockKeyLess xs \<Longrightarrow> a \<in> set xs \<Longrightarrow> b \<in> set xs \<Longrightarrow> a = b" for xs
    using assms(5) by (induction xs) (auto simp: lockKeyLess_def)
  with btree_okD(7)[OF assms(1,2)] assms(3,4) show ?thesis by blast
qed

lemma dn_Lock_SetLock:
  assumes "trees_ok T okd okl" "dn_ok T okd okl s"
  shows "dn_ok T okd okl (SetLock T key l s)" "dn_Lock T k (SetLock T key l s) = (if k = key then l else dn_Lock T k s)"
    "dn_byID (SetLock T key l s) = dn_byID s" "dn_name (SetLock T key l s) = dn_name s"
proof -
  let ?L = "tr_locks T" and ?e = "\<lparr>le_Key = key, le_Lock = l\<rparr>"
  have bt: "btree_ok lockKeyLess ?L okl" and ok: "okl (dn_locks s)" using assms by (simp_all add: trees_ok_def dn_ok_def)
  note ok' = btree_okD(3)[OF bt ok, of ?e]
  show "dn_ok T okd okl (SetLock T key l s)" using assms(2) ok' by (simp add: dn_ok_def SetLock_def)
  show "dn_byID (SetLock T key l s) = dn_byID s" "dn_name (SetLock T key l s) = dn_name s" by (simp_all add: SetLock_def)
  have g: "bt_Get ?L \<lparr>le_Key = k, le_Lock = Absent\<rparr> (bt_ReplaceOrInsert ?L ?e (dn_locks s)) = Some x \<longleftrightarrow>
      (if k = key then x = ?e else bt_Get ?L \<lparr>le_Key = k, le_Lock = Absent\<rparr> (dn_locks s) = Some x)" for x
    unfolding lockIn_iff[OF bt ok'] lockIn_iff[OF bt ok] btree_okD(5)[OF bt ok] by (auto simp: lockKeyLess_equiv)
  show "dn_Lock T k (SetLock T key l s) = (if k = key then l else dn_Lock T k s)"
  proof (cases "k = key")
    case True
    then have "bt_Get ?L \<lparr>le_Key = k, le_Lock = Absent\<rparr> (bt_ReplaceOrInsert ?L ?e (dn_locks s)) = Some ?e" using g by simp
    with True show ?thesis by (simp add: dn_Lock_def lockIn_def SetLock_def)
  next
    case False
    then have "bt_Get ?L \<lparr>le_Key = k, le_Lock = Absent\<rparr> (bt_ReplaceOrInsert ?L ?e (dn_locks s)) =
        bt_Get ?L \<lparr>le_Key = k, le_Lock = Absent\<rparr> (dn_locks s)" using g by (metis option.exhaust)
    with False show ?thesis by (simp add: dn_Lock_def lockIn_def SetLock_def)
  qed
qed

lemma dn_Lock_DeleteLock:
  assumes "trees_ok T okd okl" "dn_ok T okd okl s"
  shows "dn_ok T okd okl (DeleteLock T key s)" "dn_Lock T k (DeleteLock T key s) = (if k = key then Absent else dn_Lock T k s)"
    "dn_byID (DeleteLock T key s) = dn_byID s" "dn_name (DeleteLock T key s) = dn_name s"
proof -
  let ?L = "tr_locks T" and ?e = "\<lparr>le_Key = key, le_Lock = Absent\<rparr>"
  have bt: "btree_ok lockKeyLess ?L okl" and ok: "okl (dn_locks s)" using assms by (simp_all add: trees_ok_def dn_ok_def)
  note ok' = btree_okD(4)[OF bt ok, of ?e]
  show "dn_ok T okd okl (DeleteLock T key s)" using assms(2) ok' by (simp add: dn_ok_def DeleteLock_def)
  show "dn_byID (DeleteLock T key s) = dn_byID s" "dn_name (DeleteLock T key s) = dn_name s" by (simp_all add: DeleteLock_def)
  have g: "bt_Get ?L \<lparr>le_Key = k, le_Lock = Absent\<rparr> (bt_Delete ?L ?e (dn_locks s)) = Some x \<longleftrightarrow>
      k \<noteq> key \<and> bt_Get ?L \<lparr>le_Key = k, le_Lock = Absent\<rparr> (dn_locks s) = Some x" for x
    unfolding lockIn_iff[OF bt ok'] lockIn_iff[OF bt ok] btree_okD(6)[OF bt ok] by (auto simp: lockKeyLess_equiv)
  have "bt_Get ?L \<lparr>le_Key = k, le_Lock = Absent\<rparr> (bt_Delete ?L ?e (dn_locks s)) =
      (if k = key then None else bt_Get ?L \<lparr>le_Key = k, le_Lock = Absent\<rparr> (dn_locks s))" using g by (metis not_None_eq)
  then show "dn_Lock T k (DeleteLock T key s) = (if k = key then Absent else dn_Lock T k s)"
    by (simp add: dn_Lock_def lockIn_def DeleteLock_def)
qed

lemma dn_Lock_new: "trees_ok T okd okl \<Longrightarrow> dn_Lock T k (newDocNamespace T n) = Absent"
  using btree_okD(1,2,9)[of lockKeyLess "tr_locks T" okl]
  by (cases "bt_Get (tr_locks T) \<lparr>le_Key = k, le_Lock = Absent\<rparr> (bt_new (tr_locks T))")
    (auto simp: dn_Lock_def lockIn_def newDocNamespace_def trees_ok_def)

section \<open>The docs of a set\<close>

definition docs_list :: "('dt, 'lt) trees \<Rightarrow> ('dt, 'lt) docNamespace \<Rightarrow> Doc list" where
  "docs_list T s = map (\<lambda>e. the (dk_Doc e)) (bt_Ascend (tr_docs T) (dn_byKey s))"

lemma docs_list_ok:
  assumes "trees_ok T okd okl" "dn_ok T okd okl s"
  shows "bt_Ascend (tr_docs T) (dn_byKey s) = map entryFor (docs_list T s)" "set (docs_list T s) = ran (map_of (dn_byID s))"
    "sorted_wrt (\<lambda>a b. docKeyLess (entryFor a) (entryFor b)) (docs_list T s)"
proof -
  have bt: "btree_ok docKeyLess (tr_docs T) okd" using assms(1) by (simp add: trees_ok_def)
  have ok: "okd (dn_byKey s)" "set (bt_Ascend (tr_docs T) (dn_byKey s)) = entryFor ` ran (map_of (dn_byID s))"
    using assms(2) by (simp_all add: dn_ok_def)
  have "entryFor (the (dk_Doc e)) = e" if "e \<in> set (bt_Ascend (tr_docs T) (dn_byKey s))" for e
    using that ok(2) by auto
  then show e: "bt_Ascend (tr_docs T) (dn_byKey s) = map entryFor (docs_list T s)"
    by (simp add: docs_list_def map_idI)
  show "set (docs_list T s) = ran (map_of (dn_byID s))"
    using ok(2) by (simp add: docs_list_def image_image)
  show "sorted_wrt (\<lambda>a b. docKeyLess (entryFor a) (entryFor b)) (docs_list T s)"
    using btree_okD(7)[OF bt ok(1)] by (simp add: e sorted_wrt_map)
qed

lemma takeWhile_sorted:
  "sorted_wrt (\<lambda>a b. f a \<le> f b) xs \<Longrightarrow> takeWhile (\<lambda>x. f x = k) (filter (\<lambda>x. k \<le> f x) xs) = filter (\<lambda>x. f x = (k :: 'a :: linorder)) xs"
proof (induction xs)
  case (Cons x xs)
  show ?case
  proof (cases "k < f x")
    case True
    then have "filter (\<lambda>x. f x = k) xs = []" using Cons.prems by (auto simp: filter_empty_conv)
    with True show ?thesis by auto
  qed (use Cons in auto)
qed simp

lemma Members_eq:
  assumes "trees_ok T okd okl" "dn_ok T okd okl s"
  shows "Members T key s = filter (\<lambda>d. d_Key d = key) (docs_list T s)"
proof -
  note d = docs_list_ok[OF assms]
  have ok: "okd (dn_byKey s)" and bt: "btree_ok docKeyLess (tr_docs T) okd" using assms by (simp_all add: dn_ok_def trees_ok_def)
  have p: "\<not> docKeyLess (entryFor d) (pivot key) \<longleftrightarrow> key \<le> d_Key d" for d
    by (auto simp: docKeyLess_def pivot_def not_less)
  have "AscendFrom T (pivot key) s = filter (\<lambda>d. key \<le> d_Key d) (docs_list T s)"
    by (simp add: AscendFrom_def btree_okD(10)[OF bt ok] d(1) filter_map o_def p List.map_filter_def)
  moreover have "sorted_wrt (\<lambda>a b. d_Key a \<le> d_Key b) (docs_list T s)"
    using d(3) by (rule sorted_wrt_mono_rel[rotated]) (auto simp: docKeyLess_def split: if_splits)
  ultimately show ?thesis by (simp add: Members_def takeWhile_sorted)
qed

lemma Occupant_eq: "Occupant T key sec s = find (\<lambda>d. d_SecondaryKey d = sec) (Members T key s)"
  by (simp add: Occupant_def Members_def)

section \<open>Trees as sorted lists\<close>

definition list_tree :: "('e \<Rightarrow> 'e \<Rightarrow> bool) \<Rightarrow> ('e list, 'e) btree" where
  "list_tree lt = \<lparr>bt_new = [],
     bt_ReplaceOrInsert = \<lambda>e t. filter (\<lambda>x. lt x e) t @ e # filter (\<lambda>x. lt e x) t,
     bt_Delete = \<lambda>e. filter (\<lambda>x. \<not> equiv_by lt e x), bt_Get = \<lambda>e. find (equiv_by lt e),
     bt_Len = \<lambda>t. int (length t), bt_Ascend = \<lambda>t. t, bt_AscendGreaterOrEqual = \<lambda>p. filter (\<lambda>x. \<not> lt x p),
     bt_AscendRange = \<lambda>p q. filter (\<lambda>x. \<not> lt x p \<and> lt x q)\<rparr>"

lemma find_unique:
  assumes "\<And>x y. x \<in> set xs \<Longrightarrow> y \<in> set xs \<Longrightarrow> P x \<Longrightarrow> P y \<Longrightarrow> x = y"
  shows "find P xs = Some x \<longleftrightarrow> x \<in> set xs \<and> P x"
proof
  assume "find P xs = Some x"
  then show "x \<in> set xs \<and> P x" by (auto simp: find_Some_iff)
next
  assume x: "x \<in> set xs \<and> P x"
  then obtain y where y: "find P xs = Some y" by (cases "find P xs") (auto simp: find_None_iff)
  then have "y \<in> set xs \<and> P y" by (auto simp: find_Some_iff)
  with y x assms show "find P xs = Some x" by blast
qed

lemma list_tree_ok:
  assumes tr: "\<And>a b c. lt a b \<Longrightarrow> lt b c \<Longrightarrow> lt a c" and irr: "\<And>a. \<not> lt a a"
    and eq: "\<And>a b c. equiv_by lt a b \<Longrightarrow> equiv_by lt a c \<Longrightarrow> equiv_by lt b c"
  shows "btree_ok lt (list_tree lt) (sorted_wrt lt)"
proof -
  have u: "x = y" if "sorted_wrt lt t" "x \<in> set t" "y \<in> set t" "equiv_by lt e x" "equiv_by lt e y" for t x y e
  proof -
    have "equiv_by lt x y" using eq that(4,5) by blast
    then have "\<not> lt x y" "\<not> lt y x" by (auto simp: equiv_by_def)
    with that(1-3) show ?thesis by (induction t) auto
  qed
  have "find (equiv_by lt e) t = Some x \<longleftrightarrow> x \<in> set t \<and> equiv_by lt e x" if "sorted_wrt lt t" for t e x
    by (rule find_unique) (use u[OF that] in blast)
  moreover have "sorted_wrt lt (filter (\<lambda>x. lt x e) t @ e # filter (\<lambda>x. lt e x) t)" if "sorted_wrt lt t" for t e
    using that tr by (auto simp: sorted_wrt_append sorted_wrt_filter)
  moreover have "insert e ({x \<in> set t. lt x e} \<union> {x \<in> set t. lt e x}) = insert e {x \<in> set t. \<not> equiv_by lt e x}" for t e
    by (auto simp: equiv_by_def)
  ultimately show ?thesis by (auto simp: btree_ok_def list_tree_def sorted_wrt_filter)
qed

lemma docKeyLess_trans: "docKeyLess a b \<Longrightarrow> docKeyLess b c \<Longrightarrow> docKeyLess a c"
  by (auto simp: docKeyLess_def split: if_splits intro: less_trans)

definition list_trees :: "(docKeyEntry list, lockEntry list) trees" where
  "list_trees = \<lparr>tr_docs = list_tree docKeyLess, tr_locks = list_tree lockKeyLess\<rparr>"

lemma list_trees_ok: "trees_ok list_trees (sorted_wrt docKeyLess) (sorted_wrt lockKeyLess)"
  unfolding trees_ok_def list_trees_def
  by (auto intro!: list_tree_ok simp: docKeyLess_equiv lockKeyLess_equiv intro: docKeyLess_trans)
    (auto simp: docKeyLess_def lockKeyLess_def)

section \<open>Properties of a namespace\<close>

text \<open>
  C22: given trees that keep their documented laws, a well-formed namespace behaves as two maps, from
  IDs to docs and from primary keys to locks: Set, Delete, SetLock and DeleteLock keep it
  well-formed and write exactly the entry named. Members lists exactly the docs of a set, in the
  order of their secondary keys; Occupant finds the doc that holds a secondary key.
\<close>

theorem docNamespace_refines_maps:
  assumes "trees_ok T okd okl" "dn_ok T okd okl s" "d_ID d = i" "d_Namespace d = dn_name s"
  shows "dn_ok T okd okl (dn_Set T i d s) \<and> (\<forall>j. dn_Get j (dn_Set T i d s) = (if j = i then Some d else dn_Get j s)) \<and>
    dn_ok T okd okl (dn_Delete T i s) \<and> (\<forall>j. dn_Get j (dn_Delete T i s) = (if j = i then None else dn_Get j s)) \<and>
    dn_ok T okd okl (SetLock T key l s) \<and> (\<forall>k. dn_Lock T k (SetLock T key l s) = (if k = key then l else dn_Lock T k s)) \<and>
    dn_ok T okd okl (DeleteLock T key s) \<and> (\<forall>k. dn_Lock T k (DeleteLock T key s) = (if k = key then Absent else dn_Lock T k s)) \<and>
    set (Members T key s) = {x. \<exists>j. dn_Get j s = Some x \<and> d_Key x = key} \<and>
    sorted_wrt (\<lambda>a b. d_SecondaryKey a < d_SecondaryKey b \<or> d_SecondaryKey a = d_SecondaryKey b \<and> d_ID a < d_ID b) (Members T key s) \<and>
    (Occupant T key sec s = None \<longleftrightarrow> (\<forall>j x. dn_Get j s = Some x \<longrightarrow> \<not> (d_Key x = key \<and> d_SecondaryKey x = sec))) \<and>
    (\<forall>x. Occupant T key sec s = Some x \<longrightarrow> dn_Get (d_ID x) s = Some x \<and> d_Key x = key \<and> d_SecondaryKey x = sec)"
proof -
  note dl = docs_list_ok[OF assms(1,2)]
  have mem: "set (Members T key s) = {x. \<exists>j. dn_Get j s = Some x \<and> d_Key x = key}"
    by (auto simp: Members_eq[OF assms(1,2)] dl(2) ran_def dn_Get_def)
  have "sorted_wrt (\<lambda>a b. docKeyLess (entryFor a) (entryFor b)) (Members T key s)"
    using dl(3) by (simp add: Members_eq[OF assms(1,2)] sorted_wrt_filter)
  then have "sorted_wrt (\<lambda>a b. d_SecondaryKey a < d_SecondaryKey b \<or> d_SecondaryKey a = d_SecondaryKey b \<and> d_ID a < d_ID b) (Members T key s)"
    by (rule sorted_wrt_mono_rel[rotated]) (auto simp: mem docKeyLess_def split: if_splits)
  moreover have "Occupant T key sec s = None \<longleftrightarrow> (\<forall>j x. dn_Get j s = Some x \<longrightarrow> \<not> (d_Key x = key \<and> d_SecondaryKey x = sec))"
    using mem by (auto simp: Occupant_eq find_None_iff)
  moreover have "dn_Get (d_ID x) s = Some x \<and> d_Key x = key \<and> d_SecondaryKey x = sec" if "Occupant T key sec s = Some x" for x
  proof -
    have x: "x \<in> set (Members T key s)" "d_SecondaryKey x = sec" using that by (auto simp: Occupant_eq find_Some_iff)
    then obtain j where j: "dn_Get j s = Some x" "d_Key x = key" using mem by blast
    then have "d_ID x = j" using assms(2) by (simp add: dn_ok_def dn_Get_def)
    with j x show ?thesis by simp
  qed
  ultimately show ?thesis
    using mem dn_ok_Set[OF assms] dn_ok_Delete[OF assms(1,2)] dn_Lock_SetLock[OF assms(1,2)] dn_Lock_DeleteLock[OF assms(1,2)]
    by (simp add: dn_Get_def)
qed

definition ex_doc :: Doc where
  "ex_doc = \<lparr>d_Namespace = ''n'', d_ID = ''d'', d_Version = 0, d_Claimant = [], d_by = 0, d_At = 0, d_Key = ''k'',
     d_SecondaryKey = ''s'', d_Content = None, d_Created = 0, d_Modified = 0\<rparr>"

theorem docNamespace_refines_maps_witness:
  "dn_Get ''d'' (dn_Set list_trees ''d'' ex_doc (newDocNamespace list_trees ''n'')) = Some ex_doc \<and>
   Members list_trees ''k'' (newDocNamespace list_trees ''n'') = []"
  using docNamespace_refines_maps[OF list_trees_ok dn_ok_new[OF list_trees_ok, of "''n''"], of ex_doc "''d''" "''k''" Absent "''s''"]
  by (simp add: ex_doc_def newDocNamespace_def dn_Get_def)

end
