(* ===== verification/EQMemNamespaces.thy ===== *)
theory EQMemNamespaces
  imports EQMemTasks DocNamespaceFacts
begin

text \<open>
  The namespaces of the in-memory backend: the invariant that ties each namespace's docs and lock
  structure together, and the effect of locking, unlocking and writing on the docs and set
  locks that a caller sees.
\<close>

section \<open>Views and invariants\<close>

definition docs_at :: "('dt, 'lt) EQMem \<Rightarrow> string \<Rightarrow> string \<Rightarrow> Doc option" where
  "docs_at s n = (case map_of (em_namespaces s) n of Some nss \<Rightarrow> map_of (dn_byID nss) | None \<Rightarrow> Map.empty)"

definition nsdeps :: "('dt, 'lt) EQMem \<Rightarrow> string \<Rightarrow> int" where
  "nsdeps s n = (case map_of (em_nslocks s) n of Some d \<Rightarrow> d | None \<Rightarrow> 0)"

definition ns_ok :: "('dt, 'lt) trees \<Rightarrow> ('dt \<Rightarrow> bool) \<Rightarrow> ('lt \<Rightarrow> bool) \<Rightarrow> ('dt, 'lt) EQMem \<Rightarrow> bool" where
  "ns_ok T okd okl s \<longleftrightarrow> gm_ok (em_namespaces s) \<and> gm_ok (em_nslocks s) \<and>
     (\<forall>n. (map_of (em_namespaces s) n = None) = (map_of (em_nslocks s) n = None)) \<and>
     (\<forall>n nss. map_of (em_namespaces s) n = Some nss \<longrightarrow> dn_ok T okd okl nss \<and> dn_name nss = n)"

text \<open>A namespace is kept only while it has docs or locks or an operation depends on it.\<close>

definition ns_live :: "('dt, 'lt) trees \<Rightarrow> ('dt, 'lt) EQMem \<Rightarrow> bool" where
  "ns_live T s \<longleftrightarrow> (\<forall>n d nss. map_of (em_nslocks s) n = Some d \<longrightarrow> map_of (em_namespaces s) n = Some nss \<longrightarrow>
     0 \<le> d \<and> (d = 0 \<longrightarrow> dn_Len T nss \<noteq> 0))"

definition nk :: "('dt, 'lt) trees \<Rightarrow> ('dt \<Rightarrow> bool) \<Rightarrow> ('lt \<Rightarrow> bool) \<Rightarrow> ('dt, 'lt) EQMem \<Rightarrow> bool" where
  "nk T okd okl s \<longleftrightarrow> ns_ok T okd okl s \<and> ns_live T s"

lemma ns_ok_cases:
  assumes "ns_ok T okd okl s"
  obtains "map_of (em_namespaces s) n = None" "map_of (em_nslocks s) n = None"
  | nss d where "map_of (em_namespaces s) n = Some nss" "map_of (em_nslocks s) n = Some d" "dn_ok T okd okl nss" "dn_name nss = n"
  using assms unfolding ns_ok_def by (metis not_Some_eq)

lemma lock_of_Lock: "map_of (em_namespaces s) n = Some nss \<Longrightarrow> g_Namespace g = n \<Longrightarrow> lock_of T s g = dn_Lock T (g_Key g) nss"
  by (simp add: lock_of_def)

text \<open>An empty namespace has no docs and no locks.\<close>

lemma dn_Len_zero:
  assumes "trees_ok T okd okl" "dn_ok T okd okl nss" "dn_Len T nss = 0"
  shows "map_of (dn_byID nss) = Map.empty" "dn_Lock T k nss = Absent"
proof -
  have bt: "btree_ok lockKeyLess (tr_locks T) okl" and ok: "okl (dn_locks nss)" using assms(1,2) by (simp_all add: trees_ok_def dn_ok_def)
  have l: "bt_Len (tr_locks T) (dn_locks nss) = int (length (bt_Ascend (tr_locks T) (dn_locks nss)))" by (rule btree_okD(8)[OF bt ok])
  then have "length (dn_byID nss) = 0" "length (bt_Ascend (tr_locks T) (dn_locks nss)) = 0"
    using assms(3) unfolding dn_Len_def by linarith+
  then have e: "dn_byID nss = []" "bt_Ascend (tr_locks T) (dn_locks nss) = []" by simp_all
  then show "map_of (dn_byID nss) = Map.empty" by simp
  have "bt_Get (tr_locks T) \<lparr>le_Key = k, le_Lock = Absent\<rparr> (dn_locks nss) \<noteq> Some x" for x
    using lockIn_iff[OF bt ok] e(2) by simp
  then show "dn_Lock T k nss = Absent" by (auto simp: dn_Lock_def lockIn_def split: option.splits)
qed

section \<open>Locking and unlocking\<close>

lemma lockForNamespaceUnsafe_ok:
  assumes T: "trees_ok T okd okl" and "nk T okd okl s"
  obtains s' where "lockForNamespaceUnsafe T n s = Inr s'" "nk T okd okl s'" "docs_at s' = docs_at s"
    "lock_of T s' = lock_of T s" "nsdeps s' = (nsdeps s)(n := nsdeps s n + 1)" "same_tasks s s'"
proof -
  have wf: "ns_ok T okd okl s" and lv: "ns_live T s" using assms(2) by (simp_all add: nk_def)
  show thesis
  proof (cases rule: ns_ok_cases[OF wf, of n])
    case 1
    let ?s = "s\<lparr>em_namespaces := gm_set n (newDocNamespace T n) (em_namespaces s), em_nslocks := gm_set n 1 (em_nslocks s)\<rparr>"
    have "ns_ok T okd okl ?s" using wf dn_ok_new[OF T, of n] by (auto simp: ns_ok_def newDocNamespace_def)
    moreover have "ns_live T ?s" using lv by (auto simp: ns_live_def)
    moreover have "docs_at ?s = docs_at s" using 1 by (auto simp: docs_at_def newDocNamespace_def fun_eq_iff)
    moreover have "lock_of T ?s = lock_of T s" using 1 dn_Lock_new[OF T] by (auto simp: lock_of_def fun_eq_iff)
    ultimately show thesis
      using that[of ?s] 1 by (auto simp: lockForNamespaceUnsafe_def nk_def nsdeps_def same_tasks_def fun_eq_iff)
  next
    case (2 nss d)
    let ?s = "s\<lparr>em_nslocks := gm_set n (d + 1) (em_nslocks s)\<rparr>"
    have "ns_ok T okd okl ?s" using wf 2 by (auto simp: ns_ok_def)
    moreover have "0 \<le> d" using lv 2 unfolding ns_live_def by blast
    then have "ns_live T ?s" using lv by (auto simp: ns_live_def)
    moreover have "docs_at ?s = docs_at s" "lock_of T ?s = lock_of T s" by (auto simp: docs_at_def lock_of_def fun_eq_iff)
    ultimately show thesis
      using that[of ?s] 2 by (auto simp: lockForNamespaceUnsafe_def nk_def nsdeps_def same_tasks_def fun_eq_iff)
  qed
qed

lemma foldE_lockForNamespace:
  assumes "trees_ok T okd okl" "nk T okd okl s" "distinct ns"
  shows "\<exists>s'. foldE (lockForNamespaceUnsafe T) ns s = Inr s' \<and> nk T okd okl s' \<and> docs_at s' = docs_at s \<and>
    lock_of T s' = lock_of T s \<and> nsdeps s' = (\<lambda>n. nsdeps s n + of_bool (n \<in> set ns)) \<and> same_tasks s s'"
  using assms(2,3)
proof (induction ns arbitrary: s)
  case (Cons n ns)
  obtain s1 where s1: "lockForNamespaceUnsafe T n s = Inr s1" "nk T okd okl s1" "docs_at s1 = docs_at s"
    "lock_of T s1 = lock_of T s" "nsdeps s1 = (nsdeps s)(n := nsdeps s n + 1)" "same_tasks s s1"
    by (rule lockForNamespaceUnsafe_ok[OF assms(1) Cons.prems(1)])
  from Cons.IH[OF s1(2)] Cons.prems(2) obtain s2 where "foldE (lockForNamespaceUnsafe T) ns s1 = Inr s2" "nk T okd okl s2"
    "docs_at s2 = docs_at s1" "lock_of T s2 = lock_of T s1" "nsdeps s2 = (\<lambda>n. nsdeps s1 n + of_bool (n \<in> set ns))" "same_tasks s1 s2"
    by auto
  with s1 Cons.prems(2) show ?case
    by (intro exI[of _ s2]) (auto simp: fun_eq_iff intro: same_tasks_trans)
qed simp

lemma lockNamespaces_ok:
  assumes "trees_ok T okd okl" "nk T okd okl s" "distinct ns"
  obtains s' where "lockNamespaces T ns s = Inr (sort ns, s')" "nk T okd okl s'" "docs_at s' = docs_at s"
    "lock_of T s' = lock_of T s" "nsdeps s' = (\<lambda>n. nsdeps s n + of_bool (n \<in> set ns))" "same_tasks s s'"
proof (cases "ns = []")
  case True
  with that[of s] assms show thesis by (simp add: lockNamespaces_def)
next
  case False
  with that foldE_lockForNamespace[OF assms(1,2), of "sort ns"] assms(3) show thesis
    by (auto simp: lockNamespaces_def Let_def)
qed

lemma unlockNamespace_ok:
  assumes "trees_ok T okd okl" "nk T okd okl s" "1 \<le> nsdeps s n"
  shows "nk T okd okl (unlockNamespace T n s) \<and> docs_at (unlockNamespace T n s) = docs_at s \<and>
    lock_of T (unlockNamespace T n s) = lock_of T s \<and> nsdeps (unlockNamespace T n s) = (nsdeps s)(n := nsdeps s n - 1)"
proof -
  have wf: "ns_ok T okd okl s" and lv: "ns_live T s" using assms(2) by (simp_all add: nk_def)
  from assms(3) obtain nss d where n: "map_of (em_namespaces s) n = Some nss" "map_of (em_nslocks s) n = Some d"
    "dn_ok T okd okl nss" "dn_name nss = n"
    by (cases rule: ns_ok_cases[OF wf, of n]) (auto simp: nsdeps_def)
  have d: "1 \<le> d" using assms(3) n by (simp add: nsdeps_def)
  let ?s = "s\<lparr>em_nslocks := gm_set n (d - 1) (em_nslocks s)\<rparr>"
  show ?thesis
  proof (cases "d = 1 \<and> dn_Len T nss = 0")
    case True
    let ?d = "?s\<lparr>em_namespaces := gm_del n (em_namespaces s), em_nslocks := gm_del n (em_nslocks ?s)\<rparr>"
    have u: "unlockNamespace T n s = ?d" using True n by (simp add: unlockNamespace_def Let_def)
    note z = dn_Len_zero[OF assms(1) n(3)]
    have "docs_at ?d = docs_at s" using n z(1) True by (auto simp: docs_at_def fun_eq_iff)
    moreover have "lock_of T ?d = lock_of T s" using n z(2) True by (auto simp: lock_of_def fun_eq_iff)
    moreover have "ns_ok T okd okl ?d" using wf by (auto simp: ns_ok_def)
    moreover have "ns_live T ?d" using lv by (auto simp: ns_live_def split: if_splits)
    ultimately show ?thesis unfolding u using True n by (auto simp: nk_def nsdeps_def fun_eq_iff)
  next
    case False
    then have u: "unlockNamespace T n s = ?s" using n by (auto simp: unlockNamespace_def Let_def)
    have "ns_ok T okd okl ?s" using wf n by (auto simp: ns_ok_def)
    moreover have "ns_live T ?s" using lv n d False by (auto simp: ns_live_def)
    moreover have "docs_at ?s = docs_at s" "lock_of T ?s = lock_of T s" by (auto simp: docs_at_def lock_of_def fun_eq_iff)
    ultimately show ?thesis unfolding u using n by (auto simp: nk_def nsdeps_def fun_eq_iff)
  qed
qed

lemma unlockNamespaces_ok:
  assumes "trees_ok T okd okl" "nk T okd okl s" "distinct ns" "\<forall>n \<in> set ns. 1 \<le> nsdeps s n"
  shows "nk T okd okl (unlockNamespaces T ns s) \<and> docs_at (unlockNamespaces T ns s) = docs_at s \<and>
    lock_of T (unlockNamespaces T ns s) = lock_of T s \<and> nsdeps (unlockNamespaces T ns s) = (\<lambda>n. nsdeps s n - of_bool (n \<in> set ns))"
proof -
  have "nk T okd okl (fold (unlockNamespace T) xs s) \<and> docs_at (fold (unlockNamespace T) xs s) = docs_at s \<and>
      lock_of T (fold (unlockNamespace T) xs s) = lock_of T s \<and>
      nsdeps (fold (unlockNamespace T) xs s) = (\<lambda>n. nsdeps s n - of_bool (n \<in> set xs))"
    if "nk T okd okl s" "distinct xs" "\<forall>n \<in> set xs. 1 \<le> nsdeps s n" for xs s
    using that
  proof (induction xs arbitrary: s)
    case (Cons n xs)
    then have 1: "nk T okd okl (unlockNamespace T n s) \<and> docs_at (unlockNamespace T n s) = docs_at s \<and>
      lock_of T (unlockNamespace T n s) = lock_of T s \<and> nsdeps (unlockNamespace T n s) = (nsdeps s)(n := nsdeps s n - 1)"
      by (intro unlockNamespace_ok[OF assms(1)]) auto
    with Cons.IH[of "unlockNamespace T n s"] Cons.prems show ?case by (auto simp: fun_eq_iff)
  qed simp
  from this[of s "rev ns"] assms show ?thesis by (simp add: unlockNamespaces_def)
qed

end
