(* ===== verification/EQMemDocTx.thy ===== *)
theory EQMemDocTx
  imports EQMemCommit EQMemNamespaces DocsetFacts
begin

text \<open>
  Modify of the in-memory backend as a transaction on the docs and the locks of their sets: what
  the checks see, what is written, and the invariant that ties the docs of a set to its lock.
\<close>

section \<open>Writing to locked namespaces\<close>

definition doc_store :: "('dt, 'lt) EQMem \<Rightarrow> string \<times> string \<Rightarrow> Doc option" where
  "doc_store s = (\<lambda>(n, i). docs_at s n i)"

definition dheld :: "('dt, 'lt) trees \<Rightarrow> ('dt \<Rightarrow> bool) \<Rightarrow> ('lt \<Rightarrow> bool) \<Rightarrow> string list \<Rightarrow> ('dt, 'lt) EQMem \<Rightarrow> bool" where
  "dheld T okd okl byNS s \<longleftrightarrow> nk T okd okl s \<and> (\<forall>n \<in> set byNS. 1 \<le> nsdeps s n)"

text \<open>What stays the same while docs are written.\<close>

definition doc_step :: "('dt, 'lt) trees \<Rightarrow> ('dt \<Rightarrow> bool) \<Rightarrow> ('lt \<Rightarrow> bool) \<Rightarrow> string list \<Rightarrow> ('dt, 'lt) EQMem \<Rightarrow> ('dt, 'lt) EQMem \<Rightarrow> bool" where
  "doc_step T okd okl byNS s0 s \<longleftrightarrow> dheld T okd okl byNS s \<and> nsdeps s = nsdeps s0 \<and> same_tasks s0 s"

text \<open>A function on a locked namespace that acts on its docs as \<open>F\<close> and on its locks as \<open>G\<close>.\<close>

lemma with_namespace_ok:
  assumes "trees_ok T okd okl" "doc_step T okd okl byNS s0 s" "n \<in> set byNS"
    "\<And>nss. dn_ok T okd okl nss \<Longrightarrow> dn_name nss = n \<Longrightarrow> dn_ok T okd okl (f nss) \<and> dn_name (f nss) = n \<and>
       map_of (dn_byID (f nss)) = F (map_of (dn_byID nss)) \<and> (\<forall>k. dn_Lock T k (f nss) = G k (dn_Lock T k nss))"
  shows "\<exists>s'. with_namespace byNS n f s = Inr s' \<and> doc_step T okd okl byNS s0 s' \<and>
    doc_store s' = (\<lambda>(m, i). if m = n then F (docs_at s n) i else doc_store s (m, i)) \<and>
    lock_of T s' = (\<lambda>g. if g_Namespace g = n then G (g_Key g) (lock_of T s g) else lock_of T s g)"
proof -
  have wf: "ns_ok T okd okl s" and lv: "ns_live T s" and d1: "1 \<le> nsdeps s n"
    using assms(2,3) by (auto simp: nk_def dheld_def doc_step_def)
  then obtain nss d where n: "map_of (em_namespaces s) n = Some nss" "map_of (em_nslocks s) n = Some d"
    "dn_ok T okd okl nss" "dn_name nss = n"
    by (cases rule: ns_ok_cases[OF wf, of n]) (auto simp: nsdeps_def)
  note f = assms(4)[OF n(3,4)]
  let ?s = "s\<lparr>em_namespaces := gm_set n (f nss) (em_namespaces s)\<rparr>"
  have "ns_ok T okd okl ?s" using wf n f by (auto simp: ns_ok_def)
  moreover have "d \<noteq> 0" using d1 n by (simp add: nsdeps_def)
  then have "ns_live T ?s" using lv n unfolding ns_live_def by (auto split: if_splits)
  moreover have "nsdeps ?s = nsdeps s" by (simp add: nsdeps_def fun_eq_iff)
  ultimately have "doc_step T okd okl byNS s0 ?s"
    using assms(2) by (auto simp: doc_step_def dheld_def nk_def same_tasks_def)
  moreover have "with_namespace byNS n f s = Inr ?s" using n assms(3) by (simp add: with_namespace_def)
  moreover have "doc_store ?s = (\<lambda>(m, i). if m = n then F (docs_at s n) i else doc_store s (m, i))"
    using f n by (auto simp: doc_store_def docs_at_def fun_eq_iff)
  moreover have "lock_of T ?s = (\<lambda>g. if g_Namespace g = n then G (g_Key g) (lock_of T s g) else lock_of T s g)"
    using f n by (auto simp: lock_of_def fun_eq_iff)
  ultimately show ?thesis by blast
qed

lemma doc_delete_ok:
  assumes "trees_ok T okd okl" "doc_step T okd okl byNS s0 s" "n \<in> set byNS"
  shows "\<exists>s'. with_namespace byNS n (dn_Delete T i) s = Inr s' \<and> doc_step T okd okl byNS s0 s' \<and>
    doc_store s' = (doc_store s)((n, i) := None) \<and> lock_of T s' = lock_of T s"
proof -
  have "\<exists>s'. with_namespace byNS n (dn_Delete T i) s = Inr s' \<and> doc_step T okd okl byNS s0 s' \<and>
    doc_store s' = (\<lambda>(m, j). if m = n then ((docs_at s n)(i := None)) j else doc_store s (m, j)) \<and>
    lock_of T s' = (\<lambda>g. if g_Namespace g = n then lock_of T s g else lock_of T s g)"
    by (rule with_namespace_ok[OF assms(1-3), where F = "\<lambda>m. m(i := None)"]) (simp add: dn_ok_Delete[OF assms(1)] dn_Lock_def)
  moreover have "(\<lambda>(m, j). if m = n then ((docs_at s n)(i := None)) j else doc_store s (m, j)) = (doc_store s)((n, i) := None)"
    by (auto simp: doc_store_def fun_eq_iff)
  ultimately show ?thesis by simp
qed

lemma doc_set_ok:
  assumes "trees_ok T okd okl" "doc_step T okd okl byNS s0 s" "d_Namespace r \<in> set byNS"
  shows "\<exists>s'. setRes T byNS r s = Inr s' \<and> doc_step T okd okl byNS s0 s' \<and>
    doc_store s' = (doc_store s)((d_Namespace r, d_ID r) \<mapsto> r) \<and> lock_of T s' = lock_of T s"
proof -
  let ?n = "d_Namespace r"
  have "\<exists>s'. with_namespace byNS ?n (dn_Set T (d_ID r) r) s = Inr s' \<and> doc_step T okd okl byNS s0 s' \<and>
    doc_store s' = (\<lambda>(m, j). if m = ?n then ((docs_at s ?n)(d_ID r \<mapsto> r)) j else doc_store s (m, j)) \<and>
    lock_of T s' = (\<lambda>g. if g_Namespace g = ?n then lock_of T s g else lock_of T s g)"
    by (rule with_namespace_ok[OF assms, where F = "\<lambda>m. m(d_ID r \<mapsto> r)"]) (simp add: dn_ok_Set[OF assms(1)] dn_Lock_def)
  moreover have "(\<lambda>(m, j). if m = ?n then ((docs_at s ?n)(d_ID r \<mapsto> r)) j else doc_store s (m, j)) = (doc_store s)((?n, d_ID r) \<mapsto> r)"
    by (auto simp: doc_store_def fun_eq_iff)
  ultimately show ?thesis by (simp add: setRes_def)
qed

lemma set_lock_ok:
  assumes "trees_ok T okd okl" "doc_step T okd okl byNS s0 s" "g_Namespace g \<in> set byNS"
  shows "\<exists>s'. with_namespace byNS (g_Namespace g) (SetLock T (g_Key g) l) s = Inr s' \<and> doc_step T okd okl byNS s0 s' \<and>
    doc_store s' = doc_store s \<and> lock_of T s' = (lock_of T s)(g := l)"
proof -
  have "\<exists>s'. with_namespace byNS (g_Namespace g) (SetLock T (g_Key g) l) s = Inr s' \<and> doc_step T okd okl byNS s0 s' \<and>
    doc_store s' = (\<lambda>(m, j). if m = g_Namespace g then docs_at s (g_Namespace g) j else doc_store s (m, j)) \<and>
    lock_of T s' = (\<lambda>h. if g_Namespace h = g_Namespace g then (if g_Key h = g_Key g then l else lock_of T s h) else lock_of T s h)"
    by (rule with_namespace_ok[OF assms, where F = "\<lambda>m. m"]) (simp add: dn_Lock_SetLock[OF assms(1)])
  moreover have "(\<lambda>(m, j). if m = g_Namespace g then docs_at s (g_Namespace g) j else doc_store s (m, j)) = doc_store s"
    by (auto simp: doc_store_def fun_eq_iff)
  moreover have "(\<lambda>h. if g_Namespace h = g_Namespace g then (if g_Key h = g_Key g then l else lock_of T s h) else lock_of T s h) =
      (lock_of T s)(g := l)" by (auto simp: fun_eq_iff)
  ultimately show ?thesis by simp
qed

section \<open>Applying the doc operations\<close>

lemma foldE_view:
  assumes "\<And>x y. x \<in> set xs \<Longrightarrow> P y \<Longrightarrow> \<exists>y'. f x y = Inr y' \<and> P y' \<and> V y' = g x (V y)" "P y"
  shows "\<exists>y'. foldE f xs y = Inr y' \<and> P y' \<and> V y' = fold g xs (V y)"
  using assms
proof (induction xs arbitrary: y)
  case (Cons x xs)
  from Cons.prems(1)[of x y] Cons.prems(2) obtain y1 where y1: "f x y = Inr y1" "P y1" "V y1 = g x (V y)" by auto
  from Cons.IH[OF _ y1(2)] Cons.prems(1) obtain y2 where "foldE f xs y1 = Inr y2" "P y2" "V y2 = fold g xs (V y1)" by auto
  with y1 show ?case by simp
qed simp

text \<open>The written docs depend on the state only through the stored locks, which the plan overrides.\<close>

definition plan_lock :: "Plan \<Rightarrow> (DSet \<Rightarrow> Lock) \<Rightarrow> DSet \<Rightarrow> Lock" where
  "plan_lock plan L g = (case map_of (pl_Locks plan) g of Some l \<Rightarrow> l | None \<Rightarrow> L g)"

definition stamped :: "Plan \<Rightarrow> (DSet \<Rightarrow> Lock) \<Rightarrow> Doc \<Rightarrow> Doc" where
  "stamped plan L d = (let l = plan_lock plan L (set_of_doc d) in
     d\<lparr>d_Version := lk_Version l, d_Claimant := lk_Claimant l, d_At := lk_At l\<rparr>)"

lemma withLock_stamped: "withLock T False plan s d = stamped plan (lock_of T s) d"
  by (simp add: withLock_def stamped_def plan_lock_def)

lemma stamped_sel [simp]:
  "d_Namespace (stamped plan L d) = d_Namespace d" "d_ID (stamped plan L d) = d_ID d" "d_Key (stamped plan L d) = d_Key d"
  "d_SecondaryKey (stamped plan L d) = d_SecondaryKey d" "d_Content (stamped plan L d) = d_Content d"
  "set_of_doc (stamped plan L d) = set_of_doc d"
  by (simp_all add: stamped_def Let_def set_of_doc_def)

lemma new_doc_sel [simp]:
  "d_Namespace (changed_doc fd r now c) = d_Namespace c" "d_ID (changed_doc fd r now c) = d_ID c"
  "d_Namespace (inserted_doc now rd) = dd_Namespace rd" "d_ID (inserted_doc now rd) = dd_ID rd"
  "d_Key (inserted_doc now rd) = dd_Key rd" "d_SecondaryKey (inserted_doc now rd) = dd_SecondaryKey rd"
  by (auto simp: changed_doc_def inserted_doc_def Doc_Copy_def Let_def split: option.splits)

abbreviation doc_at :: "Doc \<Rightarrow> string \<times> string" where
  "doc_at d \<equiv> (d_Namespace d, d_ID d)"

abbreviation ref_at :: "DocID \<Rightarrow> string \<times> string" where
  "ref_at d \<equiv> (did_Namespace d, did_ID d)"

abbreviation data_at :: "DocData \<Rightarrow> string \<times> string" where
  "data_at d \<equiv> (dd_Namespace d, dd_ID d)"

lemma fold_remove: "fold (\<lambda>x (D, L). (D(k x := None), L)) xs (D, L) = (D |` (- k ` set xs), L)"
proof (induction xs arbitrary: D)
  case (Cons x xs)
  then show ?case by (auto simp: restrict_map_def fun_eq_iff)
qed (simp add: restrict_map_def)

lemma fold_put:
  assumes "distinct (map k xs)"
  shows "fold (\<lambda>x ((D, L), out). ((D(k x \<mapsto> v L x), L), out @ [v L x])) xs ((D, L), out) =
    ((D ++ map_of (map (\<lambda>x. (k x, v L x)) xs), L), out @ map (v L) xs)"
  using assms
proof (induction xs arbitrary: D out)
  case (Cons x xs)
  have "k x \<notin> dom (map_of (map (\<lambda>x. (k x, v L x)) xs))"
    using Cons.prems by (auto simp: dom_map_of_conv_image_fst)
  then have e: "D(k x \<mapsto> v L x) ++ map_of (map (\<lambda>x. (k x, v L x)) xs) = D ++ map_of (map (\<lambda>x. (k x, v L x)) (x # xs))"
    by (auto simp: map_add_def fun_eq_iff dom_def split: option.splits)
  have d: "distinct (map k xs)" using Cons.prems by simp
  show ?case unfolding fold_simps prod.case Cons.IH[OF d] e by (simp only: list.map append.simps append_assoc)
qed simp

lemma fold_locks:
  assumes "gm_ok m"
  shows "fold (\<lambda>(g, l) (D, L). (D, L(g := l))) m (D, L) = (D, \<lambda>g. case map_of m g of Some l \<Rightarrow> l | None \<Rightarrow> L g)"
  using assms
proof (induction m arbitrary: L)
  case (Cons x m)
  obtain g l where x: "x = (g, l)" by (cases x)
  have "map_of m g = None" using Cons.prems by (auto simp: x gm_ok_def map_of_eq_None_iff)
  with Cons show ?case by (auto simp: x gm_ok_def fun_eq_iff split: option.splits)
qed simp

definition commit_docs :: "Modification \<Rightarrow> (Doc \<Rightarrow> Doc) \<Rightarrow> (DocData \<Rightarrow> Doc) \<Rightarrow> (string \<times> string \<rightharpoonup> Doc) \<Rightarrow> (string \<times> string \<rightharpoonup> Doc)" where
  "commit_docs md chg ins D = D |` (- ref_at ` set (m_DocDeletes md)) ++
     map_of (map (\<lambda>c. (doc_at c, chg c)) (m_DocChanges md)) ++ map_of (map (\<lambda>d. (data_at d, ins d)) (m_DocInserts md))"

text \<open>The namespaces the doc operations write to.\<close>

definition docs_within :: "string list \<Rightarrow> Modification \<Rightarrow> bool" where
  "docs_within byNS md \<longleftrightarrow> did_Namespace ` set (m_DocDeletes md) \<union> d_Namespace ` set (m_DocChanges md) \<union>
     dd_Namespace ` set (m_DocInserts md) \<subseteq> set byNS"

lemma put_docs_ok:
  assumes T: "trees_ok T okd okl" and "doc_step T okd okl byNS s0 s" "\<forall>x \<in> set xs. d_Namespace (mk x) \<in> set byNS"
    "distinct (map (\<lambda>x. doc_at (mk x)) xs)"
  shows "\<exists>s'. foldE (\<lambda>x (s, out). let r = withLock T False plan s (mk x) in sbind (setRes T byNS r s) (\<lambda>s. Inr (s, out @ [r]))) xs (s, []) =
      Inr (s', map (\<lambda>x. stamped plan (lock_of T s) (mk x)) xs) \<and> doc_step T okd okl byNS s0 s' \<and>
    doc_store s' = doc_store s ++ map_of (map (\<lambda>x. (doc_at (mk x), stamped plan (lock_of T s) (mk x))) xs) \<and> lock_of T s' = lock_of T s"
proof -
  let ?P = "\<lambda>y. doc_step T okd okl byNS s0 (fst y)" and ?V = "\<lambda>(s, out). ((doc_store s, lock_of T s), out)"
  have "\<exists>y'. (\<lambda>(s, out). let r = withLock T False plan s d in sbind (setRes T byNS r s) (\<lambda>s. Inr (s, out @ [r]))) y = Inr y' \<and>
      ?P y' \<and> ?V y' = (\<lambda>((D, L), out). ((D(doc_at d \<mapsto> stamped plan L d), L), out @ [stamped plan L d])) (?V y)"
    if "d_Namespace d \<in> set byNS" "?P y" for d and y :: "('a, 'b) EQMem \<times> Doc list"
    using doc_set_ok[OF T that(2), of "withLock T False plan (fst y) d"] that(1)
    by (cases y) (auto simp: withLock_stamped Let_def)
  then have "\<exists>y. foldE (\<lambda>x (s, out). let r = withLock T False plan s (mk x) in
        sbind (setRes T byNS r s) (\<lambda>s. Inr (s, out @ [r]))) xs (s, []) = Inr y \<and> ?P y \<and>
      ?V y = fold (\<lambda>x ((D, L), out). ((D(doc_at (mk x) \<mapsto> stamped plan L (mk x)), L), out @ [stamped plan L (mk x)])) xs (?V (s, []))"
    by (intro foldE_view[where V = ?V and P = ?P]) (use assms(2,3) in auto)
  then show ?thesis
    unfolding prod.case fold_put[OF assms(4), where v = "\<lambda>L x. stamped plan L (mk x)"] by auto
qed

lemma apply_docs_ok:
  fixes now :: time and fd :: "(string, Doc) gomap"
  assumes T: "trees_ok T okd okl" and "dheld T okd okl byNS s" "docs_within byNS md" "gm_ok (pl_Locks plan)"
    "\<forall>g \<in> fst ` set (pl_Locks plan). g_Namespace g \<in> set byNS"
    "distinct (map doc_at (m_DocChanges md))" "distinct (map data_at (m_DocInserts md))"
  defines "chg \<equiv> \<lambda>c. stamped plan (lock_of T s) (changed_doc fd False now c)"
    and "ins \<equiv> \<lambda>d. stamped plan (lock_of T s) (inserted_doc now d)"
  shows "\<exists>s'. apply_docs T byNS md fd plan False now s = Inr (s', map chg (m_DocChanges md), map ins (m_DocInserts md)) \<and>
    doc_step T okd okl byNS s s' \<and> doc_store s' = commit_docs md chg ins (doc_store s) \<and>
    lock_of T s' = plan_lock plan (lock_of T s)"
proof -
  let ?P = "doc_step T okd okl byNS s" and ?V = "\<lambda>s. (doc_store s, lock_of T s)"
  have P: "?P s" using assms(2) by (simp add: doc_step_def)
  have ns: "\<forall>d \<in> set (m_DocDeletes md). did_Namespace d \<in> set byNS"
    "\<forall>c \<in> set (m_DocChanges md). d_Namespace (changed_doc fd False now c) \<in> set byNS"
    "\<forall>r \<in> set (m_DocInserts md). d_Namespace (inserted_doc now r) \<in> set byNS"
    using assms(3) by (auto simp: docs_within_def)
  have "\<exists>s1. foldE (\<lambda>d. with_namespace byNS (did_Namespace d) (dn_Delete T (did_ID d))) (m_DocDeletes md) s = Inr s1 \<and> ?P s1 \<and>
      ?V s1 = fold (\<lambda>d (D, L). (D(ref_at d := None), L)) (m_DocDeletes md) (?V s)"
    by (rule foldE_view[where V = ?V]) (use doc_delete_ok[OF T] ns(1) P in auto)
  then obtain s1 where s1: "foldE (\<lambda>d. with_namespace byNS (did_Namespace d) (dn_Delete T (did_ID d))) (m_DocDeletes md) s = Inr s1"
    "?P s1" "doc_store s1 = doc_store s |` (- ref_at ` set (m_DocDeletes md))" "lock_of T s1 = lock_of T s"
    unfolding fold_remove by blast
  obtain s2 where s2: "foldE (\<lambda>c (s, out). let r = withLock T False plan s (changed_doc fd False now c) in
        sbind (setRes T byNS r s) (\<lambda>s. Inr (s, out @ [r]))) (m_DocChanges md) (s1, []) = Inr (s2, map chg (m_DocChanges md))" "?P s2"
    "doc_store s2 = doc_store s1 ++ map_of (map (\<lambda>c. (doc_at c, chg c)) (m_DocChanges md))" "lock_of T s2 = lock_of T s"
    using put_docs_ok[OF T s1(2) ns(2), of plan] assms(6) s1(4) by (auto simp: chg_def)
  obtain s3 where s3: "foldE (\<lambda>d (s, out). let r = withLock T False plan s (inserted_doc now d) in
        sbind (setRes T byNS r s) (\<lambda>s. Inr (s, out @ [r]))) (m_DocInserts md) (s2, []) = Inr (s3, map ins (m_DocInserts md))" "?P s3"
    "doc_store s3 = doc_store s2 ++ map_of (map (\<lambda>d. (data_at d, ins d)) (m_DocInserts md))" "lock_of T s3 = lock_of T s"
    using put_docs_ok[OF T s2(2) ns(3), of plan] assms(7) s2(4) by (auto simp: ins_def)
  have "\<exists>s4. foldE (\<lambda>(g, l). with_namespace byNS (g_Namespace g) (SetLock T (g_Key g) l)) (pl_Locks plan) s3 = Inr s4 \<and> ?P s4 \<and>
      ?V s4 = fold (\<lambda>(g, l) (D, L). (D, L(g := l))) (pl_Locks plan) (?V s3)"
    by (rule foldE_view[where V = ?V]) (use set_lock_ok[OF T] assms(5) s3(2) in \<open>force split: prod.splits\<close>)+
  then obtain s4 where s4: "foldE (\<lambda>(g, l). with_namespace byNS (g_Namespace g) (SetLock T (g_Key g) l)) (pl_Locks plan) s3 = Inr s4"
    "?P s4" "doc_store s4 = doc_store s3" "lock_of T s4 = plan_lock plan (lock_of T s)"
    unfolding fold_locks[OF assms(4)] s3(4) by (auto simp: plan_lock_def[abs_def])
  show ?thesis
    unfolding apply_docs_def s1(1) s2(1) s3(1) sbind_simps prod.case s4(1)
    by (intro exI[of _ s4] conjI) (use s1 s2 s3 s4 in \<open>simp_all add: commit_docs_def\<close>)
qed

section \<open>What the checks see\<close>

lemma lookup_doc_at:
  "lookup_doc byNS s n i = (if n = [] \<or> i = [] \<or> n \<notin> set byNS then None else doc_store s (n, i))"
  by (auto simp: lookup_doc_def doc_store_def docs_at_def dn_Get_def split: option.splits)

definition doc_refs :: "Modification \<Rightarrow> (string \<times> string) list" where
  "doc_refs md = map ref_at (m_DocDeletes md) @ map ref_at (m_DocDepends md) @
     map doc_at (m_DocChanges md) @ map data_at (m_DocInserts md)"

definition typed_docs :: "(string \<times> string \<rightharpoonup> Doc) \<Rightarrow> bool" where
  "typed_docs D \<longleftrightarrow> (\<forall>k d. D k = Some d \<longrightarrow> doc_at d = k \<and> fst k \<noteq> [] \<and> snd k \<noteq> [])"

lemma typed_docsD: "typed_docs D \<Longrightarrow> D k = Some d \<Longrightarrow> doc_at d = k \<and> fst k \<noteq> [] \<and> snd k \<noteq> []"
  unfolding typed_docs_def by blast

lemma addFoundDoc_at:
  assumes "typed_docs (doc_store s)"
  shows "map_of (addFoundDoc byNS s r m) = (case lookup_doc byNS s (fst r) (snd r) of
    Some d \<Rightarrow> (map_of m)(DocKey (fst r) (snd r) \<mapsto> d) | None \<Rightarrow> map_of m)"
proof -
  have "d_ID d = snd r" if "lookup_doc byNS s (fst r) (snd r) = Some d" for d
    using that assms by (cases r) (auto simp: lookup_doc_at typed_docs_def split: if_splits)
  then show ?thesis by (auto simp: addFoundDoc_def case_prod_unfold fun_eq_iff split: option.splits)
qed

lemma fold_addFoundDoc:
  assumes "typed_docs (doc_store s)"
    "\<forall>r \<in> set rs. DocKey (fst r) (snd r) = k \<longrightarrow> lookup_doc byNS s (fst r) (snd r) = v" "v = None \<Longrightarrow> map_of m k = None"
    "k \<in> (\<lambda>r. DocKey (fst r) (snd r)) ` set rs \<or> map_of m k = v"
  shows "map_of (fold (addFoundDoc byNS s) rs m) k = v"
  using assms(2-4)
proof (induction rs arbitrary: m)
  case (Cons r rs)
  show ?case
  proof (simp only: fold_simps, rule Cons.IH)
    show "\<forall>r \<in> set rs. DocKey (fst r) (snd r) = k \<longrightarrow> lookup_doc byNS s (fst r) (snd r) = v" using Cons.prems(1) by simp
  qed (use Cons.prems in \<open>auto simp: addFoundDoc_at[OF assms(1)] split: option.splits if_splits\<close>)
qed auto

lemma found_docs_at:
  assumes "typed_docs (doc_store s)" "inj_on (\<lambda>(n, i). DocKey n i) (set (doc_refs md))"
    "(n, i) \<in> set (doc_refs md)" "n \<in> set byNS"
  shows "member_of (found_docs byNS s md) n i = doc_store s (n, i)"
proof -
  have l: "lookup_doc byNS s n i = doc_store s (n, i)"
    using assms(1,4) by (cases "doc_store s (n, i)") (auto simp: lookup_doc_at typed_docs_def)
  have "map_of (fold (addFoundDoc byNS s) (doc_refs md) []) (DocKey n i) = doc_store s (n, i)"
  proof (rule fold_addFoundDoc[OF assms(1)])
    show "\<forall>r \<in> set (doc_refs md). DocKey (fst r) (snd r) = DocKey n i \<longrightarrow> lookup_doc byNS s (fst r) (snd r) = doc_store s (n, i)"
      using assms(2,3) l by (force simp: inj_on_def)
  qed (use assms(3) in force)+
  then show ?thesis by (simp add: member_of_def found_docs_def doc_refs_def)
qed

lemma doc_refs_inj:
  assumes "distinct (doc_op_keys md)" "\<forall>d \<in> set (m_DocInserts md). dd_ID d \<noteq> []"
  shows "inj_on (\<lambda>(n, i). DocKey n i) (set (doc_refs md))"
proof -
  let ?rs = "map doc_at (m_DocChanges md) @ map ref_at (m_DocDeletes md) @ map ref_at (m_DocDepends md) @ map data_at (m_DocInserts md)"
  have "filter (\<lambda>d. dd_ID d \<noteq> []) (m_DocInserts md) = m_DocInserts md" using assms(2) by simp
  then have "doc_op_keys md = map (\<lambda>(n, i). DocKey n i) ?rs" by (simp add: doc_op_keys_def comp_def)
  then have "inj_on (\<lambda>(n, i). DocKey n i) (set ?rs)" using assms(1) by (simp only: distinct_map)
  moreover have "set ?rs = set (doc_refs md)" by (auto simp: doc_refs_def)
  ultimately show ?thesis by simp
qed

text \<open>When the doc operations of a modification can be applied to the docs \<open>D\<close> and locks \<open>L\<close>.\<close>

definition current :: "Modification \<Rightarrow> (DSet \<Rightarrow> Lock) \<Rightarrow> DSet \<Rightarrow> int32 \<Rightarrow> bool" where
  "current md L g v \<longleftrightarrow> v = 0 \<and> g \<in> provided md \<or> lk_Version (L g) = v"

definition place_free :: "(string \<times> string \<rightharpoonup> Doc) \<Rightarrow> DSet \<Rightarrow> string \<Rightarrow> bool" where
  "place_free D g sec \<longleftrightarrow> (\<forall>k d. D k = Some d \<longrightarrow> \<not> (set_of_doc d = g \<and> d_SecondaryKey d = sec))"

definition doc_deps_ok :: "Modification \<Rightarrow> time \<Rightarrow> (string \<times> string \<rightharpoonup> Doc) \<Rightarrow> (DSet \<Rightarrow> Lock) \<Rightarrow> bool" where
  "doc_deps_ok md now D L \<longleftrightarrow>
     (\<forall>x \<in> set (m_DocInserts md). D (data_at x) = None \<and> place_free D (ins_set x) (dd_SecondaryKey x) \<and>
        \<not> HeldByOther (L (ins_set x)) (m_Claimant md) now) \<and>
     (\<forall>c \<in> set (m_DocChanges md). \<exists>d. D (doc_at c) = Some d \<and> current md L (set_of_doc d) (d_Version c) \<and>
        \<not> HeldByOther (L (set_of_doc d)) (m_Claimant md) now) \<and>
     (\<forall>r \<in> set (m_DocDeletes md). \<exists>d. D (ref_at r) = Some d \<and> current md L (set_of_doc d) (did_Version r) \<and>
        \<not> HeldByOther (L (set_of_doc d)) (m_Claimant md) now) \<and>
     (\<forall>r \<in> set (m_DocDepends md). if IsSetRef r
        then lk_Stored (L \<lparr>g_Namespace = did_Namespace r, g_Key = did_Key r\<rparr>) \<and>
          lk_Version (L \<lparr>g_Namespace = did_Namespace r, g_Key = did_Key r\<rparr>) = did_Version r
        else \<exists>d. D (ref_at r) = Some d \<and> current md L (set_of_doc d) (did_Version r)) \<and>
     (\<forall>a \<in> set (m_DocArrives md). arr_ok md now L a)"

lemma eval_stored_current:
  "eval_stored md member L n i v = Some g \<longleftrightarrow> (\<exists>d. member n i = Some d \<and> g = set_of_doc d \<and> current md L g v)"
  by (auto simp: eval_stored_def current_def Let_def split: option.splits)

lemma doc_ops_deps:
  assumes "\<And>n i. (n, i) \<in> set (doc_refs md) \<Longrightarrow> member n i = D (n, i)"
    "\<And>g sec. (occupant g sec = None) = place_free D g sec" "\<And>g sec. lk_NumDocs (L g) \<le> 0 \<Longrightarrow> place_free D g sec"
    "\<forall>x \<in> set (m_DocInserts md). dd_ID x \<noteq> []"
  shows "doc_ops_ok md now member occupant L = doc_deps_ok md now D L"
proof -
  have m: "x \<in> set (m_DocInserts md) \<Longrightarrow> member (dd_Namespace x) (dd_ID x) = D (data_at x)"
    "c \<in> set (m_DocChanges md) \<Longrightarrow> member (d_Namespace c) (d_ID c) = D (doc_at c)"
    "r \<in> set (m_DocDeletes md) \<union> set (m_DocDepends md) \<Longrightarrow> member (did_Namespace r) (did_ID r) = D (ref_at r)" for x c r
    using assms(1) by (auto simp: doc_refs_def)
  have i: "ins_ok md now member occupant L x = (D (data_at x) = None \<and> place_free D (ins_set x) (dd_SecondaryKey x) \<and>
        \<not> HeldByOther (L (ins_set x)) (m_Claimant md) now)" if "x \<in> set (m_DocInserts md)" for x
    using m(1)[OF that] assms(2-4) that by (auto simp: ins_ok_def)
  have c: "stored_ok md now member L (d_Namespace c) (d_ID c) (d_Version c) = (\<exists>d. D (doc_at c) = Some d \<and>
      current md L (set_of_doc d) (d_Version c) \<and> \<not> HeldByOther (L (set_of_doc d)) (m_Claimant md) now)"
    if "c \<in> set (m_DocChanges md)" for c
    using m(2)[OF that] by (auto simp: stored_ok_def eval_stored_current)
  have d: "stored_ok md now member L (did_Namespace c) (did_ID c) (did_Version c) = (\<exists>d. D (ref_at c) = Some d \<and>
      current md L (set_of_doc d) (did_Version c) \<and> \<not> HeldByOther (L (set_of_doc d)) (m_Claimant md) now)"
    if "c \<in> set (m_DocDeletes md)" for c
    using m(3)[of c] that by (auto simp: stored_ok_def eval_stored_current)
  have p: "dep_ok md member L r = (if IsSetRef r
        then lk_Stored (L \<lparr>g_Namespace = did_Namespace r, g_Key = did_Key r\<rparr>) \<and>
          lk_Version (L \<lparr>g_Namespace = did_Namespace r, g_Key = did_Key r\<rparr>) = did_Version r
        else \<exists>d. D (ref_at r) = Some d \<and> current md L (set_of_doc d) (did_Version r))"
    if "r \<in> set (m_DocDepends md)" for r
    using m(3)[of r] that by (auto simp: dep_ok_def Let_def eval_stored_current)
  show ?thesis
    unfolding doc_ops_ok_def doc_deps_ok_def by (simp add: i c d p cong: ball_cong)
qed

lemma Occupant_free:
  assumes "trees_ok T okd okl" "dn_ok T okd okl nss"
  shows "Occupant T key sec nss = None \<longleftrightarrow> (\<forall>i d. map_of (dn_byID nss) i = Some d \<longrightarrow> \<not> (d_Key d = key \<and> d_SecondaryKey d = sec))"
  by (auto simp: Occupant_eq Members_eq[OF assms] docs_list_ok(2)[OF assms] find_None_iff ran_def)

lemma occupant_of_free:
  assumes "trees_ok T okd okl" "nk T okd okl s" "typed_docs (doc_store s)"
  shows "occupant_of T s g sec = None \<longleftrightarrow> place_free (doc_store s) g sec"
proof -
  have wf: "ns_ok T okd okl s" using assms(2) by (simp add: nk_def)
  have t: "doc_store s (n, i) = Some d \<Longrightarrow> d_Namespace d = n" for n i d
    using assms(3) by (auto simp: typed_docs_def)
  have "place_free (doc_store s) g sec \<longleftrightarrow>
      (\<forall>i d. docs_at s (g_Namespace g) i = Some d \<longrightarrow> \<not> (d_Key d = g_Key g \<and> d_SecondaryKey d = sec))"
    using t unfolding place_free_def doc_store_def by (cases g) (auto simp: set_of_doc_def)
  moreover have "occupant_of T s g sec = None \<longleftrightarrow>
      (\<forall>i d. docs_at s (g_Namespace g) i = Some d \<longrightarrow> \<not> (d_Key d = g_Key g \<and> d_SecondaryKey d = sec))"
    using Occupant_free[OF assms(1)]
    by (cases rule: ns_ok_cases[OF wf, of "g_Namespace g"]) (auto simp: occupant_of_def docs_at_def)
  ultimately show ?thesis by simp
qed

section \<open>The invariant of docs and locks\<close>

definition docs_of :: "(string \<times> string \<rightharpoonup> Doc) \<Rightarrow> DSet \<Rightarrow> (string \<times> string) set" where
  "docs_of D g = {k. \<exists>d. D k = Some d \<and> set_of_doc d = g}"

text \<open>
  Every doc is stored under its own namespace and ID, a set's lock counts its docs, a set with docs
  has a stored lock, and no two docs of a set have the same secondary key.
\<close>

definition doc_inv :: "(string \<times> string \<rightharpoonup> Doc) \<Rightarrow> (DSet \<Rightarrow> Lock) \<Rightarrow> bool" where
  "doc_inv D L \<longleftrightarrow> typed_docs D \<and> finite (dom D) \<and> (\<forall>g. lk_NumDocs (L g) = int (card (docs_of D g))) \<and>
     (\<forall>k d. D k = Some d \<longrightarrow> lk_Stored (L (set_of_doc d))) \<and>
     (\<forall>k k' d d'. D k = Some d \<longrightarrow> D k' = Some d' \<longrightarrow> set_of_doc d = set_of_doc d' \<longrightarrow>
        d_SecondaryKey d = d_SecondaryKey d' \<longrightarrow> k = k')"

lemma doc_invD:
  assumes "doc_inv D L"
  shows "typed_docs D" "finite (dom D)" "lk_NumDocs (L g) = int (card (docs_of D g))"
    "D k = Some d \<Longrightarrow> lk_Stored (L (set_of_doc d))"
    "D k = Some d \<Longrightarrow> D k' = Some d' \<Longrightarrow> set_of_doc d = set_of_doc d' \<Longrightarrow> d_SecondaryKey d = d_SecondaryKey d' \<Longrightarrow> k = k'"
  using assms unfolding doc_inv_def by blast+

text \<open>What validation promises about the docs of a modification whose inserts have IDs.\<close>

definition valid_docs :: "Modification \<Rightarrow> bool" where
  "valid_docs md \<longleftrightarrow> distinct (doc_op_keys md) \<and> (\<forall>x \<in> set (m_DocInserts md). dd_ID x \<noteq> [] \<and> dd_Namespace x \<noteq> []) \<and>
     (\<forall>a \<in> set (m_DocArrives md). did_Namespace (da_DocID a) \<noteq> []) \<and>
     distinct (map (\<lambda>x. (ins_set x, dd_SecondaryKey x)) (m_DocInserts md))"

lemma distinct_four:
  assumes "distinct (as @ bs @ cs @ ds)"
  shows "distinct as" "distinct bs" "distinct ds" "set as \<inter> set bs = {}" "set as \<inter> set ds = {}" "set bs \<inter> set ds = {}"
  using assms by auto

lemma valid_docs_distinct:
  assumes "valid_docs md"
  shows "distinct (map doc_at (m_DocChanges md))" "distinct (map ref_at (m_DocDeletes md))" "distinct (map data_at (m_DocInserts md))"
    "doc_at ` set (m_DocChanges md) \<inter> ref_at ` set (m_DocDeletes md) = {}"
    "doc_at ` set (m_DocChanges md) \<inter> data_at ` set (m_DocInserts md) = {}"
    "ref_at ` set (m_DocDeletes md) \<inter> data_at ` set (m_DocInserts md) = {}"
proof -
  let ?rs = "map doc_at (m_DocChanges md) @ map ref_at (m_DocDeletes md) @ map ref_at (m_DocDepends md) @ map data_at (m_DocInserts md)"
  have "filter (\<lambda>d. dd_ID d \<noteq> []) (m_DocInserts md) = m_DocInserts md" using assms by (simp add: valid_docs_def)
  then have "doc_op_keys md = map (\<lambda>(n, i). DocKey n i) ?rs" by (simp add: doc_op_keys_def comp_def)
  then have "distinct (map (\<lambda>(n, i). DocKey n i) ?rs)" using assms by (simp only: valid_docs_def)
  note distinct_four[OF iffD1[OF distinct_map this, THEN conjunct1]]
  then show "distinct (map doc_at (m_DocChanges md))" "distinct (map ref_at (m_DocDeletes md))" "distinct (map data_at (m_DocInserts md))"
    "doc_at ` set (m_DocChanges md) \<inter> ref_at ` set (m_DocDeletes md) = {}"
    "doc_at ` set (m_DocChanges md) \<inter> data_at ` set (m_DocInserts md) = {}"
    "ref_at ` set (m_DocDeletes md) \<inter> data_at ` set (m_DocInserts md) = {}"
    by (simp_all only: set_map)
qed

lemma map_of_keyed:
  assumes "distinct (map k xs)"
  shows "map_of (map (\<lambda>x. (k x, v x)) xs) a = Some d \<longleftrightarrow> (\<exists>x \<in> set xs. k x = a \<and> v x = d)"
proof -
  have "distinct (map fst (map (\<lambda>x. (k x, v x)) xs))" using assms by (simp add: comp_def)
  from map_of_eq_Some_iff[OF this] show ?thesis by auto
qed

lemma commit_docs_Some:
  assumes "valid_docs md"
  shows "commit_docs md chg ins D k = Some d \<longleftrightarrow> (\<exists>x \<in> set (m_DocInserts md). data_at x = k \<and> ins x = d) \<or>
    (\<exists>c \<in> set (m_DocChanges md). doc_at c = k \<and> chg c = d) \<or>
    D k = Some d \<and> k \<notin> ref_at ` set (m_DocDeletes md) \<and> k \<notin> doc_at ` set (m_DocChanges md) \<and> k \<notin> data_at ` set (m_DocInserts md)"
proof -
  note v = valid_docs_distinct[OF assms]
  let ?c = "map_of (map (\<lambda>c. (doc_at c, chg c)) (m_DocChanges md))" and ?i = "map_of (map (\<lambda>x. (data_at x, ins x)) (m_DocInserts md))"
  have "commit_docs md chg ins D k = Some d \<longleftrightarrow> ?i k = Some d \<or> ?i k = None \<and> ?c k = Some d \<or>
      ?i k = None \<and> ?c k = None \<and> k \<notin> ref_at ` set (m_DocDeletes md) \<and> D k = Some d"
    by (auto simp: commit_docs_def map_add_Some_iff restrict_map_def split: if_splits)
  moreover have "?i k = None \<longleftrightarrow> k \<notin> data_at ` set (m_DocInserts md)" "?c k = None \<longleftrightarrow> k \<notin> doc_at ` set (m_DocChanges md)"
    by (simp_all add: map_of_eq_None_iff image_image)
  ultimately show ?thesis
    unfolding map_of_keyed[OF v(1)] map_of_keyed[OF v(3)] using v(4-6) by blast
qed

text \<open>The functions that make the written docs: a change keeps its doc's set and secondary key.\<close>

definition doc_writers :: "Modification \<Rightarrow> (string \<times> string \<rightharpoonup> Doc) \<Rightarrow> (Doc \<Rightarrow> Doc) \<Rightarrow> (DocData \<Rightarrow> Doc) \<Rightarrow> bool" where
  "doc_writers md D chg ins \<longleftrightarrow>
     (\<forall>c \<in> set (m_DocChanges md). \<forall>d. D (doc_at c) = Some d \<longrightarrow> doc_at (chg c) = doc_at c \<and> set_of_doc (chg c) = set_of_doc d \<and>
        d_SecondaryKey (chg c) = d_SecondaryKey d) \<and>
     (\<forall>x \<in> set (m_DocInserts md). doc_at (ins x) = data_at x \<and> set_of_doc (ins x) = ins_set x \<and>
        d_SecondaryKey (ins x) = dd_SecondaryKey x)"

text \<open>Where each doc after the commit comes from.\<close>

lemma commit_docs_origin:
  assumes "valid_docs md" "doc_deps_ok md now D L" "doc_writers md D chg ins" "commit_docs md chg ins D k = Some d"
  obtains (inserted) x where "x \<in> set (m_DocInserts md)" "data_at x = k" "D k = None" "set_of_doc d = ins_set x"
      "d_SecondaryKey d = dd_SecondaryKey x" "doc_at d = k"
  | (kept) d0 where "D k = Some d0" "k \<notin> ref_at ` set (m_DocDeletes md)" "set_of_doc d = set_of_doc d0"
      "d_SecondaryKey d = d_SecondaryKey d0" "d = d0 \<or> doc_at d = k"
proof -
  consider x where "x \<in> set (m_DocInserts md)" "data_at x = k" "ins x = d" | c where "c \<in> set (m_DocChanges md)" "doc_at c = k" "chg c = d" |
    "D k = Some d" "k \<notin> ref_at ` set (m_DocDeletes md)"
    using assms(4) unfolding commit_docs_Some[OF assms(1)] by blast
  then show thesis
  proof cases
    case 1
    with assms(2,3) show thesis by (intro inserted[of x]) (auto simp: doc_deps_ok_def doc_writers_def)
  next
    case 2
    then obtain d0 where d0: "D k = Some d0" using assms(2) unfolding doc_deps_ok_def by blast
    have "k \<notin> ref_at ` set (m_DocDeletes md)" using 2 valid_docs_distinct(4)[OF assms(1)] by blast
    with d0 2 assms(3) show thesis by (intro kept[of d0]) (auto simp: doc_writers_def)
  next
    case 3
    then show thesis by (intro kept[of d]) simp_all
  qed
qed

abbreviation member_in :: "(string \<times> string \<rightharpoonup> Doc) \<Rightarrow> string \<Rightarrow> string \<Rightarrow> Doc option" where
  "member_in D \<equiv> \<lambda>n i. D (n, i)"

lemma added_to_const:
  "sum_list (map (\<lambda>(_, _, n). n) (filter (\<lambda>(h, _). h = g) (map (\<lambda>x. (f x, b x, c)) xs))) = c * int (length (filter (\<lambda>x. f x = g) xs))"
  by (induction xs) (simp_all add: algebra_simps)

lemma added_to_writes:
  "added_to (doc_writes md member) g = int (length (filter (\<lambda>x. ins_set x = g) (m_DocInserts md))) -
     int (length (filter (\<lambda>r. stored_set member (did_Namespace r) (did_ID r) = g) (m_DocDeletes md)))"
  unfolding added_to_def doc_writes_def filter_append map_append sum_list_append added_to_const by simp

lemma docs_of_commit:
  assumes "valid_docs md" "doc_deps_ok md now D L" "doc_writers md D chg ins"
  shows "docs_of (commit_docs md chg ins D) g =
    (docs_of D g - ref_at ` set (m_DocDeletes md)) \<union> data_at ` {x \<in> set (m_DocInserts md). ins_set x = g}"
proof -
  have 1: "k \<in> (docs_of D g - ref_at ` set (m_DocDeletes md)) \<union> data_at ` {x \<in> set (m_DocInserts md). ins_set x = g}"
    if k: "k \<in> docs_of (commit_docs md chg ins D) g" for k
  proof -
    from k obtain d where d: "commit_docs md chg ins D k = Some d" "set_of_doc d = g" by (auto simp: docs_of_def)
    from assms d(1) show ?thesis
    proof (cases rule: commit_docs_origin)
      case (inserted x)
      then show ?thesis using d(2) by (intro UnI2 image_eqI[of _ _ x]) simp_all
    next
      case (kept d0)
      then show ?thesis using d(2) by (simp add: docs_of_def)
    qed
  qed
  have 2: "data_at x \<in> docs_of (commit_docs md chg ins D) (ins_set x)" if "x \<in> set (m_DocInserts md)" for x
  proof -
    have "commit_docs md chg ins D (data_at x) = Some (ins x)" unfolding commit_docs_Some[OF assms(1)] using that by (intro disjI1 bexI[of _ x]) simp_all
    then show ?thesis using that assms(3) by (simp add: docs_of_def doc_writers_def)
  qed
  have 3: "k \<in> docs_of (commit_docs md chg ins D) g" if k: "k \<in> docs_of D g" "k \<notin> ref_at ` set (m_DocDeletes md)" for k
  proof -
    from k obtain d where d: "D k = Some d" "set_of_doc d = g" by (auto simp: docs_of_def)
    have ni: "k \<notin> data_at ` set (m_DocInserts md)" using d assms(2) by (auto simp: doc_deps_ok_def)
    show ?thesis
    proof (cases "k \<in> doc_at ` set (m_DocChanges md)")
      case True
      then obtain c where c: "c \<in> set (m_DocChanges md)" "doc_at c = k" by blast
      then have "set_of_doc (chg c) = g" using d assms(3) unfolding doc_writers_def by blast
      with c show ?thesis using commit_docs_Some[OF assms(1), of chg ins D k "chg c"] by (auto simp: docs_of_def)
    next
      case False
      with d ni k(2) show ?thesis using commit_docs_Some[OF assms(1), of chg ins D k d] by (auto simp: docs_of_def)
    qed
  qed
  show ?thesis
  proof (intro equalityI subsetI)
    fix k assume "k \<in> (docs_of D g - ref_at ` set (m_DocDeletes md)) \<union> data_at ` {x \<in> set (m_DocInserts md). ins_set x = g}"
    then show "k \<in> docs_of (commit_docs md chg ins D) g"
      by (elim UnE DiffE imageE CollectE conjE) (use 2 3 in auto)
  qed (rule 1)
qed

lemma card_keyed:
  assumes "distinct (map k xs)"
  shows "card (k ` {x \<in> set xs. P x}) = length (filter P xs)"
proof -
  have "distinct (map k (filter P xs))" using assms by (simp add: distinct_map_filter)
  then have "card (set (map k (filter P xs))) = length (filter P xs)" by (simp only: distinct_card length_map)
  then show ?thesis by simp
qed

lemma count_commit:
  assumes "valid_docs md" "doc_deps_ok md now D L" "doc_writers md D chg ins" "finite (dom D)"
  shows "int (card (docs_of (commit_docs md chg ins D) g)) = int (card (docs_of D g)) + added_to (doc_writes md (member_in D)) g"
proof -
  note v = valid_docs_distinct[OF assms(1)]
  let ?del = "ref_at ` {r \<in> set (m_DocDeletes md). stored_set (member_in D) (did_Namespace r) (did_ID r) = g}"
  let ?ins = "data_at ` {x \<in> set (m_DocInserts md). ins_set x = g}"
  have fin: "finite (docs_of D g)" by (rule finite_subset[OF _ assms(4)]) (auto simp: docs_of_def)
  have del: "docs_of D g \<inter> ref_at ` set (m_DocDeletes md) = ?del"
    using assms(2) by (force simp: docs_of_def doc_deps_ok_def stored_set_def)
  have sub: "?del \<subseteq> docs_of D g" using del by blast
  have dj: "(docs_of D g - ?del) \<inter> ?ins = {}" using assms(2) by (auto simp: docs_of_def doc_deps_ok_def)
  have "docs_of (commit_docs md chg ins D) g = (docs_of D g - ?del) \<union> ?ins"
    unfolding docs_of_commit[OF assms(1-3)] del[symmetric] by blast
  then have "card (docs_of (commit_docs md chg ins D) g) = card (docs_of D g - ?del) + card ?ins"
    using card_Un_disjoint[OF _ _ dj] fin by simp
  moreover have "int (card (docs_of D g - ?del)) = int (card (docs_of D g)) - int (card ?del)"
    using card_mono[OF fin sub] by (simp add: card_Diff_subset[OF finite_subset[OF sub fin] sub] of_nat_diff)
  ultimately show ?thesis
    unfolding added_to_writes card_keyed[OF v(2)] card_keyed[OF v(3)] by simp
qed

lemma doc_inv_commit:
  assumes "doc_inv D L" "valid_docs md" "doc_deps_ok md now D L" "doc_writers md D chg ins"
  shows "doc_inv (commit_docs md chg ins D) (\<lambda>g. case new_locks md now (member_in D) L g of Some l \<Rightarrow> l | None \<Rightarrow> L g)"
    (is "doc_inv ?D ?L")
proof -
  note inv = doc_invD[OF assms(1)]
  note origin = commit_docs_origin[OF assms(2-4), consumes 1, case_names inserted kept]
  let ?w = "doc_writes md (member_in D)"
  note fin = inv(2)
  have "typed_docs ?D"
    unfolding typed_docs_def
  proof (intro allI impI)
    fix k d assume "?D k = Some d"
    then show "doc_at d = k \<and> fst k \<noteq> [] \<and> snd k \<noteq> []"
    proof (cases rule: origin)
      case (inserted x)
      then have "dd_ID x \<noteq> [] \<and> dd_Namespace x \<noteq> []" using assms(2) by (simp add: valid_docs_def)
      with inserted show ?thesis by auto
    next
      case (kept d0)
      then show ?thesis using typed_docsD[OF inv(1), of k d0] by auto
    qed
  qed
  moreover have "finite (dom ?D)" using fin by (simp add: commit_docs_def finite_dom_map_of)
  moreover have "lk_NumDocs (?L g) = int (card (docs_of ?D g))" for g
  proof -
    have "filter (\<lambda>(h, _). h = g) ?w = []" if "g \<notin> fst ` set ?w" using that by (force simp: filter_empty_conv)
    then have "added_to ?w g = 0" if "g \<notin> fst ` set ?w" using that by (simp add: added_to_def)
    then show ?thesis
      using inv(3)[of g] unfolding count_commit[OF assms(2-4) fin] by (auto simp: new_locks_def)
  qed
  moreover have "lk_Stored (?L (set_of_doc d))" if "?D k = Some d" for k d
    using that
  proof (cases rule: origin)
    case (inserted x)
    then have "ins_set x \<in> fst ` set ?w" by (force simp: doc_writes_def)
    with inserted show ?thesis by (simp add: new_locks_def)
  next
    case (kept d0)
    then have "lk_Stored (L (set_of_doc d))" using inv(4) by simp
    then show ?thesis by (simp add: new_locks_def)
  qed
  moreover have "k = k'" if d: "?D k = Some d" "?D k' = Some d'" "set_of_doc d = set_of_doc d'" "d_SecondaryKey d = d_SecondaryKey d'" for k k' d d'
  proof -
    have dx: "x = y" if "x \<in> set (m_DocInserts md)" "y \<in> set (m_DocInserts md)" "ins_set x = ins_set y" "dd_SecondaryKey x = dd_SecondaryKey y" for x y
      using assms(2) that by (auto simp: valid_docs_def distinct_map inj_on_def)
    have free: "\<not> (set_of_doc d = ins_set x \<and> d_SecondaryKey d = dd_SecondaryKey x)" if "x \<in> set (m_DocInserts md)" "D k = Some d" for x k d
      using assms(3) that unfolding doc_deps_ok_def place_free_def by blast
    from d(1) show ?thesis
    proof (cases rule: origin)
      case x: (inserted x)
      from d(2) show ?thesis by (cases rule: origin) (use x d(3,4) dx free in auto)
    next
      case x: (kept d0)
      from d(2) show ?thesis
      proof (cases rule: origin)
        case (inserted y)
        then show ?thesis using free[OF inserted(1) x(1)] x d(3,4) by simp
      next
        case (kept d1)
        then show ?thesis using inv(5)[OF x(1) kept(1)] x d(3,4) by simp
      qed
    qed
  qed
  ultimately show ?thesis unfolding doc_inv_def by blast
qed

section \<open>The body of Modify\<close>

definition same_ns :: "('dt, 'lt) EQMem \<Rightarrow> ('dt, 'lt) EQMem \<Rightarrow> bool" where
  "same_ns s s' \<longleftrightarrow> em_namespaces s' = em_namespaces s \<and> em_nslocks s' = em_nslocks s"

lemma same_ns_views:
  assumes "same_ns s s'"
  shows "doc_store s' = doc_store s" "lock_of T s' = lock_of T s" "nk T okd okl s' = nk T okd okl s" "nsdeps s' = nsdeps s"
    "dheld T okd okl byNS s' = dheld T okd okl byNS s"
proof -
  have e: "em_namespaces s' = em_namespaces s" "em_nslocks s' = em_nslocks s" using assms by (simp_all add: same_ns_def)
  show "doc_store s' = doc_store s" by (simp add: doc_store_def docs_at_def[abs_def] e)
  show "lock_of T s' = lock_of T s" by (simp add: lock_of_def fun_eq_iff e)
  show n: "nsdeps s' = nsdeps s" "nk T okd okl s' = nk T okd okl s"
    by (simp_all add: nk_def nsdeps_def[abs_def] ns_ok_def ns_live_def e)
  then show "dheld T okd okl byNS s' = dheld T okd okl byNS s" by (simp add: dheld_def)
qed

lemma same_ns_rest: "same_rest s s' \<Longrightarrow> same_ns s s'"
  by (simp add: same_rest_def same_ns_def)

lemma same_ns_trans: "same_ns a b \<Longrightarrow> same_ns b c \<Longrightarrow> same_ns a c"
  by (simp add: same_ns_def)

text \<open>Doc operations name a namespace; inserts and arrivals do when they are valid.\<close>

definition docs_named :: "Modification \<Rightarrow> bool" where
  "docs_named md \<longleftrightarrow> (\<forall>c \<in> set (m_DocChanges md). d_Namespace c \<noteq> []) \<and>
     (\<forall>r \<in> set (m_DocDeletes md) \<union> set (m_DocDepends md). did_Namespace r \<noteq> [])"

lemma mod_namespaces_named:
  assumes "valid_docs md" "docs_named md"
  shows "\<forall>r \<in> set (doc_refs md). fst r \<in> set (mod_namespaces md)" "docs_within (mod_namespaces md) md"
    "\<forall>a \<in> set (m_DocArrives md). did_Namespace (da_DocID a) \<in> set (mod_namespaces md)"
  using assms by (auto simp: valid_docs_def docs_named_def mod_namespaces_def doc_refs_def docs_within_def)

definition next_locks :: "Modification \<Rightarrow> time \<Rightarrow> (string \<times> string \<rightharpoonup> Doc) \<Rightarrow> (DSet \<Rightarrow> Lock) \<Rightarrow> DSet \<Rightarrow> Lock" where
  "next_locks md now D L g = (case new_locks md now (member_in D) L g of Some l \<Rightarrow> l | None \<Rightarrow> L g)"

definition changed_doc_to :: "time \<Rightarrow> Doc \<Rightarrow> Doc \<Rightarrow> Doc" where
  "changed_doc_to now old c = c\<lparr>d_Key := d_Key old, d_SecondaryKey := d_SecondaryKey old, d_Created := d_Created old, d_Modified := now\<rparr>"

text \<open>The docs a commit writes carry the next lock of their set.\<close>

definition doc_change :: "Modification \<Rightarrow> time \<Rightarrow> (string \<times> string \<rightharpoonup> Doc) \<Rightarrow> (DSet \<Rightarrow> Lock) \<Rightarrow> Doc \<Rightarrow> Doc" where
  "doc_change md now D L c = (let d = changed_doc_to now (the (D (doc_at c))) c in Overlay d (next_locks md now D L (set_of_doc d)))"

definition doc_insert :: "Modification \<Rightarrow> time \<Rightarrow> (string \<times> string \<rightharpoonup> Doc) \<Rightarrow> (DSet \<Rightarrow> Lock) \<Rightarrow> DocData \<Rightarrow> Doc" where
  "doc_insert md now D L x = (let d = inserted_doc now x in Overlay d (next_locks md now D L (set_of_doc d)))"

lemma Overlay_sel [simp]:
  "d_Namespace (Overlay d l) = d_Namespace d" "d_ID (Overlay d l) = d_ID d" "d_Key (Overlay d l) = d_Key d"
  "d_SecondaryKey (Overlay d l) = d_SecondaryKey d" "set_of_doc (Overlay d l) = set_of_doc d"
  by (simp_all add: Overlay_def Doc_Copy_def set_of_doc_def)

lemma doc_writers_ok:
  assumes "typed_docs D"
  shows "doc_writers md D (doc_change md now D L) (doc_insert md now D L)"
  unfolding doc_writers_def
proof (intro conjI ballI allI impI)
  fix c d assume "D (doc_at c) = Some d"
  with typed_docsD[OF assms this] show "doc_at (doc_change md now D L c) = doc_at c" "set_of_doc (doc_change md now D L c) = set_of_doc d"
    "d_SecondaryKey (doc_change md now D L c) = d_SecondaryKey d"
    by (simp_all add: doc_change_def changed_doc_to_def Let_def set_of_doc_def)
qed (simp_all add: doc_insert_def Let_def set_of_doc_def ins_set_def)

lemma Evaluate_arrival: "Evaluate (arrival_Changes md f) = Evaluate md" "docset_Sets (arrival_Changes md f) = docset_Sets md"
proof -
  have e: "eval_insert (arrival_Changes md f) = eval_insert md" "eval_change (arrival_Changes md f) = eval_change md"
    "eval_delete (arrival_Changes md f) = eval_delete md" "eval_depend (arrival_Changes md f) = eval_depend md"
    "eval_arrive (arrival_Changes md f) = eval_arrive md" "next_lock (arrival_Changes md f) = next_lock md"
    unfolding eval_insert_def[abs_def] eval_change_def[abs_def] eval_delete_def[abs_def] eval_depend_def[abs_def]
      eval_arrive_def[abs_def] eval_stored_def provided_def next_lock_def[abs_def] arrival_Changes_sel by (rule refl)+
  show "Evaluate (arrival_Changes md f) = Evaluate md"
    unfolding Evaluate_def[abs_def] eval_all_def[abs_def] arrival_Changes_sel e by (rule refl)
  show "docset_Sets (arrival_Changes md f) = docset_Sets md" by (simp add: docset_Sets_def[abs_def])
qed

lemma foldE_same_ns:
  assumes "foldE f xs y = Inr y'" "\<And>x y y'. f x y = Inr y' \<Longrightarrow> same_ns (g y) (g y')"
  shows "same_ns (g y) (g y')"
  using assms
proof (induction xs arbitrary: y)
  case (Cons x xs)
  from Cons.prems(1) obtain y1 where "f x y = Inr y1" "foldE f xs y1 = Inr y'" by (auto simp: sbind_Inr_iff)
  with Cons show ?case by (meson same_ns_trans)
qed (simp add: same_ns_def)

lemma apply_tasks_same_ns:
  assumes "apply_tasks byQ md found replay now s = Inr ((s', st), r)"
  shows "same_ns s s'"
proof -
  have w: "same_ns s s'" if "with_queue byQ q s f = Inr s'" for q f and s s' :: "('a, 'b) EQMem"
    using that by (auto simp: with_queue_def same_ns_def sbind_Inr_iff set_queue_def set_lock_def split: if_splits option.splits)
  have d: "same_ns (fst x) (fst y)" if "deleteID byQ q i x = Inr y" for q i and x y :: "('a, 'b) EQMem \<times> steps"
    using that w by (auto simp: deleteID_def sbind_Inr_iff split: prod.splits)
  have i: "same_ns (fst x) (fst y)" if "insertTask byQ t x = Inr y" for t and x y :: "('a, 'b) EQMem \<times> steps"
    using that w by (auto simp: insertTask_def sbind_Inr_iff split: prod.splits)
  have u: "same_ns (fst x) (fst y)" if "updateTask byQ t x = Inr y" for t and x y :: "('a, 'b) EQMem \<times> steps"
    using that w by (auto simp: updateTask_def sbind_Inr_iff split: prod.splits)
  have c: "same_ns (fst (fst x)) (fst (fst y))" if "apply_change byQ md found replay now t x = Inr y"
    for t and x y :: "(('a, 'b) EQMem \<times> steps) \<times> Task list"
    using that by (auto simp: apply_change_def sbind_Inr_iff split: prod.splits if_splits dest!: d i u intro: same_ns_trans)
  have n: "same_ns (fst (fst x)) (fst (fst y))" if "apply_insert byQ md replay now t x = Inr y"
    for t and x y :: "(('a, 'b) EQMem \<times> steps) \<times> Task list"
    using that by (auto simp: apply_insert_def sbind_Inr_iff Let_def split: prod.splits dest!: i)
  obtain x1 x2 x3 r2 r3 where e: "foldE (\<lambda>d. deleteID byQ (tid_Queue d) (tid_ID d)) (m_Deletes md) (s, []) = Inr x1"
    "foldE (apply_change byQ md found replay now) (m_Changes md) (x1, []) = Inr (x2, r2)"
    "foldE (apply_insert byQ md replay now) (m_Inserts md) (x2, []) = Inr (x3, r3)" "fst x3 = s'"
    using assms by (auto simp: apply_tasks_def sbind_Inr_iff)
  have "same_ns s (fst x1)" using foldE_same_ns[where g = fst, OF e(1) d] by simp
  moreover have "same_ns (fst x1) (fst x2)" using foldE_same_ns[where g = "\<lambda>x. fst (fst x)", OF e(2) c] by simp
  moreover have "same_ns (fst x2) s'" using foldE_same_ns[where g = "\<lambda>x. fst (fst x)", OF e(3) n] e(4) by simp
  ultimately show ?thesis by (meson same_ns_trans)
qed

lemma fold_in: "P s \<Longrightarrow> (\<And>x s. x \<in> set xs \<Longrightarrow> P s \<Longrightarrow> P (f x s)) \<Longrightarrow> P (fold f xs s)"
  by (induction xs arbitrary: s) auto

lemma docset_Sets_within:
  assumes "\<forall>x \<in> set (m_DocInserts md). dd_Namespace x \<in> N" "\<forall>a \<in> set (m_DocArrives md). did_Namespace (da_DocID a) \<in> N"
    "\<forall>r \<in> set (m_DocDepends md). did_Namespace r \<in> N"
    "\<And>n i d. (n, i) \<in> set (doc_refs md) \<Longrightarrow> member n i = Some d \<Longrightarrow> d_Namespace d \<in> N"
  shows "g \<in> set (docset_Sets md member) \<Longrightarrow> g_Namespace g \<in> N"
proof -
  define P where "P gs = (\<forall>g \<in> set gs. g_Namespace g \<in> N)" for gs :: "DSet list"
  have add: "P (add_set g gs)" if "P gs" "g_Namespace g \<in> N" for g gs using that by (simp add: set_add_set P_def)
  have st: "P (add_stored member n i gs)" if "P gs" "(n, i) \<in> set (doc_refs md)" for n i gs
    using that assms(4)[OF that(2)] by (auto simp: P_def set_add_stored stored_set_def set_of_doc_def split: option.splits)
  have "P []" by (simp add: P_def)
  then have "P (docset_Sets md member)"
    unfolding docset_Sets_def Let_def
    by (intro fold_in[where P = P]) (use assms(1-3) in \<open>auto intro!: st add simp: doc_refs_def set_of_arrival_def\<close>)
  then show "g \<in> set (docset_Sets md member) \<Longrightarrow> g_Namespace g \<in> N" by (simp add: P_def)
qed

text \<open>The plan that Modify makes, in terms of the docs and locks stored.\<close>

definition stored_plan :: "('dt, 'lt) trees \<Rightarrow> string list \<Rightarrow> time \<Rightarrow> Modification \<Rightarrow> ('dt, 'lt) EQMem \<Rightarrow> Plan" where
  "stored_plan T byNS now md s = Evaluate md now (member_of (found_docs byNS s md)) (occupant_of T s) (lock_of T s)"

lemma stored_plan_ok:
  fixes now :: time
  assumes "trees_ok T okd okl" "dheld T okd okl byNS s" "doc_inv (doc_store s) (lock_of T s)" "valid_docs md" "docs_named md"
    "set byNS = set (mod_namespaces md)"
  defines "D \<equiv> doc_store s" and "L \<equiv> lock_of T s" and "plan \<equiv> stored_plan T byNS now md s"
  shows "eval_docs T byNS now (arrival_Changes md f) (found_docs byNS s md) s = Inr plan"
    "pl_Err plan = None \<longleftrightarrow> doc_deps_ok md now D L" "pl_Err plan = Some e \<Longrightarrow> HasAny e"
    "doc_deps_ok md now D L \<Longrightarrow> gm_ok (pl_Locks plan) \<and> map_of (pl_Locks plan) = new_locks md now (member_in D) L \<and>
       (\<forall>g \<in> fst ` set (pl_Locks plan). g_Namespace g \<in> set byNS)"
    "(n, i) \<in> set (doc_refs md) \<Longrightarrow> member_of (found_docs byNS s md) n i = D (n, i)"
proof -
  let ?m = "member_of (found_docs byNS s md)"
  note inv = doc_invD[OF assms(3)]
  note nm = mod_namespaces_named[OF assms(4,5), folded assms(6)]
  have ids: "\<forall>x \<in> set (m_DocInserts md). dd_ID x \<noteq> []" "distinct (doc_op_keys md)" using assms(4) by (simp_all add: valid_docs_def)
  show mem: "?m n i = D (n, i)" if "(n, i) \<in> set (doc_refs md)" for n i
    using found_docs_at[OF inv(1) doc_refs_inj[OF ids(2,1)] that] nm(1) that by (auto simp: D_def)
  have ns: "d_Namespace d \<in> set byNS" if "(n, i) \<in> set (doc_refs md)" "?m n i = Some d" for n i d
    using that mem[OF that(1)] typed_docsD[OF inv(1), of "(n, i)" d] nm(1) by (auto simp: D_def)
  have refs: "\<forall>x \<in> set (m_DocInserts md). dd_Namespace x \<in> set byNS" "\<forall>r \<in> set (m_DocDepends md). did_Namespace r \<in> set byNS"
    using nm(1) unfolding doc_refs_def set_append set_map ball_Un by simp_all
  have "\<forall>g \<in> set (docset_Sets md ?m). g_Namespace g \<in> set byNS"
    using docset_Sets_within[OF refs(1) nm(3) refs(2), of ?m] ns by blast
  then show "eval_docs T byNS now (arrival_Changes md f) (found_docs byNS s md) s = Inr plan"
    by (simp add: eval_docs_def Evaluate_arrival plan_def stored_plan_def list_ex_iff)
  have nk: "nk T okd okl s" using assms(2) by (simp add: dheld_def)
  have free: "place_free D g sec" if "lk_NumDocs (L g) \<le> 0" for g sec
  proof -
    have "finite (docs_of D g)" by (rule finite_subset[OF _ inv(2)]) (auto simp: docs_of_def D_def)
    then have "docs_of D g = {}" using inv(3)[of g] that by (simp add: D_def L_def)
    then show ?thesis by (simp add: docs_of_def place_free_def)
  qed
  have ok: "doc_ops_ok md now ?m (occupant_of T s) L = doc_deps_ok md now D L"
    by (rule doc_ops_deps) (use mem occupant_of_free[OF assms(1) nk inv(1)] free ids(1) in \<open>auto simp: D_def\<close>)
  then show "pl_Err plan = None \<longleftrightarrow> doc_deps_ok md now D L"
    using Evaluate_err by (simp add: plan_def stored_plan_def L_def)
  show "pl_Err plan = Some e \<Longrightarrow> HasAny e"
    by (auto simp: plan_def stored_plan_def Evaluate_def Let_def split: if_splits)
  assume "doc_deps_ok md now D L"
  then have opsok: "doc_ops_ok md now ?m (occupant_of T s) L" by (simp add: ok)
  have "stored_set ?m (d_Namespace c) (d_ID c) = stored_set (member_in D) (d_Namespace c) (d_ID c)" if "c \<in> set (m_DocChanges md)" for c
    using mem[of "d_Namespace c" "d_ID c"] that by (simp add: stored_set_def doc_refs_def)
  moreover have "stored_set ?m (did_Namespace r) (did_ID r) = stored_set (member_in D) (did_Namespace r) (did_ID r)" if "r \<in> set (m_DocDeletes md)" for r
    using mem[of "did_Namespace r" "did_ID r"] that by (simp add: stored_set_def doc_refs_def)
  ultimately have dw: "doc_writes md ?m = doc_writes md (member_in D)" by (simp add: doc_writes_def)
  have "g_Namespace g \<in> set byNS" if "g \<in> set (Exclusive md ?m)" for g
  proof -
    have "d_Namespace d \<in> set byNS" if "c \<in> set (m_DocChanges md)" "?m (d_Namespace c) (d_ID c) = Some d" for c d
      using that ns[of "d_Namespace c" "d_ID c" d] by (simp add: doc_refs_def)
    moreover have "d_Namespace d \<in> set byNS" if "r \<in> set (m_DocDeletes md)" "?m (did_Namespace r) (did_ID r) = Some d" for r d
      using that ns[of "did_Namespace r" "did_ID r" d] by (simp add: doc_refs_def)
    ultimately show ?thesis
      using that refs(1) nm(3) unfolding Exclusive_eq
      by (auto simp: ins_set_def set_of_arrival_def stored_set_def set_of_doc_def split: option.splits)
  qed
  moreover have "fst ` set (pl_Locks plan) = set (Exclusive md ?m)"
    using arg_cong[where f = dom, OF Evaluate_locks(3)[OF opsok]]
    unfolding doc_writes_sets[OF opsok, symmetric] dom_map_of_conv_image_fst plan_def stored_plan_def L_def
    by (auto simp: new_locks_def dom_def)
  ultimately show "gm_ok (pl_Locks plan) \<and> map_of (pl_Locks plan) = new_locks md now (member_in D) L \<and>
       (\<forall>g \<in> fst ` set (pl_Locks plan). g_Namespace g \<in> set byNS)"
    using Evaluate_locks(2,3)[OF opsok] dw by (auto simp: plan_def stored_plan_def L_def new_locks_def fun_eq_iff)
qed

definition doc_outcome :: "Modification \<Rightarrow> time \<Rightarrow> (string \<times> string \<rightharpoonup> Doc) \<Rightarrow> (DSet \<Rightarrow> Lock) \<Rightarrow>
    (string \<times> string \<rightharpoonup> Doc) \<Rightarrow> (DSet \<Rightarrow> Lock) \<Rightarrow> ModifyResponse \<Rightarrow> bool" where
  "doc_outcome md now D L D' L' resp \<longleftrightarrow> doc_deps_ok md now D L \<and>
     D' = commit_docs md (doc_change md now D L) (doc_insert md now D L) D \<and> L' = next_locks md now D L \<and>
     mr_ChangedDocs resp = map (doc_change md now D L) (m_DocChanges md) \<and>
     mr_InsertedDocs resp = map (doc_insert md now D L) (m_DocInserts md) \<and>
     mr_ChangedSets resp = map (\<lambda>a. Current (set_of_arrival a) (L' (set_of_arrival a))) (m_DocArrives md)"

lemma commit_docs_cong:
  assumes "\<And>c. c \<in> set (m_DocChanges md) \<Longrightarrow> chg c = chg' c" "\<And>x. x \<in> set (m_DocInserts md) \<Longrightarrow> ins x = ins' x"
  shows "commit_docs md chg ins D = commit_docs md chg' ins' D"
proof -
  have "map (\<lambda>c. (doc_at c, chg c)) (m_DocChanges md) = map (\<lambda>c. (doc_at c, chg' c)) (m_DocChanges md)"
    "map (\<lambda>x. (data_at x, ins x)) (m_DocInserts md) = map (\<lambda>x. (data_at x, ins' x)) (m_DocInserts md)"
    using assms by simp_all
  then show ?thesis by (simp only: commit_docs_def)
qed

lemma changed_doc_stored:
  assumes "map_of fd (DocKey (d_Namespace c) (d_ID c)) = Some old"
  shows "changed_doc fd False now c = changed_doc_to now old c"
  using assms by (simp add: changed_doc_def changed_doc_to_def Doc_Copy_def)

lemma plan_arrived:
  assumes "pl_Err (Evaluate md now member occupant lock) = None"
  shows "pl_Arrived (Evaluate md now member occupant lock) = map (\<lambda>a. Current (set_of_arrival a)
    (case map_of (pl_Locks (Evaluate md now member occupant lock)) (set_of_arrival a) of Some l \<Rightarrow> l | None \<Rightarrow> Absent)) (m_DocArrives md)"
  using assms by (auto simp: Evaluate_def Let_def split: if_splits)

lemma stored_plan_writes:
  assumes "trees_ok T okd okl" "dheld T okd okl byNS s" "doc_inv (doc_store s) (lock_of T s)" "valid_docs md" "docs_named md"
    "set byNS = set (mod_namespaces md)" "doc_deps_ok md now (doc_store s) (lock_of T s)" "same_ns s s1"
  shows "\<exists>s2 ch ins. apply_docs T byNS (arrival_Changes md f) (found_docs byNS s md) (stored_plan T byNS now md s) False now s1 = Inr (s2, ch, ins) \<and>
    doc_step T okd okl byNS s1 s2 \<and>
    doc_outcome md now (doc_store s) (lock_of T s) (doc_store s2) (lock_of T s2)
      \<lparr>mr_InsertedTasks = it, mr_ChangedTasks = ct, mr_InsertedDocs = ins, mr_ChangedDocs = ch, mr_ChangedSets = pl_Arrived (stored_plan T byNS now md s)\<rparr>"
proof -
  let ?fd = "found_docs byNS s md" and ?plan = "stored_plan T byNS now md s" and ?D = "doc_store s" and ?L = "lock_of T s"
  note sp = stored_plan_ok[OF assms(1-6)] and v = valid_docs_distinct[OF assms(4)] and same = same_ns_views[OF assms(8)]
  note pl = sp(4)[OF assms(7)]
  have within: "docs_within byNS (arrival_Changes md f)"
    using mod_namespaces_named(2)[OF assms(4,5)] assms(6) by (simp add: docs_within_def)
  have lk: "plan_lock ?plan ?L = next_locks md now ?D ?L" using pl by (simp add: plan_lock_def[abs_def] next_locks_def[abs_def])
  have ov: "stamped ?plan ?L d = Overlay d (next_locks md now ?D ?L (set_of_doc d))" for d
    by (simp add: stamped_def Overlay_def Doc_Copy_def lk Let_def)
  have ins: "stamped ?plan ?L (inserted_doc now x) = doc_insert md now ?D ?L x" for x
    by (simp add: ov doc_insert_def Let_def)
  have chg: "stamped ?plan ?L (changed_doc ?fd False now c) = doc_change md now ?D ?L c" if c: "c \<in> set (m_DocChanges md)" for c
  proof -
    obtain old where "?D (doc_at c) = Some old" using assms(7) c unfolding doc_deps_ok_def by blast
    moreover have "doc_at c \<in> set (doc_refs md)" using c by (simp add: doc_refs_def)
    ultimately show ?thesis
      using sp(5)[of "d_Namespace c" "d_ID c"] by (simp add: ov doc_change_def changed_doc_stored[of _ _ old] member_of_def Let_def)
  qed
  have wr: "next_locks md now ?D ?L (set_of_arrival a) = (case map_of (pl_Locks ?plan) (set_of_arrival a) of Some l \<Rightarrow> l | None \<Rightarrow> Absent)"
    if "a \<in> set (m_DocArrives md)" for a
  proof -
    have "set_of_arrival a \<in> fst ` set (doc_writes md (member_in ?D))" using that by (force simp: doc_writes_def)
    then show ?thesis using pl by (simp add: next_locks_def new_locks_def)
  qed
  have arr: "pl_Arrived ?plan = map (\<lambda>a. Current (set_of_arrival a) (next_locks md now ?D ?L (set_of_arrival a))) (m_DocArrives md)"
    using plan_arrived[of md now "member_of ?fd" "occupant_of T s" ?L] sp(2) assms(7) wr by (simp add: stored_plan_def)
  obtain s2 where s2: "apply_docs T byNS (arrival_Changes md f) ?fd ?plan False now s1 =
      Inr (s2, map (\<lambda>c. stamped ?plan (lock_of T s1) (changed_doc ?fd False now c)) (m_DocChanges md),
           map (\<lambda>d. stamped ?plan (lock_of T s1) (inserted_doc now d)) (m_DocInserts md))"
    "doc_step T okd okl byNS s1 s2"
    "doc_store s2 = commit_docs (arrival_Changes md f) (\<lambda>c. stamped ?plan (lock_of T s1) (changed_doc ?fd False now c))
      (\<lambda>d. stamped ?plan (lock_of T s1) (inserted_doc now d)) (doc_store s1)"
    "lock_of T s2 = plan_lock ?plan (lock_of T s1)"
    using apply_docs_ok[OF assms(1) _ within, of s1 ?plan ?fd now] pl v(1,3) same(5) assms(2) by auto
  have "doc_store s2 = commit_docs md (\<lambda>c. stamped ?plan ?L (changed_doc ?fd False now c)) (\<lambda>d. stamped ?plan ?L (inserted_doc now d)) ?D"
    using s2(3) same by (simp add: commit_docs_def)
  also have "\<dots> = commit_docs md (doc_change md now ?D ?L) (doc_insert md now ?D ?L) ?D"
    by (rule commit_docs_cong) (simp_all add: chg ins)
  finally show ?thesis
    using s2 same assms(7) lk arr chg ins by (simp add: doc_outcome_def)
qed

end
