(* ===== verification/EQMemDocCommit.thy ===== *)
theory EQMemDocCommit
  imports EQMemDocTx
begin

text \<open>
  Modify of the in-memory backend on tasks, docs and the locks of doc sets at once: it succeeds
  exactly when every operation can be applied, it then applies all of them, and otherwise none.
\<close>

section \<open>The body\<close>

lemma Merge_any:
  assumes "\<forall>e. a = Some e \<longrightarrow> HasAny e" "\<forall>e. b = Some e \<longrightarrow> HasAny e"
  shows "Merge a b = None \<longleftrightarrow> a = None \<and> b = None" "\<forall>e. Merge a b = Some e \<longrightarrow> HasAny e"
proof -
  show m: "Merge a b = None \<longleftrightarrow> a = None \<and> b = None"
    using assms by (cases a; cases b) (auto simp: Merge_None or_zero_def HasAny_zero)
  show "\<forall>e. Merge a b = Some e \<longrightarrow> HasAny e"
  proof (intro allI impI)
    fix e assume e: "Merge a b = Some e"
    then have "\<not> (a = None \<and> b = None)" using m by auto
    then have "HasAny (or_zero a) \<or> HasAny (or_zero b)" using assms by (auto simp: or_zero_def)
    then show "HasAny e" using HasAny_Merge[of a b] e by (simp add: or_zero_def)
  qed
qed

lemma check_deps_or_error:
  assumes "\<forall>e. a = Some e \<longrightarrow> HasAny e" "\<forall>e. b = Some e \<longrightarrow> HasAny e"
  shows "check_deps False a b = None \<longleftrightarrow> a = None \<and> b = None"
    "check_deps False a b = Some x \<Longrightarrow> \<exists>e. x = DependencyErr e \<and> HasAny e"
proof -
  note m = Merge_any[OF assms]
  have e: "check_deps False a b = (if a = None \<and> b = None then None else map_option DependencyErr (Merge a b))"
    by (simp add: check_deps_def split: option.split)
  show "check_deps False a b = None \<longleftrightarrow> a = None \<and> b = None" unfolding e using m(1) by simp
  assume "check_deps False a b = Some x"
  then show "\<exists>e. x = DependencyErr e \<and> HasAny e" unfolding e using m(2) by (cases "Merge a b") (auto split: if_splits)
qed

lemma merged_any:
  assumes "\<forall>e. a = Some e \<longrightarrow> HasAny e" "\<forall>e. b = Some e \<longrightarrow> HasAny e"
  shows "\<forall>e. (case b of Some e \<Rightarrow> Merge a (Some e) | None \<Rightarrow> a) = Some e \<longrightarrow> HasAny e"
    "(case b of Some e \<Rightarrow> Merge a (Some e) | None \<Rightarrow> a) = None \<longleftrightarrow> a = None \<and> b = None"
  using Merge_any[OF assms] assms(1) by (cases b; simp)+

lemma modifyBody_full:
  assumes T: "trees_ok T okd okl" and prep: "prepared byQ s md (em_qByID s) S" "gm_ok (em_qByID s)"
    and docs: "dheld T okd okl byNS s" "doc_inv (doc_store s) (lock_of T s)" "valid_docs md" "docs_named md"
      "set byNS = set (mod_namespaces md)"
    and p: "pr_mod p = md" "pr_misplaced p = misplaced_inserts (em_qByID s) (m_Inserts md)" "pr_queueDeps p = ensureModQueues md (em_qByID s)"
  shows "if task_deps_ok md now S \<and> doc_deps_ok md now (doc_store s) (lock_of T s)
    then \<exists>s' resp notified. modifyBody T now False p byQ byNS s = Inr (s', resp, notified) \<and> dheld T okd okl byNS s' \<and>
      nsdeps s' = nsdeps s \<and> doc_outcome md now (doc_store s) (lock_of T s) (doc_store s') (lock_of T s') resp
    else \<exists>e. modifyBody T now False p byQ byNS s = Inl (DependencyErr e) \<and> HasAny e"
proof -
  let ?found = "found_in byQ s md (em_qByID s)"
  let ?md = "arrival_Changes md (map_of ?found)"
  let ?d = "Modification_DependencyError (task_part ?md) (map_of ?found) Map.empty now"
  let ?q = "ensureModQueues md (em_qByID s)"
  let ?fd = "found_docs byNS s md"
  let ?plan = "stored_plan T byNS now md s"
  let ?fe = "case pl_Err ?plan of Some e \<Rightarrow> Merge ?d (Some e) | None \<Rightarrow> ?d"
  note sp = stored_plan_ok[OF T docs]
  have chk: "task_deps_ok md now S \<longleftrightarrow> ?q = None \<and> ?d = None"
    using task_checks[OF prep(1), of now] by simp
  have any: "\<forall>e. ?q = Some e \<longrightarrow> HasAny e" "\<forall>e. ?d = Some e \<longrightarrow> HasAny e"
    using ensureModQueues_HasAny DependencyError_HasAny by blast+
  have fe: "\<forall>e. ?fe = Some e \<longrightarrow> HasAny e" "?fe = None \<longleftrightarrow> ?d = None \<and> pl_Err ?plan = None"
    using merged_any[OF any(2), of "pl_Err ?plan"] sp(3)[of now] by blast+
  have cd: "check_deps False ?q ?fe = None \<longleftrightarrow> task_deps_ok md now S \<and> doc_deps_ok md now (doc_store s) (lock_of T s)"
    using check_deps_or_error(1)[OF any(1) fe(1)] fe(2) chk sp(2) by auto
  have body: "modifyBody T now False p byQ byNS s =
      (case check_deps False ?q ?fe of Some e \<Rightarrow> Inl e
       | None \<Rightarrow> sbind (apply_tasks byQ ?md ?found False now s) (\<lambda>((s, steps), changed, inserted).
             sbind (apply_docs T byNS ?md ?fd ?plan False now s) (\<lambda>(s, changedDocs, insertedDocs).
             let resp = \<lparr>mr_InsertedTasks = inserted, mr_ChangedTasks = changed, mr_InsertedDocs = insertedDocs,
                         mr_ChangedDocs = changedDocs, mr_ChangedSets = pl_Arrived ?plan\<rparr>;
                 s = fold final_step steps s;
                 s = appendJournal (Some (journal_mod ?md resp)) (journalLocksOf (pl_Locks ?plan)) s
             in Inr (s, resp, NotifyModified inserted changed))))"
    unfolding modifyBody_def p Let_def if_False sp(1) sbind_simps by (rule refl)
  show ?thesis
  proof (cases "check_deps False ?q ?fe")
    case (Some x)
    with check_deps_or_error(2)[OF any(1) fe(1)] cd show ?thesis by (auto simp: body)
  next
    case None
    then have ok: "task_deps_ok md now S" "doc_deps_ok md now (doc_store s) (lock_of T s)" using cd by simp_all
    have "work byQ s (s, []) S" using prep by (simp add: work_def prepared_def)
    from apply_tasks_ok[OF this applicable_ok[OF prep(1) ok(1)], of now]
    obtain s1 st ct it where t: "apply_tasks byQ ?md ?found False now s = Inr ((s1, st), ct, it)"
      using arrivals_found[OF prep(1) ok(1)] by auto
    note same = apply_tasks_same_ns[OF t]
    obtain s2 ch ins where d: "apply_docs T byNS ?md ?fd ?plan False now s1 = Inr (s2, ch, ins)" "doc_step T okd okl byNS s1 s2"
      "doc_outcome md now (doc_store s) (lock_of T s) (doc_store s2) (lock_of T s2)
        \<lparr>mr_InsertedTasks = it, mr_ChangedTasks = ct, mr_InsertedDocs = ins, mr_ChangedDocs = ch, mr_ChangedSets = pl_Arrived ?plan\<rparr>"
      using stored_plan_writes[OF T docs ok(2) same] by blast
    let ?resp = "\<lparr>mr_InsertedTasks = it, mr_ChangedTasks = ct, mr_InsertedDocs = ins, mr_ChangedDocs = ch, mr_ChangedSets = pl_Arrived ?plan\<rparr>"
    let ?s' = "appendJournal (Some (journal_mod ?md ?resp)) (journalLocksOf (pl_Locks ?plan)) (fold final_step st s2)"
    have "same_ns s2 ?s'" by (simp add: same_ns_def appendJournal_def fold_final_step split: option.splits)
    note v = same_ns_views[OF this]
    have b: "modifyBody T now False p byQ byNS s = Inr (?s', ?resp, NotifyModified it ct)"
      unfolding body None option.case t sbind_simps prod.case d(1) Let_def by (rule refl)
    have "dheld T okd okl byNS ?s' \<and> nsdeps ?s' = nsdeps s \<and>
      doc_outcome md now (doc_store s) (lock_of T s) (doc_store ?s') (lock_of T ?s') ?resp"
      using d(2,3) v same_ns_views(4)[OF same] by (simp add: doc_step_def)
    then show ?thesis unfolding b using ok by auto
  qed
qed

section \<open>The whole call\<close>

definition wf_docs :: "('dt, 'lt) trees \<Rightarrow> ('dt \<Rightarrow> bool) \<Rightarrow> ('lt \<Rightarrow> bool) \<Rightarrow> ('dt, 'lt) EQMem \<Rightarrow> bool" where
  "wf_docs T okd okl s \<longleftrightarrow> nk T okd okl s \<and> nsdeps s = (\<lambda>_. 0) \<and> doc_inv (doc_store s) (lock_of T s)"

lemma wf_docs_same: "same_ns s s' \<Longrightarrow> wf_docs T okd okl s' = wf_docs T okd okl s"
  using same_ns_views[of s s'] by (simp add: wf_docs_def)

text \<open>What a call does to the docs and the locks.\<close>

definition doc_result :: "('dt, 'lt) trees \<Rightarrow> ('dt \<Rightarrow> bool) \<Rightarrow> ('lt \<Rightarrow> bool) \<Rightarrow> Modification \<Rightarrow> time \<Rightarrow> bool \<Rightarrow>
    ('dt, 'lt) EQMem \<Rightarrow> ('dt, 'lt) EQMem \<times> (goerror + ModifyResponse \<times> string list) \<Rightarrow> bool" where
  "doc_result T okd okl md now tasks_ok s = (\<lambda>(s', r). wf_docs T okd okl s' \<and>
     (case r of
        Inr (resp, notified) \<Rightarrow> tasks_ok \<and> doc_outcome md now (doc_store s) (lock_of T s) (doc_store s') (lock_of T s') resp
      | Inl e \<Rightarrow> (\<exists>d. e = DependencyErr d \<and> HasAny d) \<and> \<not> (tasks_ok \<and> doc_deps_ok md now (doc_store s) (lock_of T s)) \<and>
          doc_store s' = doc_store s \<and> lock_of T s' = lock_of T s))"

lemma no_namespaces:
  assumes "valid_docs md" "docs_named md" "mod_namespaces md = []"
  shows "no_docs md"
proof -
  note nm = mod_namespaces_named(1,3)[OF assms(1,2), unfolded assms(3)]
  have "doc_refs md = []" using nm(1) by (cases "doc_refs md") auto
  moreover have "m_DocArrives md = []" using nm(2) by (cases "m_DocArrives md") auto
  ultimately show ?thesis by (simp add: no_docs_def doc_refs_def)
qed

lemma doc_outcome_none:
  assumes "no_docs md"
  shows "doc_outcome md now D L D L zero_ModifyResponse"
proof -
  have e: "m_DocInserts md = []" "m_DocChanges md = []" "m_DocDeletes md = []" "m_DocDepends md = []" "m_DocArrives md = []"
    using assms by (simp_all add: no_docs_def)
  then have "doc_writes md (member_in D) = []" by (simp add: doc_writes_def)
  then have "L = next_locks md now D L" by (simp add: next_locks_def fun_eq_iff new_locks_def)
  then show ?thesis
    by (simp add: doc_outcome_def doc_deps_ok_def commit_docs_def restrict_map_def e zero_ModifyResponse_def)
qed

lemma unlockQueues_same_ns: "same_ns s (unlockQueues qls s)"
proof -
  have "same_ns s (unlockQueue q s)" for q and s :: "('a, 'b) EQMem"
    by (auto simp: unlockQueue_def same_ns_def set_lock_def Let_def split: option.splits)
  then have "same_ns s (fold unlockQueue xs s)" for xs
    by (induction xs arbitrary: s) (auto simp: same_ns_def)
  then show ?thesis by (simp add: unlockQueues_def)
qed

lemma distinct_mod_namespaces: "distinct (mod_namespaces md)"
  by (simp add: mod_namespaces_def)

lemma doc_inv_outcome:
  assumes "doc_inv D L" "valid_docs md" "doc_outcome md now D L D' L' resp"
  shows "doc_inv D' L'"
  using doc_inv_commit[OF assms(1,2) _ doc_writers_ok[OF doc_invD(1)[OF assms(1)]], of now] assms(3)
  by (simp add: doc_outcome_def next_locks_def[abs_def])

lemma modifyLocked_docs:
  assumes T: "trees_ok T okd okl" and wf: "wf_mem s" "wf_docs T okd okl s" and md: "valid_tasks md" "valid_docs md" "docs_named md"
  shows "doc_result T okd okl md now (task_deps_ok md now (store s)) s (modifyLocked T now False (modPrep md False s) s)"
proof (cases "nothing_to_lock (modPrep md False s)")
  case True
  then have "no_docs md" using no_namespaces[OF md(2,3)] by (simp add: nothing_to_lock_def)
  with True wf(2) nothing_to_lock_tasks[OF True md(1)] doc_outcome_none show ?thesis
    by (simp add: modifyLocked_def doc_result_def task_deps_ok_def)
next
  case False
  let ?p = "modPrep md False s" and ?ns = "mod_namespaces md"
  obtain qls s1 where l: "lockQueues (pr_queues ?p) s = Inr (qls, s1)"
    "em_qByID s1 = em_qByID s" "same_rest s s1" "\<forall>s2. same_tasks s1 s2 \<longrightarrow> prepared qls s2 md (em_qByID s2) (store s)"
    by (rule lock_prepared[OF wf(1) md(1)])
  note v1 = same_ns_views[OF same_ns_rest[OF l(3)]]
  have nk1: "nk T okd okl s1" using wf(2) v1 by (simp add: wf_docs_def)
  obtain s2 where n: "lockNamespaces T ?ns s1 = Inr (sort ?ns, s2)" "nk T okd okl s2" "docs_at s2 = docs_at s1"
    "lock_of T s2 = lock_of T s1" "nsdeps s2 = (\<lambda>n. nsdeps s1 n + of_bool (n \<in> set ?ns))" "same_tasks s1 s2"
    by (rule lockNamespaces_ok[OF T nk1 distinct_mod_namespaces])
  have D: "doc_store s2 = doc_store s" "lock_of T s2 = lock_of T s" using n(3,4) v1 by (simp_all add: doc_store_def)
  have h: "dheld T okd okl (sort ?ns) s2" using n(2,5) wf(2) v1(4) by (simp add: dheld_def wf_docs_def)
  have q: "em_qByID s2 = em_qByID s" using n(6) l(2) by (simp add: same_tasks_def)
  have pre: "prepared qls s2 md (em_qByID s2) (store s)" using l(4) n(6) by blast
  have fin: "wf_docs T okd okl (unlockQueues qls (unlockNamespaces T (sort ?ns) s3)) \<and>
      doc_store (unlockQueues qls (unlockNamespaces T (sort ?ns) s3)) = doc_store s3 \<and>
      lock_of T (unlockQueues qls (unlockNamespaces T (sort ?ns) s3)) = lock_of T s3"
    if "dheld T okd okl (sort ?ns) s3" "nsdeps s3 = nsdeps s2" "doc_inv (doc_store s3) (lock_of T s3)" for s3
    using unlockNamespaces_ok[OF T, of s3 "sort ?ns"] that n(5) wf(2) v1(4) distinct_mod_namespaces[of md]
      same_ns_views[OF unlockQueues_same_ns[of "unlockNamespaces T (sort ?ns) s3" qls]]
    by (simp add: wf_docs_def dheld_def doc_store_def)
  have inv: "doc_inv (doc_store s2) (lock_of T s2)" using wf(2) D by (simp add: wf_docs_def)
  have b: "if task_deps_ok md now (store s) \<and> doc_deps_ok md now (doc_store s2) (lock_of T s2)
    then \<exists>s' resp notified. modifyBody T now False ?p qls (sort ?ns) s2 = Inr (s', resp, notified) \<and> dheld T okd okl (sort ?ns) s' \<and>
      nsdeps s' = nsdeps s2 \<and> doc_outcome md now (doc_store s2) (lock_of T s2) (doc_store s') (lock_of T s') resp
    else \<exists>e. modifyBody T now False ?p qls (sort ?ns) s2 = Inl (DependencyErr e) \<and> HasAny e"
    by (rule modifyBody_full[OF T pre _ h inv md(2,3)]) (use q wf_mem_work(4)[OF wf(1)] in simp_all)
  show ?thesis
  proof (cases "task_deps_ok md now (store s) \<and> doc_deps_ok md now (doc_store s2) (lock_of T s2)")
    case True
    from b[unfolded if_P[OF this]] obtain s' resp notified where s': "modifyBody T now False ?p qls (sort ?ns) s2 = Inr (s', resp, notified)"
      "dheld T okd okl (sort ?ns) s'" "nsdeps s' = nsdeps s2" "doc_outcome md now (doc_store s2) (lock_of T s2) (doc_store s') (lock_of T s') resp"
      by blast
    with fin[OF s'(2,3) doc_inv_outcome[OF inv md(2) s'(4)]] True False l(1) n(1) D show ?thesis
      by (simp add: modifyLocked_def doc_result_def)
  next
    case nok: False
    from b[unfolded if_not_P[OF this]] obtain e where "modifyBody T now False ?p qls (sort ?ns) s2 = Inl (DependencyErr e)" "HasAny e" by blast
    with fin[OF h refl inv] nok False l(1) n(1) D show ?thesis by (simp add: modifyLocked_def doc_result_def)
  qed
qed

lemma valid_docs_intro:
  assumes "validate_Modification md = None" "missing_ids md = None"
  shows "valid_docs md"
proof -
  note v = validate_Modification_docs[OF assms(1)]
  have "map (\<lambda>d. (dd_Namespace d, dd_Key d, dd_SecondaryKey d)) (m_DocInserts md) =
      map (\<lambda>(g, sec). (g_Namespace g, g_Key g, sec)) (map (\<lambda>x. (ins_set x, dd_SecondaryKey x)) (m_DocInserts md))"
    by (simp add: ins_set_def)
  with v(4) have "distinct (map (\<lambda>(g, sec). (g_Namespace g, g_Key g, sec)) (map (\<lambda>x. (ins_set x, dd_SecondaryKey x)) (m_DocInserts md)))"
    by (simp only:)
  from iffD1[OF distinct_map this] have "distinct (map (\<lambda>x. (ins_set x, dd_SecondaryKey x)) (m_DocInserts md))" by blast
  with v assms(2) show ?thesis
    by (auto simp: valid_docs_def missing_ids_def first_some_None err_or_def split: option.splits if_splits)
qed

lemma Modify_docs:
  assumes "trees_ok T okd okl" "wf_mem s" "wf_docs T okd okl s" "docs_named md"
    "validate_Modification md = None" "missing_ids md = None"
  shows "doc_result T okd okl md now (task_deps_ok md now (store s)) s (Modify T now md s)"
  using modifyLocked_docs[OF assms(1-3) valid_tasks_intro[OF assms(5,6)] valid_docs_intro[OF assms(5,6)] assms(4)] assms(5,6)
  by (simp add: Modify_def modifyImpl_def)

section \<open>Properties of Modify on docs\<close>


text \<open>A backend with no docs, and a modification that inserts two docs of one set and holds it for 5.\<close>

definition ex_docs :: Modification where
  "ex_docs = NewModification ''me'' [PuttingDocInto ''ns'' [WithIDKeys ''d1'' ''k'' ''s1'', WithDocArrivalTimeBy 5],
     PuttingDocInto ''ns'' [WithIDKeys ''d2'' ''k'' ''s2'']]"

lemma new_docs:
  "wf_mem (new_EQMem j)" "store (new_EQMem j) = Map.empty"
  "trees_ok T okd okl \<Longrightarrow> wf_docs T okd okl (new_EQMem j)" "doc_store (new_EQMem j) = Map.empty" "lock_of T (new_EQMem j) = (\<lambda>_. Absent)"
proof -
  show "wf_mem (new_EQMem j)"
    by (simp add: wf_mem_def lk_def wf_queues_def live_def deps_def qByID_ok_def named_def tasks_at_def new_EQMem_def fun_eq_iff)
  show "store (new_EQMem j) = Map.empty" by (simp add: store_def new_EQMem_def fun_eq_iff)
  show d: "doc_store (new_EQMem j) = Map.empty" by (simp add: doc_store_def docs_at_def new_EQMem_def fun_eq_iff)
  show l: "lock_of T (new_EQMem j) = (\<lambda>_. Absent)" by (simp add: lock_of_def new_EQMem_def fun_eq_iff)
  show "wf_docs T okd okl (new_EQMem j)"
    unfolding wf_docs_def d l
    by (simp add: nk_def ns_ok_def ns_live_def nsdeps_def new_EQMem_def doc_inv_def typed_docs_def docs_of_def Absent_def fun_eq_iff)
qed




end
