(* ===== verification/Queries.thy ===== *)
theory Queries
  imports TaskOps DocOps
begin

text \<open>
  Listing requests: stats.go. The functions of the client take the backend's operation as an
  argument; the options of a request are functions on it, applied in order.
\<close>

section \<open>Requests and their options\<close>

definition TasksQuery_Validate :: "TasksQuery \<Rightarrow> goerror option" where
  "TasksQuery_Validate q =
     (if tq_Queue q = [] \<and> tq_IDs q = [] then Some (InvalidArgumentError TasksQueryEmpty) else None)"

type_synonym TasksOpt = "TasksQuery \<Rightarrow> TasksQuery"
type_synonym QueuesOpt = "MatchQuery \<Rightarrow> MatchQuery"

definition newMatchQuery :: "QueuesOpt list \<Rightarrow> MatchQuery" where
  "newMatchQuery opts = fold (\<lambda>opt q. opt q) opts \<lparr>mq_MatchPrefix = [], mq_MatchExact = [], mq_Limit = 0\<rparr>"

definition ClaimedBySelf :: TasksOpt where
  "ClaimedBySelf q = q\<lparr>tq_claimedBySelf := True\<rparr>"

definition ClaimedBy :: "string \<Rightarrow> TasksOpt" where
  "ClaimedBy i q = q\<lparr>tq_Claimant := i\<rparr>"

definition LimitTasks :: "int \<Rightarrow> TasksOpt" where
  "LimitTasks limit q = q\<lparr>tq_Limit := limit\<rparr>"

definition OmitValues :: TasksOpt where
  "OmitValues q = q\<lparr>tq_OmitValues := True\<rparr>"

definition WithTaskID :: "string list \<Rightarrow> TasksOpt" where
  "WithTaskID ids q = q\<lparr>tq_IDs := tq_IDs q @ ids\<rparr>"

definition MatchPrefix :: "string list \<Rightarrow> QueuesOpt" where
  "MatchPrefix prefixes q = q\<lparr>mq_MatchPrefix := mq_MatchPrefix q @ prefixes\<rparr>"

definition MatchExact :: "string list \<Rightarrow> QueuesOpt" where
  "MatchExact matches q = q\<lparr>mq_MatchExact := mq_MatchExact q @ matches\<rparr>"

definition WithLimit :: "int \<Rightarrow> QueuesOpt" where
  "WithLimit limit q = q\<lparr>mq_Limit := limit\<rparr>"

section \<open>The client's listings\<close>

definition QueuesFromStats :: "goerror + (string, QueueStat) gomap \<Rightarrow> goerror + (string, int) gomap" where
  "QueuesFromStats r = sbind r (\<lambda>stats. Inr (fold (\<lambda>(k, v) qs. gm_set k (qs_Size v) qs) stats []))"

definition EntroQ_Queues :: "(MatchQuery \<Rightarrow> goerror + (string, int) gomap) \<Rightarrow> QueuesOpt list \<Rightarrow> goerror + (string, int) gomap" where
  "EntroQ_Queues backend opts = backend (newMatchQuery opts)"

definition EntroQ_QueueStats :: "(MatchQuery \<Rightarrow> goerror + (string, QueueStat) gomap) \<Rightarrow> QueuesOpt list \<Rightarrow>
    goerror + (string, QueueStat) gomap" where
  "EntroQ_QueueStats backend opts = backend (newMatchQuery opts)"

definition EntroQ_NamespaceStats :: "(MatchQuery \<Rightarrow> goerror + (string, NamespaceStat) gomap) \<Rightarrow> QueuesOpt list \<Rightarrow>
    goerror + (string, NamespaceStat) gomap" where
  "EntroQ_NamespaceStats backend opts = backend (newMatchQuery opts)"

definition QueuesEmpty :: "(MatchQuery \<Rightarrow> goerror + (string, int) gomap) \<Rightarrow> QueuesOpt list \<Rightarrow> goerror + bool" where
  "QueuesEmpty backend opts =
     (if opts = [] then Inl (PlainError ''empty check: no queue options specified'')
      else sbind (EntroQ_Queues backend opts) (\<lambda>qs. Inr (\<not> list_ex (\<lambda>(_, size). size > 0) qs)))"

text \<open>
  WaitQueuesEmpty polls until the queues are empty. Each poll sees the answer of the backend at its
  time, and \<open>ctxErr k\<close> is the error of the context if it is done when poll \<open>k\<close> has not found them empty; the
  loop runs for at most as many polls as there is fuel.
\<close>

fun WaitQueuesEmpty :: "nat \<Rightarrow> nat \<Rightarrow> (nat \<Rightarrow> MatchQuery \<Rightarrow> goerror + (string, int) gomap) \<Rightarrow> (nat \<Rightarrow> goerror option) \<Rightarrow> QueuesOpt list \<Rightarrow>
    goerror option option" where
  "WaitQueuesEmpty 0 k backend ctxErr opts = None"
| "WaitQueuesEmpty (Suc fuel) k backend ctxErr opts =
     (case QueuesEmpty (backend k) opts of
        Inl e \<Rightarrow> Some (Some e)
      | Inr True \<Rightarrow> Some None
      | Inr False \<Rightarrow> case ctxErr k of Some e \<Rightarrow> Some (Some e) | None \<Rightarrow> WaitQueuesEmpty fuel (Suc k) backend ctxErr opts)"

definition tasks_query :: "string \<Rightarrow> string \<Rightarrow> TasksOpt list \<Rightarrow> TasksQuery" where
  "tasks_query queue self opts =
     (let query = fold (\<lambda>opt q. opt q) opts \<lparr>tq_Queue = queue, tq_Claimant = [], tq_Limit = 0, tq_IDs = [],
            tq_OmitValues = False, tq_claimedBySelf = False\<rparr>
      in if tq_claimedBySelf query then query\<lparr>tq_Claimant := self\<rparr> else query)"

definition EntroQ_tasks :: "(TasksQuery \<Rightarrow> goerror + Task list) \<Rightarrow> string \<Rightarrow> string \<Rightarrow> TasksOpt list \<Rightarrow> goerror + Task list" where
  "EntroQ_tasks backend queue self opts =
     (let query = tasks_query queue self opts in
      case TasksQuery_Validate query of Some e \<Rightarrow> Inl e | None \<Rightarrow> backend query)"

section \<open>Facts\<close>

text \<open>Enough polls: the loop returns as soon as the queues are found empty, a call fails or the context ends.\<close>

lemma WaitQueuesEmpty_returns:
  assumes "(\<exists>r. QueuesEmpty (backend (k + n)) opts = r \<and> r \<noteq> Inr False) \<or> ctxErr (k + n) \<noteq> None" "n < fuel"
  shows "\<exists>r. WaitQueuesEmpty fuel k backend ctxErr opts = Some r"
  using assms
proof (induction n arbitrary: k fuel)
  case 0
  then show ?case by (cases fuel) (auto split: sum.splits bool.splits option.splits)
next
  case (Suc n)
  then obtain fuel' where "fuel = Suc fuel'" by (cases fuel) auto
  with Suc show ?case by (auto split: sum.splits bool.splits option.splits)
qed

lemma WaitQueuesEmpty_empty:
  "WaitQueuesEmpty fuel k backend ctxErr opts = Some None \<Longrightarrow> \<exists>j \<ge> k. QueuesEmpty (backend j) opts = Inr True"
proof (induction fuel arbitrary: k)
  case (Suc fuel)
  then consider "QueuesEmpty (backend k) opts = Inr True" | "WaitQueuesEmpty fuel (Suc k) backend ctxErr opts = Some None"
    by (auto split: sum.splits bool.splits option.splits)
  then show ?case
  proof cases
    case 2
    from Suc.IH[OF this] show ?thesis using Suc_leD by blast
  qed blast
qed simp

end
