(* ===== verification/EQMemReads.thy ===== *)
theory EQMemReads
  imports EQMemDocCommit Queries "HOL-Library.Sublist"
begin

text \<open>
  The reads of the in-memory backend: Tasks, QueueStats, Queues and NamespaceStats of eqmem.go and
  ns.go, Docs of docs.go and the readiness check of readiness.go. The order in which Go ranges over
  a map is an argument \<open>ord\<close>, a function that permutes the entries.
\<close>

section \<open>Tasks\<close>

definition queueForID :: "string \<Rightarrow> ('dt, 'lt) EQMem \<Rightarrow> string option" where
  "queueForID i s = map_of (em_qByID s) i"

definition queueTasks :: "string \<Rightarrow> ('dt, 'lt) EQMem \<Rightarrow> taskQueue option" where
  "queueTasks q s = map_of (em_queues s) q"

definition tryAdd :: "TasksQuery \<Rightarrow> time \<Rightarrow> Task \<Rightarrow> Task list \<Rightarrow> Task list" where
  "tryAdd tq now t found =
     (if tq_Queue tq \<noteq> [] \<and> tq_Queue tq \<noteq> t_Queue t then found
      else if tq_Claimant tq \<noteq> [] \<and> tq_Claimant tq \<noteq> t_Claimant t \<and> t_At t > now then found
      else found @ [CopyWithValue t (\<not> tq_OmitValues tq)])"

fun tasks_by_id :: "TasksQuery \<Rightarrow> time \<Rightarrow> ('dt, 'lt) EQMem \<Rightarrow> string list \<Rightarrow> Task list \<Rightarrow> Task list" where
  "tasks_by_id tq now s [] found = found"
| "tasks_by_id tq now s (i # ids) found =
     tasks_by_id tq now s ids
       (case queueForID i s of
          None \<Rightarrow> found
        | Some q \<Rightarrow>
            if tq_Queue tq \<noteq> [] \<and> tq_Queue tq \<noteq> q then found
            else case queueTasks q s of
              None \<Rightarrow> found
            | Some ts \<Rightarrow> (case ts_Get i ts of None \<Rightarrow> found | Some t \<Rightarrow> tryAdd tq now t found))"

fun tasks_range :: "TasksQuery \<Rightarrow> time \<Rightarrow> Task list \<Rightarrow> Task list \<Rightarrow> Task list" where
  "tasks_range tq now [] found = found"
| "tasks_range tq now (t # ts) found =
     (if tq_Limit tq \<noteq> 0 \<and> tq_Limit tq \<le> int (length found) then found
      else tasks_range tq now ts (tryAdd tq now t found))"

definition EQMem_Tasks :: "((string, Task) gomap \<Rightarrow> (string, Task) gomap) \<Rightarrow> time \<Rightarrow> TasksQuery \<Rightarrow> ('dt, 'lt) EQMem \<Rightarrow>
    goerror + Task list" where
  "EQMem_Tasks ord now tq s =
     (case TasksQuery_Validate tq of
        Some e \<Rightarrow> Inl e
      | None \<Rightarrow>
          if tq_IDs tq \<noteq> [] then Inr (tasks_by_id tq now s (tq_IDs tq) [])
          else case queueTasks (tq_Queue tq) s of
            None \<Rightarrow> Inr []
          | Some ts \<Rightarrow> Inr (tasks_range tq now (ts_Range ord ts) []))"

section \<open>Statistics\<close>

definition matchesQuery :: "string \<Rightarrow> MatchQuery \<Rightarrow> bool" where
  "matchesQuery val qq =
     (if mq_MatchPrefix qq = [] \<and> mq_MatchExact qq = [] then True
      else list_ex (\<lambda>p. prefix p val) (mq_MatchPrefix qq) \<or> List.member (mq_MatchExact qq) val)"

definition snapshotQueueLocks :: "((string, qLock) gomap \<Rightarrow> (string, qLock) gomap) \<Rightarrow> ('dt, 'lt) EQMem \<Rightarrow> qLock list" where
  "snapshotQueueLocks ord s = map snd (ord (em_locks s))"

definition stat_task :: "time \<Rightarrow> Task \<Rightarrow> QueueStat \<Rightarrow> QueueStat" where
  "stat_task now t st =
     (let st = st\<lparr>qs_Size := qs_Size st + 1\<rparr>;
          st = (if t_At t > now
                then if sint (t_Claims t) > 0 then st\<lparr>qs_Claimed := qs_Claimed st + 1\<rparr> else st\<lparr>qs_Future := qs_Future st + 1\<rparr>
                else st\<lparr>qs_Available := qs_Available st + 1\<rparr>)
      in if sint (t_Claims t) > qs_MaxClaims st then st\<lparr>qs_MaxClaims := sint (t_Claims t)\<rparr> else st)"

definition queue_stat :: "time \<Rightarrow> string \<Rightarrow> Task list \<Rightarrow> QueueStat" where
  "queue_stat now q ts = fold (stat_task now) ts
     \<lparr>qs_Name = q, qs_Size = 0, qs_Claimed = 0, qs_Available = 0, qs_Future = 0, qs_MaxClaims = 0\<rparr>"

text \<open>The body of the loop: skip a name that does not match, stop at the limit, or record the statistics.\<close>

fun stats_loop :: "MatchQuery \<Rightarrow> (string \<Rightarrow> 'a) \<Rightarrow> string list \<Rightarrow> (string, 'a) gomap \<Rightarrow> (string, 'a) gomap" where
  "stats_loop qq stat [] out = out"
| "stats_loop qq stat (q # qs) out =
     (if \<not> matchesQuery q qq then stats_loop qq stat qs out
      else if mq_Limit qq > 0 \<and> int (length out) \<ge> mq_Limit qq then out
      else stats_loop qq stat qs (gm_set q (stat q) out))"

definition QueueStats :: "((string, qLock) gomap \<Rightarrow> (string, qLock) gomap) \<Rightarrow> ((string, Task) gomap \<Rightarrow> (string, Task) gomap) \<Rightarrow>
    time \<Rightarrow> MatchQuery \<Rightarrow> ('dt, 'lt) EQMem \<Rightarrow> goerror + (string, QueueStat) gomap" where
  "QueueStats ord ordt now qq s =
     Inr (stats_loop qq (\<lambda>q. queue_stat now q (case map_of (em_queues s) q of Some ts \<Rightarrow> ts_Range ordt ts | None \<Rightarrow> []))
            (map ql_queue (snapshotQueueLocks ord s)) [])"

definition EQMem_Queues :: "((string, qLock) gomap \<Rightarrow> (string, qLock) gomap) \<Rightarrow> ((string, Task) gomap \<Rightarrow> (string, Task) gomap) \<Rightarrow>
    time \<Rightarrow> MatchQuery \<Rightarrow> ('dt, 'lt) EQMem \<Rightarrow> goerror + (string, int) gomap" where
  "EQMem_Queues ord ordt now qq s = QueuesFromStats (QueueStats ord ordt now qq s)"

definition ns_stat :: "('dt, 'lt) trees \<Rightarrow> time \<Rightarrow> string \<Rightarrow> 'dt \<times> 'lt \<Rightarrow> NamespaceStat" where
  "ns_stat T now name = (\<lambda>(snap, locks).
     fold (\<lambda>e st. let st = st\<lparr>nst_Size := nst_Size st + 1\<rparr> in
             if Held (lockIn T locks (dk_Key e)) now then st\<lparr>nst_Claimed := nst_Claimed st + 1\<rparr> else st)
       (bt_Ascend (tr_docs T) snap) \<lparr>nst_Name = name, nst_Size = 0, nst_Claimed = 0\<rparr>)"

definition NamespaceStats :: "('dt, 'lt) trees \<Rightarrow> ((string, int) gomap \<Rightarrow> (string, int) gomap) \<Rightarrow> time \<Rightarrow> MatchQuery \<Rightarrow>
    ('dt, 'lt) EQMem \<Rightarrow> goerror + (string, NamespaceStat) gomap" where
  "NamespaceStats T ord now qq s =
     Inr (stats_loop qq (\<lambda>n. ns_stat T now n
            (dn_snapshot (case map_of (em_namespaces s) n of Some nss \<Rightarrow> nss | None \<Rightarrow> newDocNamespace T n)))
            (map fst (ord (em_nslocks s))) [])"

section \<open>Docs\<close>

text \<open>
  The range scans clone the trees under the lock and release it; nothing else happens between, so
  the scan reads the same docs.
\<close>

definition doc_result_of :: "bool \<Rightarrow> Doc \<Rightarrow> Lock \<Rightarrow> Doc" where
  "doc_result_of omit d l = (let res = Overlay d l in if omit then res\<lparr>d_Content := None\<rparr> else res)"

fun collect :: "int \<Rightarrow> (Doc \<Rightarrow> Doc) \<Rightarrow> Doc list \<Rightarrow> Doc list \<Rightarrow> Doc list" where
  "collect limit f [] found = found"
| "collect limit f (d # ds) found =
     (if limit > 0 \<and> int (length found) \<ge> limit then found else collect limit f ds (found @ [f d]))"

definition scan :: "('dt, 'lt) trees \<Rightarrow> DocQuery \<Rightarrow> 'dt \<Rightarrow> docKeyEntry list" where
  "scan T rq snap =
     (if dq_KeyExact rq \<noteq> [] then
        takeWhile (\<lambda>e. dk_Key e = dq_KeyExact rq) (bt_AscendGreaterOrEqual (tr_docs T) (pivot (dq_KeyExact rq)) snap)
      else if dq_KeyEnd rq \<noteq> [] then bt_AscendRange (tr_docs T) (pivot (dq_KeyStart rq)) (pivot (dq_KeyEnd rq)) snap
      else if dq_KeyStart rq \<noteq> [] then bt_AscendGreaterOrEqual (tr_docs T) (pivot (dq_KeyStart rq)) snap
      else bt_Ascend (tr_docs T) snap)"

definition docs_read :: "('dt, 'lt) trees \<Rightarrow> DocQuery \<Rightarrow> ('dt, 'lt) docNamespace \<Rightarrow> Doc list" where
  "docs_read T rq nss =
     (if dq_IDs rq \<noteq> []
      then List.map_filter (\<lambda>i. map_option (\<lambda>d. doc_result_of (dq_OmitValues rq) d (dn_Lock T (d_Key d) nss)) (dn_Get i nss)) (dq_IDs rq)
      else let (snap, locks) = dn_snapshot nss in
        collect (dq_Limit rq) (\<lambda>d. doc_result_of (dq_OmitValues rq) d (lockIn T locks (d_Key d)))
          (List.map_filter dk_Doc (scan T rq snap)) [])"

definition EQMem_Docs :: "('dt, 'lt) trees \<Rightarrow> DocQuery \<Rightarrow> ('dt, 'lt) EQMem \<Rightarrow> goerror + Doc list \<times> ('dt, 'lt) EQMem" where
  "EQMem_Docs T rq s =
     (case DocQuery_Validate rq of
        Some e \<Rightarrow> Inl e
      | None \<Rightarrow>
          sbind (lockNamespaces T [dq_Namespace rq] s) (\<lambda>(nls, s).
          if nls = [] then Inr ([], unlockNamespaces T nls s) else
          case map_of (em_namespaces s) (dq_Namespace rq) of
            None \<Rightarrow> Inl (Panic ''nil namespace lock'')
          | Some nss \<Rightarrow> Inr (docs_read T rq nss, unlockNamespaces T nls s)))"

section \<open>Readiness\<close>

text \<open>
  The queues notified, in order, once per waiter woken. The notifier either counts its listeners or
  cannot.
\<close>

definition notifyReadyQueues :: "((string, qLock) gomap \<Rightarrow> (string, qLock) gomap) \<Rightarrow> (string, int) gomap option \<Rightarrow> time \<Rightarrow>
    ('dt, 'lt) EQMem \<Rightarrow> string list" where
  "notifyReadyQueues ord listeners now s =
     (case listeners of
        Some ls \<Rightarrow> if ls = [] then [] else
          concat (map (\<lambda>ql. let limit = (case map_of ls (ql_queue ql) of Some n \<Rightarrow> n | None \<Rightarrow> 0) in
            if limit = 0 then [] else replicate (nat (CountAvailable (ql_heap ql) now limit)) (ql_queue ql))
            (snapshotQueueLocks ord s))
      | None \<Rightarrow> concat (map (\<lambda>ql. replicate (nat (CountAvailable (ql_heap ql) now 1)) (ql_queue ql)) (snapshotQueueLocks ord s)))"

end
