(* ===== verification/EQMemReadFacts.thy ===== *)
theory EQMemReadFacts
  imports EQMemReads
begin

text \<open>
  What the reads of the in-memory backend return, in terms of the tasks, docs and locks stored.
\<close>

section \<open>Tasks\<close>

definition wanted :: "TasksQuery \<Rightarrow> time \<Rightarrow> Task \<Rightarrow> bool" where
  "wanted tq now t \<longleftrightarrow> (tq_Queue tq = [] \<or> tq_Queue tq = t_Queue t) \<and>
     (tq_Claimant tq = [] \<or> tq_Claimant tq = t_Claimant t \<or> t_At t \<le> now)"

definition listed :: "TasksQuery \<Rightarrow> Task \<Rightarrow> Task" where
  "listed tq t = CopyWithValue t (\<not> tq_OmitValues tq)"

lemma tryAdd_eq: "tryAdd tq now t found = found @ (if wanted tq now t then [listed tq t] else [])"
  by (auto simp: tryAdd_def wanted_def listed_def)

lemma tasks_by_id_eq:
  assumes "wf_mem s"
  shows "tasks_by_id tq now s ids found =
    found @ List.map_filter (\<lambda>i. case store s i of Some t \<Rightarrow> if wanted tq now t then Some (listed tq t) else None | None \<Rightarrow> None) ids"
proof (induction ids arbitrary: found)
  case Nil
  then show ?case by (simp add: map_filter_simps)
next
  case (Cons i ids)
  note w = wf_mem_work[OF assms]
  have "(case queueForID i s of None \<Rightarrow> found
      | Some q \<Rightarrow> if tq_Queue tq \<noteq> [] \<and> tq_Queue tq \<noteq> q then found
          else case queueTasks q s of None \<Rightarrow> found
            | Some ts \<Rightarrow> (case ts_Get i ts of None \<Rightarrow> found | Some t \<Rightarrow> tryAdd tq now t found)) =
      found @ (case store s i of Some t \<Rightarrow> if wanted tq now t then [listed tq t] else [] | None \<Rightarrow> [])"
  proof (cases "store s i")
    case None
    then have "map_of (em_qByID s) i = None" using w(3) by simp
    with None show ?thesis by (simp add: queueForID_def)
  next
    case (Some t)
    then have q: "map_of (em_qByID s) i = Some (t_Queue t)" using w(3) by simp
    with Some obtain ts where ts: "map_of (em_queues s) (t_Queue t) = Some ts" "map_of (ts_byID ts) i = Some t"
      by (auto simp: store_def tasks_at_def split: option.splits)
    with Some q show ?thesis by (auto simp: queueForID_def queueTasks_def ts_Get_def tryAdd_eq wanted_def)
  qed
  then show ?case
    unfolding tasks_by_id.simps Cons.IH by (simp add: map_filter_simps split: option.splits)
qed

lemma tasks_range_eq:
  "tasks_range tq now ts found =
     (if tq_Limit tq = 0 then found @ map (listed tq) (filter (wanted tq now) ts)
      else found @ take (nat (tq_Limit tq - int (length found))) (map (listed tq) (filter (wanted tq now) ts)))"
proof (induction ts arbitrary: found)
  case (Cons t ts)
  have "nat (tq_Limit tq - int (length found)) = Suc (nat (tq_Limit tq - (int (length found) + 1)))"
    if "\<not> tq_Limit tq \<le> int (length found)" using that by simp
  with Cons show ?case by (auto simp: tryAdd_eq add.commute[of 1])
qed simp

text \<open>The order in which a map is ranged over: a permutation of its entries.\<close>

definition permutes_entries :: "('a list \<Rightarrow> 'a list) \<Rightarrow> bool" where
  "permutes_entries ord \<longleftrightarrow> (\<forall>xs. mset (ord xs) = mset xs)"

lemma permutes_set:
  assumes "permutes_entries ord"
  shows "set (ord xs) = set xs" "distinct (ord xs) = distinct xs" "length (ord xs) = length xs"
    "distinct (map f (ord xs)) = distinct (map f xs)"
proof -
  have m: "mset (ord xs) = mset xs" using assms by (simp add: permutes_entries_def)
  show "set (ord xs) = set xs" "length (ord xs) = length xs" using m mset_eq_setD mset_eq_length by blast+
  show "distinct (ord xs) = distinct xs" using m mset_eq_imp_distinct_iff by blast
  have "mset (map f (ord xs)) = mset (map f xs)" using m by simp
  then show "distinct (map f (ord xs)) = distinct (map f xs)" using mset_eq_imp_distinct_iff by blast
qed

lemma range_of_queue:
  assumes "wf_mem s" "permutes_entries ord" "map_of (em_queues s) q = Some ts"
  shows "distinct (ts_Range ord ts)" "set (ts_Range ord ts) = {t. store s (t_ID t) = Some t \<and> t_Queue t = q}"
proof -
  note p = permutes_set[OF assms(2)]
  have wq: "wf_queues s" using assms(1) by (simp add: wf_mem_def lk_def)
  then have "(map_of (em_queues s) q = None) = (map_of (em_locks s) q = None)" by (simp add: wf_queues_def)
  then obtain ql where "map_of (em_locks s) q = Some ql" using assms(3) by auto
  with wq assms(3) have "queue_ok q ts ql" by (simp add: wf_queues_def)
  then have ok: "gm_ok (ts_byID ts)" "\<And>i t. map_of (ts_byID ts) i = Some t \<Longrightarrow> t_ID t = i" by (auto simp: queue_ok_def ts_ok_def)
  have "inj_on snd (set (ts_byID ts))"
  proof (rule inj_onI)
    fix x y assume "x \<in> set (ts_byID ts)" "y \<in> set (ts_byID ts)" "snd x = snd y"
    then show "x = y" using ok(2) gm_ok_mem[OF ok(1)] by (metis prod.collapse)
  qed
  moreover have "distinct (ts_byID ts)" using ok(1) by (auto simp: gm_ok_def distinct_map)
  ultimately show "distinct (ts_Range ord ts)" using p(1,2) by (simp add: ts_Range_def distinct_map)
  have "tasks_at s q = at_queue (store s) q" using wf_mem_work(1)[OF assms(1)] by simp
  then have at: "map_of (ts_byID ts) i = Some t \<longleftrightarrow> store s i = Some t \<and> t_Queue t = q" for i t
    using assms(3) by (simp add: tasks_at_def at_queue_def fun_eq_iff split: option.splits) blast
  have id: "store s i = Some t \<Longrightarrow> t_ID t = i" for i t using typed_store[OF assms(1)] by (simp add: typed_def)
  have "set (ts_Range ord ts) = ran (map_of (ts_byID ts))"
    using p(1)[of "ts_byID ts"] gm_ok_mem[OF ok(1)] by (force simp: ts_Range_def ran_def)
  also have "\<dots> = {t. store s (t_ID t) = Some t \<and> t_Queue t = q}"
    unfolding ran_def at using id by blast
  finally show "set (ts_Range ord ts) = {t. store s (t_ID t) = Some t \<and> t_Queue t = q}" .
qed

section \<open>Statistics\<close>

definition stat_of :: "time \<Rightarrow> string \<Rightarrow> Task list \<Rightarrow> QueueStat" where
  "stat_of now q ts = \<lparr>qs_Name = q, qs_Size = int (length ts),
     qs_Claimed = int (length (filter (\<lambda>t. now < t_At t \<and> 0 < sint (t_Claims t)) ts)),
     qs_Available = int (length (filter (\<lambda>t. t_At t \<le> now) ts)),
     qs_Future = int (length (filter (\<lambda>t. now < t_At t \<and> sint (t_Claims t) \<le> 0) ts)),
     qs_MaxClaims = Max (insert 0 ((\<lambda>t. sint (t_Claims t)) ` set ts))\<rparr>"

lemma Max_insert_zero:
  assumes "finite A"
  shows "Max (insert 0 (insert c A)) = (if Max (insert 0 A) < c then c else Max (insert (0::int) A))"
proof -
  have "Max (insert c (insert 0 A)) = max c (Max (insert 0 A))" by (rule Max_insert) (use assms in auto)
  then show ?thesis by (simp only: insert_commute[of 0 c] max_def) auto
qed

lemma queue_stat_eq: "queue_stat now q ts = stat_of now q ts"
proof (induction ts rule: rev_induct)
  case Nil
  then show ?case by (simp add: queue_stat_def stat_of_def)
next
  case (snoc t ts)
  let ?c = "\<lambda>t. sint (t_Claims t)"
  have m: "Max (insert 0 (?c ` set (ts @ [t]))) = (if Max (insert 0 (?c ` set ts)) < ?c t then ?c t else Max (insert 0 (?c ` set ts)))"
    using Max_insert_zero[of "?c ` set ts" "?c t"] by simp
  have "queue_stat now q (ts @ [t]) = stat_task now t (stat_of now q ts)"
    using snoc by (simp add: queue_stat_def)
  also have "\<dots> = stat_of now q (ts @ [t])"
    unfolding stat_of_def m by (simp add: stat_task_def Let_def del: Max_less_iff Max_gr_iff)
  finally show ?case .
qed

lemma card_insert_filter:
  "finite ts \<Longrightarrow> t \<notin> ts \<Longrightarrow> card {x \<in> insert t ts. P x} = card {x \<in> ts. P x} + of_bool (P t)"
proof -
  assume ts: "finite ts" "t \<notin> ts"
  have "{x \<in> insert t ts. P x} = (if P t then insert t {x \<in> ts. P x} else {x \<in> ts. P x})" by auto
  with ts show ?thesis by simp
qed

lemma stats_loop_spec:
  assumes "distinct qs" "fst ` set out \<inter> set qs = {}" "gm_ok out"
  shows "\<exists>seen. set seen \<subseteq> {q \<in> set qs. matchesQuery q qq} \<and> distinct seen \<and>
    map_of (stats_loop qq stat qs out) = map_of out ++ (\<lambda>q. if q \<in> set seen then Some (stat q) else None) \<and>
    (mq_Limit qq \<le> 0 \<longrightarrow> set seen = {q \<in> set qs. matchesQuery q qq}) \<and>
    (0 < mq_Limit qq \<longrightarrow> int (length seen) = max 0 (min (mq_Limit qq - int (length out)) (int (card {q \<in> set qs. matchesQuery q qq}))))"
  using assms
proof (induction qs arbitrary: out)
  case (Cons q qs)
  have c: "card {x \<in> set (q # qs). matchesQuery x qq} = card {x \<in> set qs. matchesQuery x qq} + of_bool (matchesQuery q qq)"
    using card_insert_filter[of "set qs" q] Cons.prems(1) by simp
  consider "\<not> matchesQuery q qq" | "matchesQuery q qq" "0 < mq_Limit qq" "mq_Limit qq \<le> int (length out)" |
    "matchesQuery q qq" "\<not> (0 < mq_Limit qq \<and> mq_Limit qq \<le> int (length out))" by blast
  then show ?case
  proof cases
    case 1
    with Cons.IH[of out] Cons.prems c show ?thesis
      by (auto simp: image_iff Collect_conj_eq intro!: exI elim!: ex_forward)
  next
    case 2
    then show ?thesis by (intro exI[of _ "[]"]) (simp add: map_add_def)
  next
    case 3
    have len: "length (gm_set q (stat q) out) = Suc (length out)"
    proof -
      have "map_of out q = None" using Cons.prems(2) by (auto simp: map_of_eq_None_iff)
      then show ?thesis by (simp add: length_gm_set)
    qed
    have "fst ` set (gm_set q (stat q) out) = insert q (fst ` set out)"
      using dom_map_of_conv_image_fst[of "gm_set q (stat q) out"] dom_map_of_conv_image_fst[of out] by simp
    then have pre: "distinct qs" "fst ` set (gm_set q (stat q) out) \<inter> set qs = {}" "gm_ok (gm_set q (stat q) out)"
      using Cons.prems by auto
    obtain seen where seen: "set seen \<subseteq> {x \<in> set qs. matchesQuery x qq}" "distinct seen"
      "map_of (stats_loop qq stat qs (gm_set q (stat q) out)) =
        map_of (gm_set q (stat q) out) ++ (\<lambda>q. if q \<in> set seen then Some (stat q) else None)"
      "mq_Limit qq \<le> 0 \<longrightarrow> set seen = {q \<in> set qs. matchesQuery q qq}"
      "0 < mq_Limit qq \<longrightarrow> int (length seen) = max 0 (min (mq_Limit qq - int (Suc (length out))) (int (card {q \<in> set qs. matchesQuery q qq})))"
      using Cons.IH[OF pre] unfolding len by blast
    have "map_of (stats_loop qq stat (q # qs) out) = map_of out ++ (\<lambda>x. if x \<in> set (q # seen) then Some (stat x) else None)"
      using 3 seen(1,3) Cons.prems(1) by (auto simp: map_add_def fun_eq_iff split: option.splits)
    then show ?thesis
      using 3 seen Cons.prems(1) c by (intro exI[of _ "q # seen"]) auto
  qed
qed (auto intro!: exI[of _ "[]"] simp: map_add_def)

section \<open>Docs\<close>

lemma collect_eq:
  "collect limit f ds found = found @ map f (if 0 < limit then take (nat (limit - int (length found))) ds else ds)"
proof (induction ds arbitrary: found)
  case (Cons d ds)
  have "nat (limit - int (length found)) = Suc (nat (limit - (int (length found) + 1)))" if "\<not> limit \<le> int (length found)"
    using that by simp
  with Cons show ?case by (auto simp: add.commute[of 1])
qed simp

definition in_range :: "DocQuery \<Rightarrow> Doc \<Rightarrow> bool" where
  "in_range rq d = (if dq_KeyExact rq \<noteq> [] then d_Key d = dq_KeyExact rq
     else dq_KeyStart rq \<le> d_Key d \<and> (dq_KeyEnd rq \<noteq> [] \<longrightarrow> d_Key d < dq_KeyEnd rq))"

lemma map_filter_entryFor: "List.map_filter dk_Doc (map entryFor ds) = ds"
  by (induction ds) (simp_all add: map_filter_simps)

lemma pivot_less:
  "\<not> docKeyLess (entryFor d) (pivot key) \<longleftrightarrow> key \<le> d_Key d" "docKeyLess (entryFor d) (pivot key) \<longleftrightarrow> d_Key d < key"
  by (auto simp: docKeyLess_def pivot_def not_less)

lemma scan_eq:
  assumes "trees_ok T okd okl" "dn_ok T okd okl nss"
  shows "List.map_filter dk_Doc (scan T rq (dn_byKey nss)) = filter (in_range rq) (docs_list T nss)"
proof -
  have bt: "btree_ok docKeyLess (tr_docs T) okd" and ok: "okd (dn_byKey nss)" using assms by (simp_all add: trees_ok_def dn_ok_def)
  note d = docs_list_ok[OF assms]
  have ge: "bt_AscendGreaterOrEqual (tr_docs T) (pivot key) (dn_byKey nss) = map entryFor (filter (\<lambda>d. key \<le> d_Key d) (docs_list T nss))" for key
    using btree_okD(10)[OF bt ok] by (simp add: d(1) filter_map comp_def pivot_less not_less)
  have rg: "bt_AscendRange (tr_docs T) (pivot a) (pivot b) (dn_byKey nss) = map entryFor (filter (\<lambda>d. a \<le> d_Key d \<and> d_Key d < b) (docs_list T nss))" for a b
    using btree_okD(11)[OF bt ok] by (simp add: d(1) filter_map comp_def pivot_less not_less)
  have "sorted_wrt (\<lambda>a b. d_Key a \<le> d_Key b) (docs_list T nss)"
    using d(3) by (rule sorted_wrt_mono_rel[rotated]) (auto simp: docKeyLess_def split: if_splits)
  from takeWhile_sorted[OF this] have ex: "takeWhile (\<lambda>d. d_Key d = key) (filter (\<lambda>d. key \<le> d_Key d) (docs_list T nss)) =
    filter (\<lambda>d. d_Key d = key) (docs_list T nss)" for key .
  show ?thesis
    unfolding scan_def ge rg d(1) takeWhile_map comp_def entryFor_sel
    by (simp add: map_filter_entryFor ex in_range_def[abs_def] split del: if_split) (simp add: in_range_def[abs_def] map_filter_entryFor ex)
qed

section \<open>Listing a queue\<close>

lemma wanted_queue: "tq_Queue tq \<noteq> [] \<Longrightarrow> wanted tq now t \<Longrightarrow> t_Queue t = tq_Queue tq"
  by (auto simp: wanted_def)

lemma no_queue_no_tasks:
  assumes "wf_mem s" "map_of (em_queues s) q = None" "store s i = Some t"
  shows "t_Queue t \<noteq> q"
proof -
  have "tasks_at s q i = None" using assms(2) by (simp add: tasks_at_def)
  then have "at_queue (store s) q i = None" using wf_mem_work(1)[OF assms(1)] by simp
  with assms(3) show ?thesis by (auto simp: at_queue_def)
qed

lemma Tasks_of_queue:
  assumes "wf_mem s" "permutes_entries ord" "tq_Queue tq \<noteq> []" "tq_IDs tq = []"
  shows "\<exists>all. distinct all \<and> set all = {t. store s (t_ID t) = Some t \<and> wanted tq now t} \<and>
    EQMem_Tasks ord now tq s = Inr (map (listed tq) (if tq_Limit tq = 0 then all else take (nat (tq_Limit tq)) all))"
proof (cases "map_of (em_queues s) (tq_Queue tq)")
  case None
  have "{t. store s (t_ID t) = Some t \<and> wanted tq now t} = {}"
    using no_queue_no_tasks[OF assms(1) None] wanted_queue[OF assms(3)] by blast
  moreover have "EQMem_Tasks ord now tq s = Inr []"
    using assms(3,4) None by (simp add: EQMem_Tasks_def TasksQuery_Validate_def queueTasks_def)
  ultimately show ?thesis by (intro exI[of _ "[]"]) simp
next
  case (Some ts)
  note r = range_of_queue[OF assms(1,2) Some]
  let ?all = "filter (wanted tq now) (ts_Range ord ts)"
  have "set ?all = {t. store s (t_ID t) = Some t \<and> wanted tq now t}"
    unfolding set_filter r(2) using wanted_queue[OF assms(3)] by blast
  moreover have "distinct ?all" using r(1) by simp
  moreover have "EQMem_Tasks ord now tq s = Inr (map (listed tq) (if tq_Limit tq = 0 then ?all else take (nat (tq_Limit tq)) ?all))"
    using assms(3,4) Some by (simp add: EQMem_Tasks_def TasksQuery_Validate_def queueTasks_def tasks_range_eq take_map)
  ultimately show ?thesis by blast
qed

section \<open>The queues there are\<close>

lemma queue_has_tasks:
  assumes "wf_mem s" "map_of (em_locks s) q = Some ql"
  shows "ql_queue ql = q" "\<exists>i t. store s i = Some t \<and> t_Queue t = q"
proof -
  have wq: "wf_queues s" "live s" "deps s q = 0" using assms(1) by (simp_all add: wf_mem_def lk_def)
  have "(map_of (em_queues s) q = None) = (map_of (em_locks s) q = None)" using wq(1) by (simp add: wf_queues_def)
  then obtain ts where ts: "map_of (em_queues s) q = Some ts" using assms(2) by auto
  with wq(1) assms(2) have "queue_ok q ts ql" by (simp add: wf_queues_def)
  then show "ql_queue ql = q" by (simp add: queue_ok_def)
  have "ql_dependents ql = 0" using assms(2) wq(3) by (simp add: deps_def)
  then have "tasks_at s q \<noteq> Map.empty" using wq(2) assms(2) by (simp add: live_def)
  then obtain i t where "tasks_at s q i = Some t" by (auto simp: fun_eq_iff)
  then show "\<exists>i t. store s i = Some t \<and> t_Queue t = q"
    using wf_mem_work(1)[OF assms(1)] by (auto simp: at_queue_def split: option.splits if_splits)
qed

lemma queue_names:
  assumes "wf_mem s" "permutes_entries ord"
  shows "distinct (map ql_queue (snapshotQueueLocks ord s))"
    "set (map ql_queue (snapshotQueueLocks ord s)) = {q. \<exists>i t. store s i = Some t \<and> t_Queue t = q}"
proof -
  have wq: "wf_queues s" using assms(1) by (simp add: wf_mem_def lk_def)
  then have gl: "gm_ok (em_locks s)" by (simp add: wf_queues_def)
  have "ql_queue (snd x) = fst x" if "x \<in> set (em_locks s)" for x
    using that queue_has_tasks(1)[OF assms(1), of "fst x" "snd x"] gm_ok_mem[OF gl, of "fst x" "snd x"] by simp
  then have names: "map ql_queue (snapshotQueueLocks ord s) = map fst (ord (em_locks s))"
    by (simp add: snapshotQueueLocks_def permutes_set(1)[OF assms(2)])
  show "distinct (map ql_queue (snapshotQueueLocks ord s))"
    unfolding names using gl by (simp add: gm_ok_def permutes_set(4)[OF assms(2)])
  have "q \<in> set (map fst (ord (em_locks s))) \<longleftrightarrow> map_of (em_locks s) q \<noteq> None" for q
    by (simp add: permutes_set(1)[OF assms(2)] map_of_eq_None_iff)
  moreover have "map_of (em_locks s) q \<noteq> None" if "store s i = Some t" "t_Queue t = q" for q i t
    using no_queue_no_tasks[OF assms(1) _ that(1), of q] that(2) wq by (auto simp: wf_queues_def)
  ultimately show "set (map ql_queue (snapshotQueueLocks ord s)) = {q. \<exists>i t. store s i = Some t \<and> t_Queue t = q}"
    unfolding names using queue_has_tasks(2)[OF assms(1)] by blast
qed

lemma stat_of_sum: "qs_Available (stat_of now q ts) + qs_Claimed (stat_of now q ts) + qs_Future (stat_of now q ts) = qs_Size (stat_of now q ts)"
  by (induction ts) (auto simp: stat_of_def)

section \<open>Reading one namespace\<close>

text \<open>A doc comes before another in the order of primary key, secondary key and ID.\<close>

definition doc_before :: "Doc \<Rightarrow> Doc \<Rightarrow> bool" where
  "doc_before a b \<longleftrightarrow> docKeyLess (entryFor a) (entryFor b)"

definition docs_listed :: "('dt, 'lt) trees \<Rightarrow> DocQuery \<Rightarrow> ('dt, 'lt) EQMem \<Rightarrow> Doc list \<Rightarrow> bool" where
  "docs_listed T rq s ds \<longleftrightarrow>
     (let out = (\<lambda>d. doc_result_of (dq_OmitValues rq) d (lock_of T s (set_of_doc d))) in
      if dq_IDs rq \<noteq> []
      then ds = List.map_filter (\<lambda>i. map_option out (doc_store s (dq_Namespace rq, i))) (dq_IDs rq)
      else \<exists>all. sorted_wrt doc_before all \<and>
        set all = {d. doc_store s (dq_Namespace rq, d_ID d) = Some d \<and> in_range rq d} \<and>
        ds = map out (if 0 < dq_Limit rq then take (nat (dq_Limit rq)) all else all))"

lemma docs_read_listed:
  assumes "trees_ok T okd okl" "nk T okd okl s" "map_of (em_namespaces s) (dq_Namespace rq) = Some nss"
  shows "docs_listed T rq s (docs_read T rq nss)"
proof -
  let ?n = "dq_Namespace rq"
  have ok: "dn_ok T okd okl nss" "dn_name nss = ?n" using assms(2,3) by (auto simp: nk_def ns_ok_def)
  have at: "doc_store s (?n, i) = map_of (dn_byID nss) i" for i using assms(3) by (simp add: doc_store_def docs_at_def)
  have td: "d_ID d = i \<and> d_Namespace d = ?n" if "map_of (dn_byID nss) i = Some d" for i d using ok that by (simp add: dn_ok_def)
  have lk: "dn_Lock T (d_Key d) nss = lock_of T s (set_of_doc d)" if "map_of (dn_byID nss) i = Some d" for i d
    using td[OF that] assms(3) by (simp add: lock_of_def set_of_doc_def)
  note dl = docs_list_ok[OF assms(1) ok(1)]
  let ?all = "filter (in_range rq) (docs_list T nss)"
  have sorted: "sorted_wrt doc_before ?all" using dl(3) by (simp add: sorted_wrt_filter doc_before_def[abs_def])
  have all: "set ?all = {d. doc_store s (?n, d_ID d) = Some d \<and> in_range rq d}"
    unfolding set_filter dl(2) at using td by (auto simp: ran_def)
  have "lockIn T (dn_locks nss) (d_Key d) = lock_of T s (set_of_doc d)" if "d \<in> set ?all" for d
    using that lk unfolding set_filter dl(2) by (auto simp: ran_def dn_Lock_def)
  then have range: "map (\<lambda>d. doc_result_of om d (lockIn T (dn_locks nss) (d_Key d))) (if b then take k ?all else ?all) =
      map (\<lambda>d. doc_result_of om d (lock_of T s (set_of_doc d))) (if b then take k ?all else ?all)" for om b k
    by (auto dest!: in_set_takeD)
  have ids: "(\<lambda>i. map_option (\<lambda>d. doc_result_of om d (dn_Lock T (d_Key d) nss)) (map_of (dn_byID nss) i)) =
      (\<lambda>i. map_option (\<lambda>d. doc_result_of om d (lock_of T s (set_of_doc d))) (map_of (dn_byID nss) i))" for om
  proof
    fix i show "map_option (\<lambda>d. doc_result_of om d (dn_Lock T (d_Key d) nss)) (map_of (dn_byID nss) i) =
      map_option (\<lambda>d. doc_result_of om d (lock_of T s (set_of_doc d))) (map_of (dn_byID nss) i)"
      using lk[of i] by (cases "map_of (dn_byID nss) i") simp_all
  qed
  show ?thesis
  proof (cases "dq_IDs rq = []")
    case True
    have "docs_read T rq nss = map (\<lambda>d. doc_result_of (dq_OmitValues rq) d (lock_of T s (set_of_doc d)))
        (if 0 < dq_Limit rq then take (nat (dq_Limit rq)) ?all else ?all)"
      using True by (simp add: docs_read_def dn_snapshot_def scan_eq[OF assms(1) ok(1)] collect_eq range[symmetric])
    with True sorted all show ?thesis unfolding docs_listed_def Let_def by auto
  next
    case False
    then show ?thesis by (simp add: docs_listed_def docs_read_def dn_Get_def ids at)
  qed
qed

section \<open>Counting wakeups\<close>

lemma count_replicates:
  "x \<in> set xs \<Longrightarrow> g x = q \<Longrightarrow> distinct (map g xs) \<Longrightarrow> count_list (concat (map (\<lambda>x. replicate (f x) (g x)) xs)) q = f x"
  "q \<notin> g ` set xs \<Longrightarrow> count_list (concat (map (\<lambda>x. replicate (f x) (g x)) xs)) q = 0"
proof -
  have r: "count_list (replicate n y) q = (if y = q then n else 0)" for n y by (induction n) auto
  show z: "q \<notin> g ` set xs \<Longrightarrow> count_list (concat (map (\<lambda>x. replicate (f x) (g x)) xs)) q = 0" for xs
    by (induction xs) (auto simp: r)
  show "x \<in> set xs \<Longrightarrow> g x = q \<Longrightarrow> distinct (map g xs) \<Longrightarrow> count_list (concat (map (\<lambda>x. replicate (f x) (g x)) xs)) q = f x"
  proof (induction xs)
    case (Cons y ys)
    then show ?case using z[of ys] by (cases "x = y") (auto simp: r)
  qed simp
qed

text \<open>The waiters of a queue that may be woken, and the tasks that have arrived in it.\<close>

definition waiters :: "(string, int) gomap option \<Rightarrow> string \<Rightarrow> int" where
  "waiters listeners q = (case listeners of None \<Rightarrow> 1 | Some ls \<Rightarrow> case map_of ls q of Some n \<Rightarrow> n | None \<Rightarrow> 0)"

definition arrived_in :: "(string \<rightharpoonup> Task) \<Rightarrow> string \<Rightarrow> time \<Rightarrow> string set" where
  "arrived_in S q now = {i. \<exists>t. S i = Some t \<and> t_Queue t = q \<and> t_At t \<le> now}"

lemma lock_count:
  assumes "wf_mem s" "map_of (em_locks s) q = Some ql"
  shows "CountAvailable (ql_heap ql) now limit = max 0 (min limit (int (card (arrived_in (store s) q now))))"
proof -
  have wq: "wf_queues s" using assms(1) by (simp add: wf_mem_def lk_def)
  then have "(map_of (em_queues s) q = None) = (map_of (em_locks s) q = None)" by (simp add: wf_queues_def)
  then obtain ts where ts: "map_of (em_queues s) q = Some ts" using assms(2) by auto
  with wq assms(2) have ok: "queue_ok q ts ql" by (simp add: wf_queues_def)
  have "tasks_at s q = at_queue (store s) q" using wf_mem_work(1)[OF assms(1)] by simp
  then have at: "map_of (ts_byID ts) i = Some t \<longleftrightarrow> store s i = Some t \<and> t_Queue t = q" for i t
    using ts by (simp add: tasks_at_def at_queue_def fun_eq_iff split: option.splits) blast
  have "ch_view (ql_heap ql) = (\<lambda>i. map_option t_At (map_of (ts_byID ts) i))" using ok by (simp add: queue_ok_def)
  then have "arrived (ch_view (ql_heap ql)) now = arrived_in (store s) q now"
    by (auto simp: arrived_def arrived_in_def at)
  moreover have "wf_ch (ql_heap ql)" using ok by (simp add: queue_ok_def)
  ultimately show ?thesis using heap_index.available_eq[of "ql_heap ql" now limit] by simp
qed

section \<open>Properties of the reads\<close>


lemma distinct_singleton: "distinct xs \<Longrightarrow> set xs = {x} \<Longrightarrow> xs = [x]"
  by (cases xs; cases "tl xs") auto

lemma permutes_id: "permutes_entries (\<lambda>xs. xs)"
  by (simp add: permutes_entries_def)

definition ex_tasks_query :: TasksQuery where
  "ex_tasks_query = tasks_query ''q'' ''me'' [LimitTasks 5]"


text \<open>
  C26: QueueStats reports only queues that match the query and have tasks; without a positive
  limit all of them, else as many as the limit allows. A queue's statistics are those of exactly
  its stored tasks, and every task is counted as available, claimed or future, once.
\<close>

theorem QueueStats_spec:
  assumes "wf_mem s" "permutes_entries ord" "permutes_entries ordt"
  shows "case QueueStats ord ordt now qq s of
      Inl e \<Rightarrow> False
    | Inr out \<Rightarrow>
        (\<forall>q st. map_of out q = Some st \<longrightarrow> matchesQuery q qq \<and> qs_Available st + qs_Claimed st + qs_Future st = qs_Size st \<and>
          (\<exists>ts. ts \<noteq> [] \<and> distinct ts \<and> set ts = {t. store s (t_ID t) = Some t \<and> t_Queue t = q} \<and> st = stat_of now q ts)) \<and>
        (let all = {q. matchesQuery q qq \<and> (\<exists>i t. store s i = Some t \<and> t_Queue t = q)} in
         if 0 < mq_Limit qq then int (card (dom (map_of out))) = min (mq_Limit qq) (int (card all))
         else dom (map_of out) = all)"
proof -
  let ?names = "map ql_queue (snapshotQueueLocks ord s)"
  let ?stat = "\<lambda>q. queue_stat now q (case map_of (em_queues s) q of Some ts \<Rightarrow> ts_Range ordt ts | None \<Rightarrow> [])"
  let ?all = "{q. matchesQuery q qq \<and> (\<exists>i t. store s i = Some t \<and> t_Queue t = q)}"
  note names = queue_names[OF assms(1,2)]
  have all: "{q \<in> set ?names. matchesQuery q qq} = ?all" unfolding names(2) by blast
  from stats_loop_spec[OF names(1), of "[]" qq ?stat] obtain seen where seen: "set seen \<subseteq> ?all" "distinct seen"
    "map_of (stats_loop qq ?stat ?names []) = (\<lambda>q. if q \<in> set seen then Some (?stat q) else None)"
    "mq_Limit qq \<le> 0 \<longrightarrow> set seen = ?all" "0 < mq_Limit qq \<longrightarrow> int (length seen) = max 0 (min (mq_Limit qq) (int (card ?all)))"
    unfolding all by (auto simp: map_add_def)
  have st: "\<exists>ts. ts \<noteq> [] \<and> distinct ts \<and> set ts = {t. store s (t_ID t) = Some t \<and> t_Queue t = q} \<and> ?stat q = stat_of now q ts"
    if "q \<in> set seen" for q
  proof -
    from that seen(1) obtain i t where t: "store s i = Some t" "t_Queue t = q" by blast
    then obtain ts where ts: "map_of (em_queues s) q = Some ts" using no_queue_no_tasks[OF assms(1) _ t(1)] by (cases "map_of (em_queues s) q") auto
    have "t_ID t = i" using typed_store[OF assms(1)] t(1) by (simp add: typed_def)
    then have "ts_Range ordt ts \<noteq> []" using range_of_queue(2)[OF assms(1,3) ts] t by auto
    with range_of_queue[OF assms(1,3) ts] ts show ?thesis by (intro exI[of _ "ts_Range ordt ts"]) (simp add: queue_stat_eq)
  qed
  have "dom (map_of (stats_loop qq ?stat ?names [])) = set seen" unfolding seen(3) by (auto simp: dom_def)
  then have "if 0 < mq_Limit qq then int (card (dom (map_of (stats_loop qq ?stat ?names [])))) = min (mq_Limit qq) (int (card ?all))
      else dom (map_of (stats_loop qq ?stat ?names [])) = ?all"
    using seen(2,4,5) distinct_card[of seen] by auto
  moreover have "matchesQuery q qq \<and> qs_Available st + qs_Claimed st + qs_Future st = qs_Size st \<and>
      (\<exists>ts. ts \<noteq> [] \<and> distinct ts \<and> set ts = {t. store s (t_ID t) = Some t \<and> t_Queue t = q} \<and> st = stat_of now q ts)"
    if q: "map_of (stats_loop qq ?stat ?names []) q = Some st" for q st
  proof -
    have "q \<in> set seen" "st = ?stat q" using q unfolding seen(3) by (auto split: if_splits)
    with st[of q] seen(1) show ?thesis using stat_of_sum by auto
  qed
  ultimately show ?thesis unfolding QueueStats_def sum.case Let_def by blast
qed

theorem QueueStats_spec_witness:
  "case QueueStats (\<lambda>xs. xs) (\<lambda>xs. xs) 6 (newMatchQuery []) ex_mem of Inl e \<Rightarrow> False | Inr out \<Rightarrow> dom (map_of out) = {''q''}"
proof -
  have "mq_Limit (newMatchQuery []) = 0" "matchesQuery q (newMatchQuery [])" for q
    by (simp_all add: newMatchQuery_def matchesQuery_def)
  then show ?thesis
    using QueueStats_spec[OF ex_mem_ok(1) permutes_id permutes_id, where now = 6 and qq = "newMatchQuery []"]
    by (simp add: ex_mem_ok(2) QueueStats_def) (auto simp: ex_claimable_def)
qed


definition ex_doc_query :: DocQuery where
  "ex_doc_query = \<lparr>dq_Namespace = ''ns'', dq_IDs = [], dq_KeyExact = ''k'', dq_KeyStart = [], dq_KeyEnd = [], dq_Limit = 0, dq_OmitValues = True\<rparr>"


text \<open>
  C28: the readiness check notifies each queue once per task that has arrived in it, up to the number
  of its waiters (one when waiters cannot be counted), and no other queue.
\<close>

theorem notifyReadyQueues_spec:
  assumes "wf_mem s" "permutes_entries ord"
  shows "count_list (notifyReadyQueues ord listeners now s) q =
    nat (min (waiters listeners q) (int (card (arrived_in (store s) q now))))"
proof -
  let ?ls = "snapshotQueueLocks ord s"
  let ?f = "\<lambda>ql. nat (CountAvailable (ql_heap ql) now (waiters listeners (ql_queue ql)))"
  note names = queue_names[OF assms]
  have in_locks: "ql \<in> set ?ls \<longleftrightarrow> map_of (em_locks s) (ql_queue ql) = Some ql" for ql
  proof -
    have gl: "gm_ok (em_locks s)" using assms(1) by (simp add: wf_mem_def lk_def wf_queues_def)
    have "ql \<in> set ?ls \<longleftrightarrow> (\<exists>n. map_of (em_locks s) n = Some ql)"
      using gm_ok_mem[OF gl] permutes_set(1)[OF assms(2), of "em_locks s"] by (force simp: snapshotQueueLocks_def)
    then show ?thesis using queue_has_tasks(1)[OF assms(1)] by metis
  qed
  have "CountAvailable (ql_heap ql) now 0 = 0" if "ql \<in> set ?ls" for ql
    using lock_count[OF assms(1), of "ql_queue ql" ql now 0] that in_locks by simp
  then have n: "notifyReadyQueues ord listeners now s = concat (map (\<lambda>ql. replicate (?f ql) (ql_queue ql)) ?ls)"
    by (auto simp: notifyReadyQueues_def waiters_def Let_def concat_eq_Nil_conv intro!: arg_cong[where f = concat] split: option.splits)
  show ?thesis
  proof (cases "\<exists>ql \<in> set ?ls. ql_queue ql = q")
    case True
    then obtain ql where ql: "ql \<in> set ?ls" "ql_queue ql = q" by blast
    have "count_list (notifyReadyQueues ord listeners now s) q = ?f ql"
      unfolding n by (rule count_replicates(1)[OF ql names(1)])
    then show ?thesis using lock_count[OF assms(1)] in_locks[of ql] ql by simp
  next
    case False
    then have "q \<notin> ql_queue ` set ?ls" by blast
    then have "count_list (notifyReadyQueues ord listeners now s) q = 0" unfolding n by (rule count_replicates(2))
    moreover have "q \<notin> set (map ql_queue ?ls)" using False by auto
    then have "arrived_in (store s) q now = {}" unfolding names(2) by (auto simp: arrived_in_def)
    ultimately show ?thesis by simp
  qed
qed

theorem notifyReadyQueues_spec_witness:
  "count_list (notifyReadyQueues (\<lambda>xs. xs) (Some [(''q'', 3)]) 6 ex_mem) ''q'' = 1"
proof -
  have "arrived_in [''a'' \<mapsto> ex_claimable] ''q'' 6 = {''a''}"
    by (auto simp: arrived_in_def ex_claimable_def zero_Task_def split: if_splits)
  then show ?thesis
    using notifyReadyQueues_spec[OF ex_mem_ok(1) permutes_id, of "Some [(''q'', 3)]" 6 "''q''"]
    by (simp add: ex_mem_ok(2) waiters_def)
qed

end
