(* ===== verification/EQMemDocs.thy ===== *)
theory EQMemDocs
  imports EQMemDocCommit
begin

text \<open>
  Claims of doc sets and their locks in the in-memory backend: ClaimDocs of docs.go, and of
  doclocks.go the collection of locks nobody needs and the restoring of journaled locks.
\<close>

section \<open>Claiming sets\<close>

definition claim_names :: "DSet list \<Rightarrow> string list" where
  "claim_names sets = fold (\<lambda>g names. if g_Namespace g \<in> set names then names else names @ [g_Namespace g]) sets []"

text \<open>How long the claim holds: its duration from now, or until the task it names arrives.\<close>

definition claim_until :: "time \<Rightarrow> DocClaim \<Rightarrow> ('dt, 'lt) EQMem \<Rightarrow> goerror + time" where
  "claim_until now cq s =
     (case dc_TaskToMatch cq of
        None \<Rightarrow> Inr (now + dc_Duration cq)
      | Some i \<Rightarrow>
          (case map_of (em_queues s) (tid_Queue i) of
             None \<Rightarrow> Inl (MissingTaskErrorf i)
           | Some tq \<Rightarrow>
               (case ts_Get (tid_ID i) tq of
                  None \<Rightarrow> Inl (MissingTaskErrorf i)
                | Some t \<Rightarrow> if t_Version t \<noteq> tid_Version i then Inl (MissingTaskErrorf i) else Inr (t_At t))))"

definition members_of :: "('dt, 'lt) trees \<Rightarrow> ('dt, 'lt) EQMem \<Rightarrow> DSet \<Rightarrow> goerror + Doc list" where
  "members_of T s g = (case map_of (em_namespaces s) (g_Namespace g) of
     Some nss \<Rightarrow> Inr (Members T (g_Key g) nss) | None \<Rightarrow> Inl (Panic ''nil namespace''))"

definition journalLocks :: "(DSet, Lock) gomap \<Rightarrow> ('dt, 'lt) EQMem \<Rightarrow> ('dt, 'lt) EQMem" where
  "journalLocks locks s = appendJournal None (journalLocksOf locks) s"

definition set_locks :: "('dt, 'lt) trees \<Rightarrow> string list \<Rightarrow> (DSet \<times> Lock) list \<Rightarrow> ('dt, 'lt) EQMem \<Rightarrow> goerror + ('dt, 'lt) EQMem" where
  "set_locks T byNS gls s = foldE (\<lambda>(g, l). with_namespace byNS (g_Namespace g) (SetLock T (g_Key g) l)) gls s"

text \<open>What runs while the namespaces are locked. The state is returned with an error too.\<close>

definition claimDocsBody :: "('dt, 'lt) trees \<Rightarrow> string list \<Rightarrow> time \<Rightarrow> time \<Rightarrow> DocClaim \<Rightarrow> ('dt, 'lt) EQMem \<Rightarrow>
    ('dt, 'lt) EQMem \<times> (goerror + DocSet list)" where
  "claimDocsBody T byNS now until cq s =
     (case ClaimAll cq now until (lock_of T s) (members_of T s) of
        Inl e \<Rightarrow> (s, Inl e)
      | Inr claimed \<Rightarrow>
          (case set_locks T byNS (zip (SetsOf cq) claimed) s of
             Inl e \<Rightarrow> (s, Inl e)
           | Inr s' \<Rightarrow>
               let s' = journalLocks (fold (\<lambda>(g, l). gm_set g l) (zip (SetsOf cq) claimed) []) s'
               in (s', ClaimedSets cq claimed (members_of T s'))))"

definition claimDocsLocked :: "('dt, 'lt) trees \<Rightarrow> time \<Rightarrow> time \<Rightarrow> DocClaim \<Rightarrow> ('dt, 'lt) EQMem \<Rightarrow>
    ('dt, 'lt) EQMem \<times> (goerror + DocSet list)" where
  "claimDocsLocked T now until cq s =
     (case lockNamespaces T (claim_names (SetsOf cq)) s of
        Inl e \<Rightarrow> (s, Inl e)
      | Inr (nls, s1) \<Rightarrow>
          (case claimDocsBody T nls now until cq s1 of (s2, r) \<Rightarrow> (unlockNamespaces T nls s2, r)))"

definition ClaimDocs :: "('dt, 'lt) trees \<Rightarrow> time \<Rightarrow> DocClaim \<Rightarrow> ('dt, 'lt) EQMem \<Rightarrow>
    ('dt, 'lt) EQMem \<times> (goerror + DocSet list)" where
  "ClaimDocs T now cq s =
     (case validate_DocClaim cq of
        Some e \<Rightarrow> (s, Inl e)
      | None \<Rightarrow>
          (case claim_until now cq s of
             Inl e \<Rightarrow> (s, Inl e)
           | Inr until \<Rightarrow> claimDocsLocked T now until cq s))"

section \<open>Collecting locks\<close>

text \<open>The entries of the locks to remove, as many as there is room for.\<close>

fun empty_locks :: "('dt, 'lt) trees \<Rightarrow> time \<Rightarrow> int \<Rightarrow> ('dt, 'lt) docNamespace \<Rightarrow> lockEntry list \<Rightarrow> lockEntry list \<Rightarrow> lockEntry list" where
  "empty_locks T now room nss [] found = found"
| "empty_locks T now room nss (e # es) found =
     (if int (length found) \<ge> room then found
      else empty_locks T now room nss es
        (if \<not> Held (le_Lock e) now \<and> Members T (le_Key e) nss = [] then found @ [e] else found))"

definition collect_namespace :: "('dt, 'lt) trees \<Rightarrow> time \<Rightarrow> int \<Rightarrow> string \<Rightarrow> (DSet, Lock) gomap \<times> ('dt, 'lt) EQMem \<Rightarrow>
    goerror + (DSet, Lock) gomap \<times> ('dt, 'lt) EQMem" where
  "collect_namespace T now batch name = (\<lambda>(collected, s).
     sbind (lockNamespaces T [name] s) (\<lambda>(nls, s).
     case map_of (em_namespaces s) name of
       None \<Rightarrow> Inl (Panic ''nil namespace lock'')
     | Some nss \<Rightarrow>
         let es = empty_locks T now (batch - int (length collected)) nss (bt_Ascend (tr_locks T) (dn_locks nss)) [];
             collected = fold (\<lambda>e. gm_set \<lparr>g_Namespace = name, g_Key = le_Key e\<rparr> (le_Lock e)) es collected
         in sbind (foldE (\<lambda>e. with_namespace nls name (DeleteLock T (le_Key e))) es s) (\<lambda>s.
            Inr (collected, unlockNamespaces T nls s))))"

text \<open>\<open>canceled name\<close> says whether the context is done when the loop reaches the namespace.\<close>

fun collect_namespaces :: "('dt, 'lt) trees \<Rightarrow> time \<Rightarrow> int \<Rightarrow> (string \<Rightarrow> bool) \<Rightarrow> string list \<Rightarrow>
    (DSet, Lock) gomap \<times> ('dt, 'lt) EQMem \<Rightarrow> goerror + (DSet, Lock) gomap \<times> ('dt, 'lt) EQMem" where
  "collect_namespaces T now batch canceled [] cs = Inr cs"
| "collect_namespaces T now batch canceled (n # ns) cs =
     (if int (length (fst cs)) \<ge> batch \<or> canceled n then Inr cs
      else sbind (collect_namespace T now batch n cs) (collect_namespaces T now batch canceled ns))"

definition journal_collected :: "(DSet, Lock) gomap \<Rightarrow> ('dt, 'lt) EQMem \<Rightarrow> ('dt, 'lt) EQMem" where
  "journal_collected collected s =
     (if collected = [] then s
      else appendJournal None (map (\<lambda>j. j\<lparr>jl_Deleted := True\<rparr>) (journalLocksOf collected)) s)"

definition collectLocksOnce :: "('dt, 'lt) trees \<Rightarrow> (string list \<Rightarrow> string list) \<Rightarrow> time \<Rightarrow> int \<Rightarrow> (string \<Rightarrow> bool) \<Rightarrow>
    ('dt, 'lt) EQMem \<Rightarrow> goerror + int \<times> ('dt, 'lt) EQMem" where
  "collectLocksOnce T ord now batch canceled s =
     sbind (collect_namespaces T now batch canceled (ord (map fst (em_namespaces s))) ([], s)) (\<lambda>(collected, s).
     Inr (int (length collected), journal_collected collected s))"

section \<open>Restoring locks\<close>

definition jl_lock :: "journalLock \<Rightarrow> Lock" where
  "jl_lock l = \<lparr>lk_Stored = True, lk_Version = jl_Version l, lk_Claimant = jl_Claimant l, lk_At = jl_At l, lk_NumDocs = 0\<rparr>"

definition restoreLock :: "('dt, 'lt) trees \<Rightarrow> journalLock \<Rightarrow> ('dt, 'lt) EQMem \<Rightarrow> goerror + ('dt, 'lt) EQMem" where
  "restoreLock T jl s =
     sbind (lockNamespaces T [jl_Namespace jl] s) (\<lambda>(nls, s).
     sbind (with_namespace nls (jl_Namespace jl)
              (if jl_Deleted jl then DeleteLock T (jl_Key jl) else SetLock T (jl_Key jl) (jl_lock jl)) s) (\<lambda>s.
     Inr (unlockNamespaces T nls s)))"

definition restoreLocks :: "('dt, 'lt) trees \<Rightarrow> journalLock list \<Rightarrow> ('dt, 'lt) EQMem \<Rightarrow> goerror + ('dt, 'lt) EQMem" where
  "restoreLocks T jls s = foldE (restoreLock T) jls s"

end
