(* ===== verification/EQMemDocFacts.thy ===== *)
theory EQMemDocFacts
  imports EQMemDocs
begin

text \<open>
  What claims of doc sets and the collection of their locks do: a claim takes all of its sets or
  none, and a lock is collected only when its set has no docs and nobody holds it. Both keep the
  invariant of the docs.
\<close>

section \<open>The docs of a set\<close>

text \<open>The docs of a set in the order of their secondary keys.\<close>

definition members_listed :: "(string \<times> string \<rightharpoonup> Doc) \<Rightarrow> DSet \<Rightarrow> Doc list \<Rightarrow> bool" where
  "members_listed D g ms \<longleftrightarrow> set ms = {d. \<exists>k. D k = Some d \<and> set_of_doc d = g} \<and>
     sorted_wrt (\<lambda>a b. docKeyLess (entryFor a) (entryFor b)) ms"

lemma Members_listed:
  assumes "trees_ok T okd okl" "nk T okd okl s" "map_of (em_namespaces s) (g_Namespace g) = Some nss"
  shows "members_listed (doc_store s) g (Members T (g_Key g) nss)"
proof -
  have ok: "dn_ok T okd okl nss" "dn_name nss = g_Namespace g" using assms(2,3) by (auto simp: nk_def ns_ok_def)
  note l = docs_list_ok[OF assms(1) ok(1)]
  have at: "docs_at s (g_Namespace g) = map_of (dn_byID nss)" using assms(3) by (simp add: docs_at_def)
  have nm: "map_of (dn_byID nss) i = Some d \<Longrightarrow> d_Namespace d = g_Namespace g" for i d using ok by (simp add: dn_ok_def)
  have other: "d_Namespace d = n" if "docs_at s n i = Some d" for n i d
    using that assms(2) by (auto simp: docs_at_def nk_def ns_ok_def dn_ok_def split: option.splits)
  have "set (Members T (g_Key g) nss) = {d \<in> ran (map_of (dn_byID nss)). d_Key d = g_Key g}"
    unfolding Members_eq[OF assms(1) ok(1)] l(2)[symmetric] by auto
  also have "\<dots> = {d. \<exists>k. doc_store s k = Some d \<and> set_of_doc d = g}"
  proof (intro set_eqI iffI; clarify)
    fix d assume "d \<in> ran (map_of (dn_byID nss))" "d_Key d = g_Key g"
    then obtain i where "map_of (dn_byID nss) i = Some d" by (auto simp: ran_def)
    then show "\<exists>k. doc_store s k = Some d \<and> set_of_doc d = g"
      using at nm \<open>d_Key d = g_Key g\<close> by (intro exI[of _ "(g_Namespace g, i)"]) (simp add: doc_store_def set_of_doc_def)
  next
    fix d n i assume "doc_store s (n, i) = Some d" "g = set_of_doc d"
    then show "d \<in> ran (map_of (dn_byID nss)) \<and> d_Key d = g_Key (set_of_doc d)"
      using at other[of n i d] by (auto simp: doc_store_def set_of_doc_def ran_def)
  qed
  finally show ?thesis
    using l(3) by (simp add: members_listed_def Members_eq[OF assms(1) ok(1)] sorted_wrt_filter)
qed

lemma dheld_namespace:
  assumes "dheld T okd okl byNS s" "n \<in> set byNS"
  obtains nss where "map_of (em_namespaces s) n = Some nss" "dn_ok T okd okl nss"
proof -
  have "ns_ok T okd okl s" "1 \<le> nsdeps s n" using assms by (auto simp: dheld_def nk_def)
  then show thesis using that by (cases rule: ns_ok_cases[of T okd okl s n]) (auto simp: nsdeps_def)
qed

lemma members_of_ok:
  assumes "trees_ok T okd okl" "dheld T okd okl byNS s" "g_Namespace g \<in> set byNS"
  shows "\<exists>ms. members_of T s g = Inr ms \<and> members_listed (doc_store s) g ms"
proof -
  obtain nss where "map_of (em_namespaces s) (g_Namespace g) = Some nss" by (rule dheld_namespace[OF assms(2,3)])
  with Members_listed[OF assms(1) _ this] assms(2) show ?thesis by (simp add: members_of_def dheld_def)
qed

section \<open>Claims\<close>

lemma claim_names_ok: "set (claim_names gs) = g_Namespace ` set gs" "distinct (claim_names gs)"
proof -
  have "set (fold (\<lambda>g names. if g_Namespace g \<in> set names then names else names @ [g_Namespace g]) gs ns) = set ns \<union> g_Namespace ` set gs \<and>
    (distinct ns \<longrightarrow> distinct (fold (\<lambda>g names. if g_Namespace g \<in> set names then names else names @ [g_Namespace g]) gs ns))" for ns
    by (induction gs arbitrary: ns) auto
  from this[of "[]"] show "set (claim_names gs) = g_Namespace ` set gs" "distinct (claim_names gs)"
    by (simp_all add: claim_names_def)
qed

lemma set_locks_ok:
  assumes T: "trees_ok T okd okl" and "doc_step T okd okl byNS s0 s" "g_Namespace ` set gs \<subseteq> set byNS"
  shows "\<exists>s'. set_locks T byNS (map (\<lambda>g. (g, f g)) gs) s = Inr s' \<and> doc_step T okd okl byNS s0 s' \<and>
    doc_store s' = doc_store s \<and> lock_of T s' = (\<lambda>g. if g \<in> set gs then f g else lock_of T s g)"
proof -
  let ?V = "\<lambda>s. (doc_store s, lock_of T s)"
  have 1: "\<exists>s'. set_locks T byNS (map (\<lambda>g. (g, f g)) gs) s = Inr s' \<and> doc_step T okd okl byNS s0 s' \<and>
    ?V s' = fold (\<lambda>(g, l) (D, L). (D, L(g := l))) (map (\<lambda>g. (g, f g)) gs) (?V s)"
    unfolding set_locks_def
    by (rule foldE_view[where P = "doc_step T okd okl byNS s0"]) (use set_lock_ok[OF T] assms(2,3) in fastforce)+
  have 2: "fold (\<lambda>(g, l) (D, L). (D, L(g := l))) (map (\<lambda>g. (g, f g)) gs) (D, L) = (D, \<lambda>g. if g \<in> set gs then f g else L g)" for D and L :: "DSet \<Rightarrow> Lock"
    by (induction gs arbitrary: L) (auto simp: fun_eq_iff)
  from 1 show ?thesis unfolding 2 prod.inject .
qed

text \<open>The same tasks, whatever was journaled.\<close>

definition same_queues :: "('dt, 'lt) EQMem \<Rightarrow> ('dt, 'lt) EQMem \<Rightarrow> bool" where
  "same_queues s s' \<longleftrightarrow> em_queues s' = em_queues s \<and> em_locks s' = em_locks s \<and> em_qByID s' = em_qByID s"

lemma same_queues_tasks: "same_tasks s s' \<Longrightarrow> same_queues s s'"
  by (simp add: same_tasks_def same_queues_def)

lemma same_queues_trans: "same_queues s s' \<Longrightarrow> same_queues s' s'' \<Longrightarrow> same_queues s s''"
  by (simp add: same_queues_def)

lemma same_queues_views: "same_queues s s' \<Longrightarrow> wf_mem s' = wf_mem s \<and> store s' = store s"
proof -
  assume a: "same_queues s s'"
  have t: "tasks_at s' = tasks_at s" "deps s' = deps s" using a by (simp_all add: same_queues_def tasks_at_def[abs_def] deps_def[abs_def])
  with a show ?thesis
    by (simp add: same_queues_def wf_mem_def lk_def wf_queues_def live_def qByID_ok_def named_def store_def fun_eq_iff split: option.splits)
qed

lemma appendJournal_same: "same_ns s (appendJournal mo jls s)" "same_queues s (appendJournal mo jls s)"
  "em_journal s' = em_journal s \<Longrightarrow> em_journal (appendJournal mo jls s') = em_journal (appendJournal mo jls s)"
  by (simp_all add: same_ns_def same_queues_def appendJournal_def split: option.splits)

text \<open>The result for a set: its lock, and its docs under that lock unless they are left out.\<close>

definition claimed_set :: "(string \<times> string \<rightharpoonup> Doc) \<Rightarrow> (DSet \<Rightarrow> Lock) \<Rightarrow> DocSetClaim \<Rightarrow> DocSet \<Rightarrow> bool" where
  "claimed_set D L c ds \<longleftrightarrow>
     (let g = \<lparr>g_Namespace = dsc_Namespace c, g_Key = dsc_Key c\<rparr> in
      if dsc_OmitMembers c then ds = Current g (L g)
      else \<exists>ms. members_listed D g ms \<and> ds = Claimed g (L g) ms)"

lemma claimed_sets_loop_ok:
  assumes "\<forall>c \<in> set cs. \<exists>ms. members \<lparr>g_Namespace = dsc_Namespace c, g_Key = dsc_Key c\<rparr> = Inr ms \<and>
    members_listed D \<lparr>g_Namespace = dsc_Namespace c, g_Key = dsc_Key c\<rparr> ms"
  shows "\<exists>sets. claimed_sets_loop members (map (\<lambda>c. let g = \<lparr>g_Namespace = dsc_Namespace c, g_Key = dsc_Key c\<rparr> in (c, g, L g)) cs) = Inr sets \<and>
    list_all2 (claimed_set D L) cs sets"
  using assms
proof (induction cs)
  case (Cons c cs)
  then obtain sets where "claimed_sets_loop members (map (\<lambda>c. let g = \<lparr>g_Namespace = dsc_Namespace c, g_Key = dsc_Key c\<rparr> in (c, g, L g)) cs) = Inr sets"
    "list_all2 (claimed_set D L) cs sets" by auto
  moreover obtain ms where "members \<lparr>g_Namespace = dsc_Namespace c, g_Key = dsc_Key c\<rparr> = Inr ms"
    "members_listed D \<lparr>g_Namespace = dsc_Namespace c, g_Key = dsc_Key c\<rparr> ms" using Cons.prems by auto
  moreover from this have "claimed_set D L c (if dsc_OmitMembers c then Current \<lparr>g_Namespace = dsc_Namespace c, g_Key = dsc_Key c\<rparr> (L \<lparr>g_Namespace = dsc_Namespace c, g_Key = dsc_Key c\<rparr>)
      else Claimed \<lparr>g_Namespace = dsc_Namespace c, g_Key = dsc_Key c\<rparr> (L \<lparr>g_Namespace = dsc_Namespace c, g_Key = dsc_Key c\<rparr>) ms)"
    by (auto simp: claimed_set_def Let_def)
  ultimately show ?case by (auto simp: Let_def)
qed simp

lemma ClaimedSets_ok:
  assumes "\<forall>g \<in> set (SetsOf cq). \<exists>ms. members g = Inr ms \<and> members_listed D g ms"
  shows "\<exists>sets. ClaimedSets cq (map L (SetsOf cq)) members = Inr sets \<and> list_all2 (claimed_set D L) (dc_Sets cq) sets"
proof -
  have "zip (dc_Sets cq) (zip (SetsOf cq) (map L (SetsOf cq))) =
      map (\<lambda>c. let g = \<lparr>g_Namespace = dsc_Namespace c, g_Key = dsc_Key c\<rparr> in (c, g, L g)) (dc_Sets cq)"
    by (simp add: SetsOf_def zip_map1 zip_map2 zip_same_conv_map comp_def Let_def)
  moreover from assms have "\<forall>c \<in> set (dc_Sets cq). \<exists>ms. members \<lparr>g_Namespace = dsc_Namespace c, g_Key = dsc_Key c\<rparr> = Inr ms \<and>
    members_listed D \<lparr>g_Namespace = dsc_Namespace c, g_Key = dsc_Key c\<rparr> ms" by (auto simp: SetsOf_def)
  ultimately show ?thesis unfolding ClaimedSets_def by (simp only: claimed_sets_loop_ok)
qed

text \<open>The locks after a claim: those of the sets claimed have moved on, the others have not.\<close>

definition claim_locks :: "DocClaim \<Rightarrow> time \<Rightarrow> (DSet \<Rightarrow> Lock) \<Rightarrow> DSet \<Rightarrow> Lock" where
  "claim_locks cq until L g = (if g \<in> set (SetsOf cq) then claimed_lock cq until (L g) else L g)"

definition claimable :: "DocClaim \<Rightarrow> time \<Rightarrow> time \<Rightarrow> (DSet \<Rightarrow> Lock) \<Rightarrow> bool" where
  "claimable cq now until L \<longleftrightarrow> now < until \<and> (\<forall>g \<in> set (SetsOf cq). \<not> HeldByOther (L g) (dc_Claimant cq) now)"

definition claim_written :: "DocClaim \<Rightarrow> time \<Rightarrow> (DSet \<Rightarrow> Lock) \<Rightarrow> (DSet, Lock) gomap" where
  "claim_written cq until L = fold (\<lambda>g. gm_set g (claimed_lock cq until (L g))) (SetsOf cq) []"

text \<open>What a claim that is granted leaves behind.\<close>

definition claim_made :: "('dt, 'lt) trees \<Rightarrow> DocClaim \<Rightarrow> time \<Rightarrow> ('dt, 'lt) EQMem \<Rightarrow> ('dt, 'lt) EQMem \<Rightarrow> DocSet list \<Rightarrow> bool" where
  "claim_made T cq until s s' sets \<longleftrightarrow> doc_store s' = doc_store s \<and> lock_of T s' = claim_locks cq until (lock_of T s) \<and>
     list_all2 (claimed_set (doc_store s) (lock_of T s')) (dc_Sets cq) sets \<and> same_queues s s' \<and>
     em_journal s' = em_journal (appendJournal None (journalLocksOf (claim_written cq until (lock_of T s))) s)"

lemma claimDocsBody_ok:
  assumes T: "trees_ok T okd okl" and h: "dheld T okd okl byNS s" and ns: "g_Namespace ` set (SetsOf cq) \<subseteq> set byNS"
  shows "if claimable cq now until (lock_of T s)
    then \<exists>s' sets. claimDocsBody T byNS now until cq s = (s', Inr sets) \<and> dheld T okd okl byNS s' \<and> nsdeps s' = nsdeps s \<and>
      claim_made T cq until s s' sets
    else \<exists>e. claimDocsBody T byNS now until cq s = (s, Inl e) \<and> (now < until \<longrightarrow> IsDependency e) \<and> (IsDependency e \<or> IsInvalidArgument e)"
proof -
  have m: "\<forall>g \<in> set (SetsOf cq). \<exists>ms. members_of T s' g = Inr ms \<and> members_listed (doc_store s') g ms" if "dheld T okd okl byNS s'" for s'
    using members_of_ok[OF T that] ns by blast
  then have m1: "\<forall>g \<in> set (SetsOf cq). \<exists>ms. members_of T s g = Inr ms" using h by blast
  note cl = ClaimAll_cases[OF m1, of now until "lock_of T s", folded claimable_def]
  show ?thesis
  proof (cases "claimable cq now until (lock_of T s)")
    case True
    let ?f = "\<lambda>g. claimed_lock cq until (lock_of T s g)"
    have step: "doc_step T okd okl byNS s s" using h by (simp add: doc_step_def)
    obtain s1 where s1: "set_locks T byNS (map (\<lambda>g. (g, ?f g)) (SetsOf cq)) s = Inr s1" "doc_step T okd okl byNS s s1"
      "doc_store s1 = doc_store s" "lock_of T s1 = (\<lambda>g. if g \<in> set (SetsOf cq) then ?f g else lock_of T s g)"
      using set_locks_ok[OF T step ns, of ?f] by blast
    have w: "fold (\<lambda>(g, l). gm_set g l) (map (\<lambda>g. (g, ?f g)) (SetsOf cq)) [] = claim_written cq until (lock_of T s)"
      by (simp add: claim_written_def fold_map comp_def)
    let ?s2 = "journalLocks (claim_written cq until (lock_of T s)) s1"
    have q: "same_ns s1 ?s2" "same_queues s1 ?s2" by (simp_all add: journalLocks_def appendJournal_same)
    note v = same_ns_views[OF q(1)]
    have st: "same_tasks s s1" using s1(2) by (simp add: doc_step_def)
    then have j: "em_journal ?s2 = em_journal (appendJournal None (journalLocksOf (claim_written cq until (lock_of T s))) s)"
      unfolding journalLocks_def by (intro appendJournal_same(3)) (simp add: same_tasks_def)
    have s2: "dheld T okd okl byNS ?s2" "nsdeps ?s2 = nsdeps s" "doc_store ?s2 = doc_store s" "lock_of T ?s2 = claim_locks cq until (lock_of T s)"
      "same_queues s ?s2"
      using s1 v same_queues_trans[OF same_queues_tasks[OF st] q(2)] by (simp_all add: doc_step_def claim_locks_def[abs_def])
    have cm: "map ?f (SetsOf cq) = map (lock_of T ?s2) (SetsOf cq)" by (simp add: s2(4) claim_locks_def)
    from ClaimedSets_ok[OF m[OF s2(1)], of "lock_of T ?s2"] obtain sets where
      "ClaimedSets cq (map ?f (SetsOf cq)) (members_of T ?s2) = Inr sets" "list_all2 (claimed_set (doc_store s) (lock_of T ?s2)) (dc_Sets cq) sets"
      unfolding cm s2(3) by blast
    moreover have "zip (SetsOf cq) (map ?f (SetsOf cq)) = map (\<lambda>g. (g, ?f g)) (SetsOf cq)" by (simp add: zip_map2 zip_same_conv_map)
    moreover have "ClaimAll cq now until (lock_of T s) (members_of T s) = Inr (map ?f (SetsOf cq))" using cl True by simp
    ultimately show ?thesis using True s1(1) s2 j w by (simp add: claimDocsBody_def claim_made_def)
  next
    case False
    with cl show ?thesis by (auto simp: claimDocsBody_def)
  qed
qed

lemma claim_until_store:
  assumes "wf_mem s"
  shows "claim_until now cq s = (case dc_TaskToMatch cq of None \<Rightarrow> Inr (now + dc_Duration cq)
    | Some i \<Rightarrow> (case store s (tid_ID i) of
        None \<Rightarrow> Inl (MissingTaskErrorf i)
      | Some t \<Rightarrow> if t_Queue t = tid_Queue i \<and> t_Version t = tid_Version i then Inr (t_At t) else Inl (MissingTaskErrorf i)))"
proof (cases "dc_TaskToMatch cq")
  case (Some i)
  have "tasks_at s (tid_Queue i) = at_queue (store s) (tid_Queue i)" using wf_mem_work(1)[OF assms] by simp
  from fun_cong[OF this, of "tid_ID i"] have "(case map_of (em_queues s) (tid_Queue i) of Some ts \<Rightarrow> ts_Get (tid_ID i) ts | None \<Rightarrow> None) =
      (case store s (tid_ID i) of Some t \<Rightarrow> if t_Queue t = tid_Queue i then Some t else None | None \<Rightarrow> None)"
    by (auto simp: tasks_at_def at_queue_def ts_Get_def split: option.splits)
  with Some show ?thesis by (auto simp: claim_until_def split: option.splits if_splits)
qed (simp add: claim_until_def)

text \<open>Locking namespaces, working on them and unlocking them again.\<close>

lemma unlock_docs:
  assumes T: "trees_ok T okd okl" and "nsdeps s0 = (\<lambda>_. 0)" "nsdeps s1 = (\<lambda>n. nsdeps s0 n + of_bool (n \<in> set ns))" "distinct ns"
    "dheld T okd okl ns s2" "nsdeps s2 = nsdeps s1"
  shows "nk T okd okl (unlockNamespaces T ns s2)" "nsdeps (unlockNamespaces T ns s2) = (\<lambda>_. 0)"
    "doc_store (unlockNamespaces T ns s2) = doc_store s2" "lock_of T (unlockNamespaces T ns s2) = lock_of T s2"
  using unlockNamespaces_ok[OF T, of s2 ns] assms by (simp_all add: dheld_def doc_store_def)

lemma lock_docs:
  assumes T: "trees_ok T okd okl" and "wf_docs T okd okl s" "distinct ns"
  obtains s1 where "lockNamespaces T ns s = Inr (sort ns, s1)" "dheld T okd okl (sort ns) s1"
    "nsdeps s1 = (\<lambda>n. nsdeps s n + of_bool (n \<in> set (sort ns)))" "doc_store s1 = doc_store s" "lock_of T s1 = lock_of T s" "same_tasks s s1"
proof -
  have nk: "nk T okd okl s" and d: "nsdeps s = (\<lambda>_. 0)" using assms(2) by (simp_all add: wf_docs_def)
  obtain s1 where "lockNamespaces T ns s = Inr (sort ns, s1)" "nk T okd okl s1" "docs_at s1 = docs_at s"
    "lock_of T s1 = lock_of T s" "nsdeps s1 = (\<lambda>n. nsdeps s n + of_bool (n \<in> set ns))" "same_tasks s s1"
    by (rule lockNamespaces_ok[OF T nk assms(3)])
  with that[of s1] d show thesis by (simp add: dheld_def doc_store_def)
qed

lemma doc_inv_claim: "doc_inv D L \<Longrightarrow> doc_inv D (claim_locks cq until L)"
  by (auto simp: doc_inv_def claim_locks_def claimed_lock_def)

text \<open>Why a claim is refused.\<close>

definition claim_refused :: "('dt, 'lt) trees \<Rightarrow> time \<Rightarrow> DocClaim \<Rightarrow> ('dt, 'lt) EQMem \<Rightarrow> goerror \<Rightarrow> bool" where
  "claim_refused T now cq s e \<longleftrightarrow> validate_DocClaim cq = Some e \<or>
     validate_DocClaim cq = None \<and> (claim_until now cq s = Inl e \<or>
       (\<exists>until. claim_until now cq s = Inr until \<and> \<not> claimable cq now until (lock_of T s) \<and> (now < until \<longrightarrow> IsDependency e) \<and> (IsDependency e \<or> IsInvalidArgument e)))"

lemma ClaimDocs_cases:
  assumes T: "trees_ok T okd okl" and wf: "wf_docs T okd okl s"
  shows "case ClaimDocs T now cq s of
      (s', Inl e) \<Rightarrow> claim_refused T now cq s e \<and> wf_docs T okd okl s' \<and> same_tasks s s' \<and> doc_store s' = doc_store s \<and> lock_of T s' = lock_of T s
    | (s', Inr sets) \<Rightarrow> validate_DocClaim cq = None \<and> wf_docs T okd okl s' \<and>
        (\<exists>until. claim_until now cq s = Inr until \<and> claimable cq now until (lock_of T s) \<and> claim_made T cq until s s' sets)"
proof (cases "validate_DocClaim cq = None \<and> (\<exists>until. claim_until now cq s = Inr until)")
  case False
  then show ?thesis using wf
    by (auto simp: ClaimDocs_def claim_refused_def split: option.splits sum.splits)
next
  case True
  then obtain until where ok: "validate_DocClaim cq = None" "claim_until now cq s = Inr until" by blast
  let ?ns = "sort (claim_names (SetsOf cq))"
  obtain s1 where s1: "lockNamespaces T (claim_names (SetsOf cq)) s = Inr (?ns, s1)" "dheld T okd okl ?ns s1"
    "nsdeps s1 = (\<lambda>n. nsdeps s n + of_bool (n \<in> set ?ns))" "doc_store s1 = doc_store s" "lock_of T s1 = lock_of T s" "same_tasks s s1"
    by (rule lock_docs[OF T wf claim_names_ok(2)])
  have ns: "g_Namespace ` set (SetsOf cq) \<subseteq> set ?ns" "distinct ?ns" using claim_names_ok by auto
  have d0: "nsdeps s = (\<lambda>_. 0)" and inv: "doc_inv (doc_store s) (lock_of T s)" using wf by (simp_all add: wf_docs_def)
  note u = unlock_docs[OF T d0 s1(3) ns(2)]
  have c: "ClaimDocs T now cq s = (case claimDocsBody T ?ns now until cq s1 of (s2, r) \<Rightarrow> (unlockNamespaces T ?ns s2, r))"
    using ok s1(1) by (simp add: ClaimDocs_def claimDocsLocked_def)
  note b = claimDocsBody_ok[OF T s1(2) ns(1), of now until]
  show ?thesis
  proof (cases "claimable cq now until (lock_of T s1)")
    case True
    from b[unfolded if_P[OF this]] obtain s2 sets where s2: "claimDocsBody T ?ns now until cq s1 = (s2, Inr sets)" "dheld T okd okl ?ns s2"
      "nsdeps s2 = nsdeps s1" "claim_made T cq until s1 s2 sets" by blast
    note u = u[OF s2(2,3)]
    have m: "claim_made T cq until s (unlockNamespaces T ?ns s2) sets"
      using s2(4) s1(4-6) u(3,4) unlockNamespaces_same[of s2 T ?ns] appendJournal_same(3)[of s1 s]
      by (auto simp: claim_made_def same_queues_def same_tasks_def)
    then have "wf_docs T okd okl (unlockNamespaces T ?ns s2)" using u(1,2) doc_inv_claim[OF inv] by (simp add: wf_docs_def claim_made_def)
    with m c s2(1) ok True s1(5) show ?thesis by simp
  next
    case False
    from b[unfolded if_not_P[OF this]] obtain e where e: "claimDocsBody T ?ns now until cq s1 = (s1, Inl e)" "now < until \<longrightarrow> IsDependency e" "IsDependency e \<or> IsInvalidArgument e" by blast
    with c ok False s1 u[OF s1(2) refl] inv same_tasks_trans[OF s1(6) unlockNamespaces_same[of s1 T ?ns]] show ?thesis
      by (auto simp: claim_refused_def wf_docs_def)
  qed
qed

lemma ClaimDocs_keeps:
  assumes "trees_ok T okd okl" "wf_docs T okd okl s"
  shows "wf_docs T okd okl (fst (ClaimDocs T now cq s))" "doc_store (fst (ClaimDocs T now cq s)) = doc_store s"
    "same_queues s (fst (ClaimDocs T now cq s))"
proof -
  obtain s' r where c: "ClaimDocs T now cq s = (s', r)" by (cases "ClaimDocs T now cq s")
  from ClaimDocs_cases[OF assms, of now cq] c same_queues_tasks[of s s']
  have "wf_docs T okd okl s' \<and> doc_store s' = doc_store s \<and> same_queues s s'" by (cases r) (auto simp: claim_made_def)
  with c show "wf_docs T okd okl (fst (ClaimDocs T now cq s))" "doc_store (fst (ClaimDocs T now cq s)) = doc_store s"
    "same_queues s (fst (ClaimDocs T now cq s))" by simp_all
qed

section \<open>Collecting locks\<close>

lemma delete_lock_ok:
  assumes "trees_ok T okd okl" "doc_step T okd okl byNS s0 s" "g_Namespace g \<in> set byNS"
  shows "\<exists>s'. with_namespace byNS (g_Namespace g) (DeleteLock T (g_Key g)) s = Inr s' \<and> doc_step T okd okl byNS s0 s' \<and>
    doc_store s' = doc_store s \<and> lock_of T s' = (lock_of T s)(g := Absent)"
proof -
  have "\<exists>s'. with_namespace byNS (g_Namespace g) (DeleteLock T (g_Key g)) s = Inr s' \<and> doc_step T okd okl byNS s0 s' \<and>
    doc_store s' = (\<lambda>(m, j). if m = g_Namespace g then docs_at s (g_Namespace g) j else doc_store s (m, j)) \<and>
    lock_of T s' = (\<lambda>h. if g_Namespace h = g_Namespace g then (if g_Key h = g_Key g then Absent else lock_of T s h) else lock_of T s h)"
    by (rule with_namespace_ok[OF assms, where F = "\<lambda>m. m"]) (simp add: dn_Lock_DeleteLock[OF assms(1)])
  moreover have "(\<lambda>(m, j). if m = g_Namespace g then docs_at s (g_Namespace g) j else doc_store s (m, j)) = doc_store s"
    by (auto simp: doc_store_def fun_eq_iff)
  moreover have "(\<lambda>h. if g_Namespace h = g_Namespace g then (if g_Key h = g_Key g then Absent else lock_of T s h) else lock_of T s h) =
      (lock_of T s)(g := Absent)" by (auto simp: fun_eq_iff)
  ultimately show ?thesis by simp
qed

abbreviation set_named :: "string \<Rightarrow> lockEntry \<Rightarrow> DSet" where
  "set_named n e \<equiv> \<lparr>g_Namespace = n, g_Key = le_Key e\<rparr>"

lemma delete_locks_ok:
  assumes T: "trees_ok T okd okl" and "doc_step T okd okl byNS s0 s" "n \<in> set byNS"
  shows "\<exists>s'. foldE (\<lambda>e. with_namespace byNS n (DeleteLock T (le_Key e))) es s = Inr s' \<and> doc_step T okd okl byNS s0 s' \<and>
    doc_store s' = doc_store s \<and> lock_of T s' = (\<lambda>g. if g \<in> set_named n ` set es then Absent else lock_of T s g)"
proof -
  let ?V = "\<lambda>s. (doc_store s, lock_of T s)"
  have 1: "\<exists>s'. foldE (\<lambda>e. with_namespace byNS n (DeleteLock T (le_Key e))) es s = Inr s' \<and> doc_step T okd okl byNS s0 s' \<and>
    ?V s' = fold (\<lambda>e (D, L). (D, L(set_named n e := Absent))) es (?V s)"
    by (rule foldE_view[where P = "doc_step T okd okl byNS s0"]) (use delete_lock_ok[OF T, where g = "set_named n e" for e] assms(2,3) in fastforce)+
  have 2: "fold (\<lambda>e (D, L). (D, L(set_named n e := Absent))) es (D, L) = (D, \<lambda>g. if g \<in> set_named n ` set es then Absent else L g)"
    for D and L :: "DSet \<Rightarrow> Lock"
    by (induction es arbitrary: L) (auto simp: fun_eq_iff)
  from 1 show ?thesis unfolding 2 prod.inject .
qed

lemma empty_locks_eq:
  "empty_locks T now room nss es found =
     found @ take (nat (room - int (length found))) (filter (\<lambda>e. \<not> Held (le_Lock e) now \<and> Members T (le_Key e) nss = []) es)"
proof (induction es arbitrary: found)
  case (Cons e es)
  show ?case
  proof (cases "int (length found) \<ge> room")
    case False
    then have "nat (room - int (length found)) = Suc (nat (room - int (length found) - 1))" by simp
    with False Cons show ?thesis by simp (smt (verit, del_insts) of_nat_1 of_nat_add diff_diff_eq)
  qed simp
qed simp

lemma dn_Lock_entry:
  assumes "trees_ok T okd okl" "dn_ok T okd okl nss"
  shows "e \<in> set (bt_Ascend (tr_locks T) (dn_locks nss)) \<Longrightarrow> dn_Lock T (le_Key e) nss = le_Lock e"
    "dn_Lock T k nss \<noteq> Absent \<Longrightarrow> \<exists>e \<in> set (bt_Ascend (tr_locks T) (dn_locks nss)). le_Key e = k"
    "distinct (map le_Key (bt_Ascend (tr_locks T) (dn_locks nss)))"
proof -
  have bt: "btree_ok lockKeyLess (tr_locks T) okl" and ok: "okl (dn_locks nss)" using assms by (simp_all add: trees_ok_def dn_ok_def)
  note g = lockIn_iff[OF bt ok]
  show "e \<in> set (bt_Ascend (tr_locks T) (dn_locks nss)) \<Longrightarrow> dn_Lock T (le_Key e) nss = le_Lock e"
    using g[of "le_Key e" Absent e] by (simp add: dn_Lock_def lockIn_def)
  show "dn_Lock T k nss \<noteq> Absent \<Longrightarrow> \<exists>e \<in> set (bt_Ascend (tr_locks T) (dn_locks nss)). le_Key e = k"
    using g[of k Absent] by (cases "bt_Get (tr_locks T) \<lparr>le_Key = k, le_Lock = Absent\<rparr> (dn_locks nss)") (auto simp: dn_Lock_def lockIn_def)
  have "sorted_wrt lockKeyLess (bt_Ascend (tr_locks T) (dn_locks nss))" by (rule btree_okD(7)[OF bt ok])
  then have "sorted_wrt (<) (map le_Key (bt_Ascend (tr_locks T) (dn_locks nss)))" by (simp add: sorted_wrt_map lockKeyLess_def[abs_def])
  then show "distinct (map le_Key (bt_Ascend (tr_locks T) (dn_locks nss)))" by (simp add: strict_sorted_iff)
qed

text \<open>A lock that can go: its set has no docs and nobody holds it.\<close>

definition unneeded :: "(string \<times> string \<rightharpoonup> Doc) \<Rightarrow> (DSet \<Rightarrow> Lock) \<Rightarrow> time \<Rightarrow> DSet \<Rightarrow> bool" where
  "unneeded D L now g \<longleftrightarrow> docs_of D g = {} \<and> \<not> Held (L g) now"

text \<open>The sets collected from some namespaces: all of them unneeded, no more than there is room
  for, and every stored one when there is room left.\<close>

definition collects :: "(string \<times> string \<rightharpoonup> Doc) \<Rightarrow> (DSet \<Rightarrow> Lock) \<Rightarrow> time \<Rightarrow> int \<Rightarrow> string set \<Rightarrow> DSet set \<Rightarrow> bool" where
  "collects D L now room ns X \<longleftrightarrow> finite X \<and> (\<forall>g \<in> X. g_Namespace g \<in> ns \<and> unneeded D L now g) \<and> int (card X) \<le> max 0 room \<and>
     (int (card X) < room \<longrightarrow> (\<forall>g. g_Namespace g \<in> ns \<and> L g \<noteq> Absent \<and> unneeded D L now g \<longrightarrow> g \<in> X))"

definition without :: "DSet set \<Rightarrow> (DSet \<Rightarrow> Lock) \<Rightarrow> DSet \<Rightarrow> Lock" where
  "without X L g = (if g \<in> X then Absent else L g)"

lemma collects_trans:
  assumes "collects D L now room ns X" "collects D (without X L) now (room - int (card X)) ms Y" "ns \<inter> ms = {}"
  shows "collects D L now room (ns \<union> ms) (X \<union> Y)" "card (X \<union> Y) = card X + card Y" "without Y (without X L) = without (X \<union> Y) L"
proof -
  have dj: "X \<inter> Y = {}" using assms by (auto simp: collects_def)
  then show c: "card (X \<union> Y) = card X + card Y" using assms by (simp add: collects_def card_Un_disjoint)
  have n: "without X L g = L g" if "g \<notin> X" for g using that by (simp add: without_def)
  then have u: "unneeded D (without X L) now g = unneeded D L now g" if "g \<notin> X" for g using that by (simp add: unneeded_def)
  show "collects D L now room (ns \<union> ms) (X \<union> Y)"
    unfolding collects_def c
  proof (intro conjI ballI allI impI)
    show "finite (X \<union> Y)" using assms by (simp add: collects_def)
    show "g_Namespace g \<in> ns \<union> ms" "unneeded D L now g" if "g \<in> X \<union> Y" for g
      using that assms u dj unfolding collects_def by blast+
    show "int (card X + card Y) \<le> max 0 room" using assms(1,2) unfolding collects_def by linarith
    fix g assume r: "int (card X + card Y) < room" and g: "g_Namespace g \<in> ns \<union> ms \<and> L g \<noteq> Absent \<and> unneeded D L now g"
    have "int (card X) < room" "int (card Y) < room - int (card X)" using r by simp_all
    with assms(1,2) g u n show "g \<in> X \<union> Y" unfolding collects_def by (metis Un_iff)
  qed
  show "without Y (without X L) = without (X \<union> Y) L" by (auto simp: without_def fun_eq_iff)
qed

lemma doc_inv_without: "doc_inv D L \<Longrightarrow> \<forall>g \<in> X. docs_of D g = {} \<Longrightarrow> doc_inv D (without X L)"
  unfolding doc_inv_def without_def by (auto simp: Absent_def) (auto simp: docs_of_def)

lemma fold_gm_set_new:
  assumes "gm_ok m" "distinct (map k xs)" "k ` set xs \<inter> fst ` set m = {}"
  shows "gm_ok (fold (\<lambda>x. gm_set (k x) (v x)) xs m)" "fst ` set (fold (\<lambda>x. gm_set (k x) (v x)) xs m) = fst ` set m \<union> k ` set xs"
    "length (fold (\<lambda>x. gm_set (k x) (v x)) xs m) = length m + length xs"
proof -
  have "gm_ok (fold (\<lambda>x. gm_set (k x) (v x)) xs m) \<and> fst ` set (fold (\<lambda>x. gm_set (k x) (v x)) xs m) = fst ` set m \<union> k ` set xs \<and>
    length (fold (\<lambda>x. gm_set (k x) (v x)) xs m) = length m + length xs"
    using assms
  proof (induction xs arbitrary: m)
    case (Cons x xs)
    have "k x \<notin> fst ` set m" using Cons.prems(3) by auto
    then have u: "gm_set (k x) (v x) m = m @ [(k x, v x)]" by (induction m) auto
    have "gm_ok (m @ [(k x, v x)])" using Cons.prems(1) \<open>k x \<notin> fst ` set m\<close> by (simp add: gm_ok_def)
    with Cons.IH[of "m @ [(k x, v x)]"] Cons.prems show ?case by (auto simp: u)
  qed simp
  then show "gm_ok (fold (\<lambda>x. gm_set (k x) (v x)) xs m)" "fst ` set (fold (\<lambda>x. gm_set (k x) (v x)) xs m) = fst ` set m \<union> k ` set xs"
    "length (fold (\<lambda>x. gm_set (k x) (v x)) xs m) = length m + length xs" by auto
qed

lemma Members_none:
  assumes "trees_ok T okd okl" "nk T okd okl s" "map_of (em_namespaces s) (g_Namespace g) = Some nss"
  shows "Members T (g_Key g) nss = [] \<longleftrightarrow> docs_of (doc_store s) g = {}"
proof -
  have "set (Members T (g_Key g) nss) = {d. \<exists>k. doc_store s k = Some d \<and> set_of_doc d = g}"
    using Members_listed[OF assms] by (simp add: members_listed_def)
  then have "set (Members T (g_Key g) nss) = {} \<longleftrightarrow> docs_of (doc_store s) g = {}" by (auto simp: docs_of_def)
  then show ?thesis by simp
qed

text \<open>The sets whose locks are picked in one namespace.\<close>

lemma picked_collects:
  fixes now :: time and room :: int
  assumes T: "trees_ok T okd okl" and "nk T okd okl s" "map_of (em_namespaces s) n = Some nss"
  defines "es \<equiv> empty_locks T now room nss (bt_Ascend (tr_locks T) (dn_locks nss)) []"
  shows "collects (doc_store s) (lock_of T s) now room {n} (set_named n ` set es)" "distinct (map (set_named n) es)"
proof -
  have ok: "dn_ok T okd okl nss" using assms(2,3) by (auto simp: nk_def ns_ok_def)
  note e = dn_Lock_entry[OF T ok]
  let ?all = "bt_Ascend (tr_locks T) (dn_locks nss)"
  let ?P = "\<lambda>e. \<not> Held (le_Lock e) now \<and> Members T (le_Key e) nss = []"
  have es: "es = take (nat room) (filter ?P ?all)" by (simp add: es_def empty_locks_eq)
  have lk: "lock_of T s (set_named n x) = dn_Lock T (le_Key x) nss" for x using assms(3) by (simp add: lock_of_def)
  have mem: "Members T k nss = [] \<longleftrightarrow> docs_of (doc_store s) \<lparr>g_Namespace = n, g_Key = k\<rparr> = {}" for k
    using Members_none[OF T assms(2), of "\<lparr>g_Namespace = n, g_Key = k\<rparr>" nss] assms(3) by simp
  have "distinct (map le_Key (filter ?P ?all))" by (rule distinct_map_filter[OF e(3)])
  then have "distinct (map le_Key es)" unfolding es take_map[symmetric] by (rule distinct_take)
  then show d: "distinct (map (set_named n) es)" by (auto simp: distinct_map inj_on_def)
  have c: "card (set_named n ` set es) = length es" using distinct_card[OF d] by simp
  show "collects (doc_store s) (lock_of T s) now room {n} (set_named n ` set es)"
    unfolding collects_def c
  proof (intro conjI ballI allI impI)
    show "g_Namespace g \<in> {n}" "unneeded (doc_store s) (lock_of T s) now g" if h: "g \<in> set_named n ` set es" for g
    proof -
      from h obtain x where x: "x \<in> set es" "g = set_named n x" by blast
      have "x \<in> set (filter ?P ?all)" using x(1) unfolding es by (rule in_set_takeD)
      then have "x \<in> set ?all" "?P x" by simp_all
      then show "g_Namespace g \<in> {n}" "unneeded (doc_store s) (lock_of T s) now g"
        using x(2) e(1) lk mem by (simp_all add: unneeded_def)
    qed
    show "int (length es) \<le> max 0 room" by (simp add: es)
    fix g assume r: "int (length es) < room"
      and g: "g_Namespace g \<in> {n} \<and> lock_of T s g \<noteq> Absent \<and> unneeded (doc_store s) (lock_of T s) now g"
    have all: "es = filter ?P ?all" using r by (simp add: es)
    obtain k where k: "g = \<lparr>g_Namespace = n, g_Key = k\<rparr>" using g by (cases g) auto
    have "dn_Lock T k nss \<noteq> Absent" using g k assms(3) by (simp add: lock_of_def)
    then obtain x where x: "x \<in> set ?all" "le_Key x = k" using e(2) by blast
    have "?P x" using g k x e(1)[OF x(1)] lk[of x] mem[of k] by (simp add: unneeded_def)
    with x all k show "g \<in> set_named n ` set es" by auto
  qed simp
qed

lemma collect_namespace_ok:
  assumes T: "trees_ok T okd okl" and wf: "wf_docs T okd okl s" and col: "gm_ok col" "n \<notin> g_Namespace ` fst ` set col"
  shows "\<exists>X s' col'. collect_namespace T now batch n (col, s) = Inr (col', s') \<and> wf_docs T okd okl s' \<and> same_tasks s s' \<and>
    doc_store s' = doc_store s \<and> lock_of T s' = without X (lock_of T s) \<and>
    collects (doc_store s) (lock_of T s) now (batch - int (length col)) {n} X \<and>
    gm_ok col' \<and> fst ` set col' = fst ` set col \<union> X \<and> length col' = length col + card X"
proof -
  obtain s1 where s1: "lockNamespaces T [n] s = Inr (sort [n], s1)" "dheld T okd okl (sort [n]) s1"
    "nsdeps s1 = (\<lambda>m. nsdeps s m + of_bool (m \<in> set (sort [n])))" "doc_store s1 = doc_store s" "lock_of T s1 = lock_of T s" "same_tasks s s1"
    by (rule lock_docs[OF T wf, of "[n]"]) simp
  obtain nss where nss: "map_of (em_namespaces s1) n = Some nss" by (rule dheld_namespace[OF s1(2), of n]) simp
  have nk: "nk T okd okl s1" using s1(2) by (simp add: dheld_def)
  let ?es = "empty_locks T now (batch - int (length col)) nss (bt_Ascend (tr_locks T) (dn_locks nss)) []"
  let ?X = "set_named n ` set ?es" and ?col = "fold (\<lambda>e. gm_set (set_named n e) (le_Lock e)) ?es col"
  note p = picked_collects[OF T nk nss, of now "batch - int (length col)"]
  have step: "doc_step T okd okl [n] s1 s1" using s1(2) by (simp add: doc_step_def)
  obtain s2 where s2: "foldE (\<lambda>e. with_namespace [n] n (DeleteLock T (le_Key e))) ?es s1 = Inr s2" "doc_step T okd okl [n] s1 s2"
    "doc_store s2 = doc_store s1" "lock_of T s2 = (\<lambda>g. if g \<in> ?X then Absent else lock_of T s1 g)"
    using delete_locks_ok[OF T step, of n ?es] by auto
  have d0: "nsdeps s = (\<lambda>_. 0)" and inv: "doc_inv (doc_store s) (lock_of T s)" using wf by (simp_all add: wf_docs_def)
  have h2: "dheld T okd okl [n] s2" "nsdeps s2 = nsdeps s1" "same_tasks s1 s2" using s2(2) by (simp_all add: doc_step_def)
  have s1_3: "nsdeps s1 = (\<lambda>m. nsdeps s m + of_bool (m \<in> set [n]))" using s1(3) by simp
  note u = unlock_docs[OF T d0 s1_3 _ h2(1,2), simplified]
  let ?s3 = "unlockNamespaces T [n] s2"
  have l3: "doc_store ?s3 = doc_store s" "lock_of T ?s3 = without ?X (lock_of T s)"
    unfolding u(3,4) s2(3,4) s1(4,5) by (simp_all add: without_def[abs_def])
  have cl: "collects (doc_store s) (lock_of T s) now (batch - int (length col)) {n} ?X" using p(1) s1(4,5) by simp
  then have "wf_docs T okd okl ?s3"
    using u(1,2) l3 doc_inv_without[OF inv, of ?X] by (simp add: wf_docs_def collects_def unneeded_def)
  moreover have st: "same_tasks s ?s3" using s1(6) h2(3) unlockNamespaces_same same_tasks_trans by blast
  moreover have "?X \<inter> fst ` set col = {}" using col(2) by force
  from fold_gm_set_new[OF col(1) p(2) this, of le_Lock] have "gm_ok ?col" "fst ` set ?col = fst ` set col \<union> ?X" "length ?col = length col + card ?X"
    using distinct_card[OF p(2)] by simp_all
  moreover have "collect_namespace T now batch n (col, s) = Inr (?col, ?s3)"
    using s1(1) nss s2(1) by (simp add: collect_namespace_def Let_def)
  ultimately show ?thesis using l3 cl by blast
qed

lemma collect_namespaces_ok:
  assumes T: "trees_ok T okd okl"
  shows "wf_docs T okd okl s \<Longrightarrow> gm_ok col \<Longrightarrow> set ns \<inter> g_Namespace ` fst ` set col = {} \<Longrightarrow> distinct ns \<Longrightarrow>
    \<exists>X s' col' ms. collect_namespaces T now batch canceled ns (col, s) = Inr (col', s') \<and> wf_docs T okd okl s' \<and> same_tasks s s' \<and>
      doc_store s' = doc_store s \<and> lock_of T s' = without X (lock_of T s) \<and>
      collects (doc_store s) (lock_of T s) now (batch - int (length col)) ms X \<and> ms \<subseteq> set ns \<and>
      (ms = set ns \<or> batch \<le> int (length col') \<or> (\<exists>n \<in> set ns. canceled n)) \<and> gm_ok col' \<and> length col' = length col + card X"
proof (induction ns arbitrary: s col)
  case Nil
  have "collects (doc_store s) (lock_of T s) now (batch - int (length col)) {} {}" "without {} (lock_of T s) = lock_of T s"
    by (simp_all add: collects_def without_def[abs_def])
  with Nil show ?case by (intro exI[of _ "{}"]) simp
next
  case (Cons n ns)
  show ?case
  proof (cases "int (length col) \<ge> batch \<or> canceled n")
    case True
    have "collects (doc_store s) (lock_of T s) now (batch - int (length col)) {} {}" "without {} (lock_of T s) = lock_of T s"
      by (simp_all add: collects_def without_def[abs_def])
    with True Cons.prems show ?thesis by (intro exI[of _ "{}"]) auto
  next
    case False
    have "n \<notin> g_Namespace ` fst ` set col" using Cons.prems(3) by auto
    from collect_namespace_ok[OF T Cons.prems(1,2) this, of now batch] obtain X s1 col1 where
      x: "collect_namespace T now batch n (col, s) = Inr (col1, s1)" "wf_docs T okd okl s1" "same_tasks s s1"
      "doc_store s1 = doc_store s" "lock_of T s1 = without X (lock_of T s)"
      "collects (doc_store s) (lock_of T s) now (batch - int (length col)) {n} X"
      "gm_ok col1" "fst ` set col1 = fst ` set col \<union> X" "length col1 = length col + card X" by blast
    have "g_Namespace ` X \<subseteq> {n}" using x(6) by (auto simp: collects_def)
    then have "set ns \<inter> g_Namespace ` fst ` set col1 = {}" unfolding x(8) image_Un using Cons.prems(3,4) by force
    note ih = Cons.IH[OF x(2,7) this]
    have "distinct ns" using Cons.prems(4) by simp
    from ih[OF this] obtain Y s2 col2 ms where
      y: "collect_namespaces T now batch canceled ns (col1, s1) = Inr (col2, s2)" "wf_docs T okd okl s2" "same_tasks s1 s2"
      "doc_store s2 = doc_store s1" "lock_of T s2 = without Y (lock_of T s1)"
      "collects (doc_store s1) (lock_of T s1) now (batch - int (length col1)) ms Y" "ms \<subseteq> set ns"
      "ms = set ns \<or> batch \<le> int (length col2) \<or> (\<exists>n \<in> set ns. canceled n)" "gm_ok col2" "length col2 = length col1 + card Y"
      by blast
    have "collects (doc_store s) (without X (lock_of T s)) now (batch - int (length col) - int (card X)) ms Y"
      using y(6) x(4,5,9) by (simp add: algebra_simps)
    note t = collects_trans[OF x(6) this]
    have "{n} \<inter> ms = {}" using y(7) Cons.prems(4) by auto
    note t = t[OF this]
    have "collect_namespaces T now batch canceled (n # ns) (col, s) = Inr (col2, s2)" using False x(1) y(1) by simp
    then show ?thesis
      using y t x same_tasks_trans[OF x(3) y(3)] by (intro exI[of _ "X \<union> Y"] exI[of _ s2] exI[of _ col2] exI[of _ "{n} \<union> ms"]) auto
  qed
qed

lemma collectLocks_ok:
  assumes "trees_ok T okd okl" "wf_docs T okd okl s" "mset (ord (map fst (em_namespaces s))) = mset (map fst (em_namespaces s))"
  shows "\<exists>X s'. collectLocksOnce T ord now batch canceled s = Inr (int (card X), s') \<and> wf_docs T okd okl s' \<and> same_queues s s' \<and>
    doc_store s' = doc_store s \<and> lock_of T s' = without X (lock_of T s) \<and> finite X \<and>
    (\<forall>g \<in> X. unneeded (doc_store s) (lock_of T s) now g) \<and> int (card X) \<le> max 0 batch \<and>
    (int (card X) < batch \<and> (\<forall>n. \<not> canceled n) \<longrightarrow>
      (\<forall>g. lock_of T s g \<noteq> Absent \<and> unneeded (doc_store s) (lock_of T s) now g \<longrightarrow> g \<in> X))"
proof -
  let ?ns = "ord (map fst (em_namespaces s))"
  have "gm_ok (em_namespaces s)" using assms(2) by (simp add: wf_docs_def nk_def ns_ok_def)
  then have "distinct ?ns" using mset_eq_imp_distinct_iff[OF assms(3)] by (simp add: gm_ok_def)
  note c = collect_namespaces_ok[OF assms(1,2) _ _ this, of "[]" now batch canceled, unfolded gm_ok_def, simplified]
  from c obtain X s1 col ms where
    x: "collect_namespaces T now batch canceled ?ns ([], s) = Inr (col, s1)" "wf_docs T okd okl s1" "same_tasks s s1"
    "doc_store s1 = doc_store s" "lock_of T s1 = without X (lock_of T s)" "collects (doc_store s) (lock_of T s) now batch ms X"
    "ms = set ?ns \<or> batch \<le> int (length col) \<or> (\<exists>n \<in> set ?ns. canceled n)" "length col = card X"
    by blast
  let ?s2 = "journal_collected col s1"
  have j: "same_ns s1 ?s2" "same_queues s1 ?s2"
    by (simp_all add: journal_collected_def appendJournal_same same_ns_def same_queues_def)
  note v = same_ns_views[OF j(1)] and q = same_queues_trans[OF same_queues_tasks[OF x(3)] j(2)]
  have named: "g_Namespace g \<in> set ?ns" if "lock_of T s g \<noteq> Absent" for g
  proof -
    have "set ?ns = fst ` set (em_namespaces s)" using mset_eq_setD[OF assms(3)] by simp
    moreover have "g_Namespace g \<in> fst ` set (em_namespaces s)"
      using that by (auto simp: lock_of_def map_of_eq_None_iff split: option.splits dest: map_of_SomeD intro: rev_image_eqI)
    ultimately show ?thesis by simp
  qed
  have "collectLocksOnce T ord now batch canceled s = Inr (int (card X), ?s2)"
    using x(1,8) by (simp add: collectLocksOnce_def)
  moreover have "g \<in> X" if "int (card X) < batch" "\<forall>n. \<not> canceled n" "lock_of T s g \<noteq> Absent" "unneeded (doc_store s) (lock_of T s) now g" for g
  proof -
    have "ms = set ?ns" using x(7,8) that(1,2) by auto
    then show ?thesis using x(6) that named[OF that(3)] unfolding collects_def by blast
  qed
  moreover have "finite X" "\<forall>g \<in> X. unneeded (doc_store s) (lock_of T s) now g" "int (card X) \<le> max 0 batch"
    using x(6) by (simp_all add: collects_def)
  moreover have "wf_docs T okd okl ?s2" "same_queues s ?s2" "doc_store ?s2 = doc_store s" "lock_of T ?s2 = without X (lock_of T s)"
    using x(2,4,5) v q wf_docs_same[OF j(1)] by simp_all
  ultimately show ?thesis by blast
qed

section \<open>Properties of doc claims and lock collection\<close>

text \<open>
  C29: ClaimDocs on a well-formed backend claims every set it names or none, and changes no task and
  no doc. It is refused only when the request is not valid, the task it leans on is not stored at
  that version, the lease would have ended already, or a set is held by someone else; then no lock
  changes. When it is granted, exactly the locks of the named sets change, each to one version
  on, held by the claimant until the lease ends, and the sets returned show the locks and docs stored.
\<close>

theorem ClaimDocs_spec:
  assumes "trees_ok T okd okl" "wf_mem s" "wf_docs T okd okl s" "ClaimDocs T now cq s = (s', r)"
  shows "wf_mem s' \<and> wf_docs T okd okl s' \<and> store s' = store s \<and> doc_store s' = doc_store s \<and>
    (case r of
       Inl e \<Rightarrow> claim_refused T now cq s e \<and> lock_of T s' = lock_of T s
     | Inr sets \<Rightarrow> \<exists>until. claim_until now cq s = Inr until \<and> claimable cq now until (lock_of T s) \<and>
         lock_of T s' = claim_locks cq until (lock_of T s) \<and> list_all2 (claimed_set (doc_store s) (lock_of T s')) (dc_Sets cq) sets)"
proof (cases r)
  case (Inl e)
  with ClaimDocs_cases[OF assms(1,3), of now cq] assms(2,4) same_queues_views[OF same_queues_tasks, of s s']
  show ?thesis by simp
next
  case (Inr sets)
  with ClaimDocs_cases[OF assms(1,3), of now cq] assms(4) have wf: "wf_docs T okd okl s'" and
    u: "\<exists>until. claim_until now cq s = Inr until \<and> claimable cq now until (lock_of T s) \<and> claim_made T cq until s s' sets" by simp_all
  then have "same_queues s s'" "doc_store s' = doc_store s" by (auto simp: claim_made_def)
  with wf u Inr assms(2) same_queues_views[of s s'] show ?thesis by (auto simp: claim_made_def)
qed

definition ex_claimed :: "(docKeyEntry list, lockEntry list) EQMem" where
  "ex_claimed = fst (ClaimDocs list_trees 10 ex_claim (new_EQMem False))"

definition ex_set :: DSet where
  "ex_set = \<lparr>g_Namespace = ''ns'', g_Key = ''k''\<rparr>"

theorem ClaimDocs_spec_witness:
  "wf_docs list_trees (sorted_wrt docKeyLess) (sorted_wrt lockKeyLess) ex_claimed \<and>
   lock_of list_trees ex_claimed ex_set = \<lparr>lk_Stored = True, lk_Version = 1, lk_Claimant = ''me'', lk_At = 15, lk_NumDocs = 0\<rparr>"
proof -
  have "isl (snd (ClaimDocs list_trees 10 ex_claim (new_EQMem False))) = False" by code_simp
  then obtain sets where c: "ClaimDocs list_trees 10 ex_claim (new_EQMem False) = (ex_claimed, Inr sets)"
    unfolding ex_claimed_def by (cases "ClaimDocs list_trees 10 ex_claim (new_EQMem False)"; cases "snd (ClaimDocs list_trees 10 ex_claim (new_EQMem False))") auto
  have u: "claim_until 10 ex_claim (new_EQMem False :: (docKeyEntry list, lockEntry list) EQMem) = Inr 15" by code_simp
  have "SetsOf ex_claim = [ex_set]" "dc_Claimant ex_claim = ''me''" by code_simp+
  with ClaimDocs_spec[OF list_trees_ok new_docs(1) new_docs(3)[OF list_trees_ok] c] u show ?thesis
    by (simp add: claim_locks_def claimed_lock_def new_docs(5) Absent_def)
qed

text \<open>
  C30: a pass of the lock collector over a well-formed backend, whatever the order of the namespaces,
  removes the locks of sets that have no docs and that nobody holds, no others, and no more than
  the batch; it changes no task and no doc and keeps the invariant. A pass that is not canceled and
  stays below the batch leaves no such lock.
\<close>

theorem collectLocksOnce_spec:
  assumes "trees_ok T okd okl" "wf_docs T okd okl s" "mset (ord (map fst (em_namespaces s))) = mset (map fst (em_namespaces s))"
  shows "\<exists>X s'. collectLocksOnce T ord now batch canceled s = Inr (int (card X), s') \<and> wf_docs T okd okl s' \<and> same_queues s s' \<and>
    doc_store s' = doc_store s \<and> lock_of T s' = without X (lock_of T s) \<and> finite X \<and>
    (\<forall>g \<in> X. unneeded (doc_store s) (lock_of T s) now g) \<and> int (card X) \<le> max 0 batch \<and>
    (int (card X) < batch \<and> (\<forall>n. \<not> canceled n) \<longrightarrow>
      (\<forall>g. lock_of T s g \<noteq> Absent \<and> unneeded (doc_store s) (lock_of T s) now g \<longrightarrow> g \<in> X))"
  by (rule collectLocks_ok[where ord = ord, OF assms])

theorem collectLocksOnce_spec_witness:
  "\<exists>s'. collectLocksOnce list_trees (\<lambda>ns. ns) 20 100 (\<lambda>_. False) ex_claimed = Inr (1, s') \<and> lock_of list_trees s' ex_set = Absent"
proof -
  have wf: "wf_docs list_trees (sorted_wrt docKeyLess) (sorted_wrt lockKeyLess) ex_claimed" and D: "doc_store ex_claimed = Map.empty"
    using ClaimDocs_keeps[OF list_trees_ok new_docs(3)[OF list_trees_ok, of False], of 10 ex_claim] by (simp_all add: ex_claimed_def new_docs(4))
  have "lock_of list_trees ex_claimed ex_set \<noteq> Absent" "\<not> Held (lock_of list_trees ex_claimed ex_set) 20" by code_simp+
  then have u: "unneeded (doc_store ex_claimed) (lock_of list_trees ex_claimed) 20 ex_set" "lock_of list_trees ex_claimed ex_set \<noteq> Absent"
    by (simp_all add: unneeded_def docs_of_def D)
  have "map_sum (\<lambda>_. ()) fst (collectLocksOnce list_trees (\<lambda>ns. ns) 20 100 (\<lambda>_. False) ex_claimed) = Inr 1" by code_simp
  with collectLocksOnce_spec[OF list_trees_ok wf, of "\<lambda>ns. ns" 20 100 "\<lambda>_. False"] u show ?thesis
    by (auto simp: without_def)
qed

end
