(* ===== verification/EQMemSteps.thy ===== *)
theory EQMemSteps
  imports EQMemDocFacts
begin

text \<open>
  The in-memory backend as a machine: its state changes by claims, modifications, doc claims and
  lock collection, in any order. Every reachable state is well-formed and no operation on it
  panics; while a claim of a task or of a doc set lasts, nobody else changes what is claimed; and
  of the operations that name a task at one version, at most one succeeds.
\<close>

section \<open>Requests that are refused\<close>

text \<open>A check that only ever reports an invalid argument.\<close>

definition only_invalid :: "goerror option \<Rightarrow> bool" where
  "only_invalid r \<longleftrightarrow> (\<forall>e. r = Some e \<longrightarrow> IsInvalidArgument e)"

lemma only_invalid_simps [simp]:
  "only_invalid None" "only_invalid (Some (InvalidArgumentError x))"
  "only_invalid (if c then a else b) \<longleftrightarrow> (c \<longrightarrow> only_invalid a) \<and> (\<not> c \<longrightarrow> only_invalid b)"
  by (simp_all add: only_invalid_def)

lemma only_invalid_or [intro]: "only_invalid a \<Longrightarrow> only_invalid b \<Longrightarrow> only_invalid (err_or a b)"
  by (auto simp: only_invalid_def err_or_def split: option.splits)

lemma only_invalid_first [intro]: "(\<And>x. only_invalid (f x)) \<Longrightarrow> only_invalid (first_some f xs)"
  by (auto simp: only_invalid_def dest: first_some_SomeD)

lemma check_doc_arrives_invalid: "only_invalid (check_doc_arrives seen as)"
  by (induction as arbitrary: seen) (simp_all add: Let_def)

lemma docPlaces_invalid: "only_invalid (docPlaces_loop seen ds)"
  by (induction ds arbitrary: seen) (simp_all add: Let_def)

lemma check_claim_sets_invalid: "only_invalid (check_claim_sets seen cs)"
  by (induction cs arbitrary: seen) (simp_all add: Let_def)

lemma check_invalid [simp]: "only_invalid (check what s limit)"
  by (simp add: check_def)

lemma validate_invalid:
  "only_invalid (validate_Modification md)" "only_invalid (validate_Claim cq)" "only_invalid (validate_DocClaim dc)"
proof -
  have "only_invalid (case AllDependencies md of Inl e \<Rightarrow> Some e | Inr _ \<Rightarrow> None)"
    using AllDependencies_post[of md] by (auto simp: deps_post_def only_invalid_def split: sum.splits)
  moreover have "only_invalid (EnsureModifyKeys md)"
    by (auto simp: EnsureModifyKeys_def intro!: only_invalid_or only_invalid_first check_doc_arrives_invalid)
  moreover have "only_invalid (docRefs md)" by (auto simp: docRefs_def names_both_def intro!: only_invalid_or only_invalid_first)
  moreover have "only_invalid (lengths md)"
    by (auto simp: lengths_def Let_def validate_Claimant_def validate_doc_def intro!: only_invalid_or only_invalid_first)
  ultimately show "only_invalid (validate_Modification md)"
    unfolding validate_Modification_def docPlaces_def by (intro only_invalid_or docPlaces_invalid) simp_all
  show "only_invalid (validate_Claim cq)"
    unfolding validate_Claim_def validate_Claimant_def ClaimQuery_Validate_def by (intro only_invalid_or) (auto intro!: only_invalid_or only_invalid_first)
  show "only_invalid (validate_DocClaim dc)"
    unfolding validate_DocClaim_def validate_Claimant_def DocClaim_Validate_def
    by (intro only_invalid_or) (auto intro!: only_invalid_or only_invalid_first check_claim_sets_invalid split: option.splits)
qed

section \<open>The machine\<close>

text \<open>
  A claim carries the order of its queues, its draws and the instant it tries each queue at; a pass
  of the lock collector the order of the namespaces and whether its context is done.
\<close>

datatype mem_op =
    ClaimOp "string list \<Rightarrow> string list" "string \<Rightarrow> nat \<Rightarrow> bool \<times> bool" "string \<Rightarrow> time" ClaimQuery
  | ModifyOp time Modification
  | ClaimDocsOp time DocClaim
  | CollectOp "string list \<Rightarrow> string list" time int "string \<Rightarrow> bool"

text \<open>Doc operations name their namespace; shuffles and map iteration permute.\<close>

fun op_ok :: "mem_op \<Rightarrow> bool" where
  "op_ok (ClaimOp shuffle draw now cq) \<longleftrightarrow> mset (shuffle (cq_Queues cq)) = mset (cq_Queues cq)"
| "op_ok (ModifyOp now md) \<longleftrightarrow> docs_named md"
| "op_ok (ClaimDocsOp now cq) \<longleftrightarrow> True"
| "op_ok (CollectOp ord now batch canceled) \<longleftrightarrow> (\<forall>xs. mset (ord xs) = mset xs)"

fun op_claimant :: "mem_op \<Rightarrow> string" where
  "op_claimant (ClaimOp shuffle draw now cq) = cq_Claimant cq"
| "op_claimant (ModifyOp now md) = m_Claimant md"
| "op_claimant (ClaimDocsOp now cq) = dc_Claimant cq"
| "op_claimant (CollectOp ord now batch canceled) = []"

text \<open>Every clock reading of the operation is before an instant.\<close>

fun op_before :: "mem_op \<Rightarrow> time \<Rightarrow> bool" where
  "op_before (ClaimOp shuffle draw now cq) t \<longleftrightarrow> (\<forall>q \<in> set (cq_Queues cq). now q < t)"
| "op_before (ModifyOp now md) t \<longleftrightarrow> now < t"
| "op_before (ClaimDocsOp now cq) t \<longleftrightarrow> now < t"
| "op_before (CollectOp ord now batch canceled) t \<longleftrightarrow> now < t"

text \<open>What an operation returns: an error, or nothing of interest here.\<close>

inductive step :: "('dt, 'lt) trees \<Rightarrow> ('dt, 'lt) EQMem \<Rightarrow> mem_op \<Rightarrow> goerror option \<Rightarrow> ('dt, 'lt) EQMem \<Rightarrow> bool" for T where
  claim: "TryClaim shuffle draw now cq s = Inr (r, s') \<Longrightarrow> step T s (ClaimOp shuffle draw now cq) None s'"
| claim_err: "TryClaim shuffle draw now cq s = Inl e \<Longrightarrow> step T s (ClaimOp shuffle draw now cq) (Some e) s"
| modify: "Modify T now md s = (s', Inr r) \<Longrightarrow> step T s (ModifyOp now md) None s'"
| modify_err: "Modify T now md s = (s', Inl e) \<Longrightarrow> step T s (ModifyOp now md) (Some e) s'"
| claim_docs: "ClaimDocs T now cq s = (s', Inr r) \<Longrightarrow> step T s (ClaimDocsOp now cq) None s'"
| claim_docs_err: "ClaimDocs T now cq s = (s', Inl e) \<Longrightarrow> step T s (ClaimDocsOp now cq) (Some e) s'"
| collect: "collectLocksOnce T ord now batch canceled s = Inr (n, s') \<Longrightarrow> step T s (CollectOp ord now batch canceled) None s'"
| collect_err: "collectLocksOnce T ord now batch canceled s = Inl e \<Longrightarrow> step T s (CollectOp ord now batch canceled) (Some e) s"

inductive_cases stepE: "step T s op r s'"

inductive steps :: "('dt, 'lt) trees \<Rightarrow> ('dt, 'lt) EQMem \<Rightarrow> mem_op list \<Rightarrow> ('dt, 'lt) EQMem \<Rightarrow> bool" for T where
  start: "steps T s [] s"
| more: "steps T s ops s' \<Longrightarrow> op_ok op \<Longrightarrow> step T s' op r s'' \<Longrightarrow> steps T s (ops @ [op]) s''"

text \<open>Every operation returns.\<close>

lemma step_total: "\<exists>r s'. step T s op r s'"
proof (cases op)
  case (ClaimOp shuffle draw now cq)
  then show ?thesis by (cases "TryClaim shuffle draw now cq s") (auto intro: claim claim_err)
next
  case (ModifyOp now md)
  obtain s' r where "Modify T now md s = (s', r)" by (cases "Modify T now md s")
  with ModifyOp show ?thesis by (cases r) (auto intro: modify modify_err)
next
  case (ClaimDocsOp now cq)
  obtain s' r where "ClaimDocs T now cq s = (s', r)" by (cases "ClaimDocs T now cq s")
  with ClaimDocsOp show ?thesis by (cases r) (auto intro: claim_docs claim_docs_err)
next
  case (CollectOp ord now batch canceled)
  then show ?thesis by (cases "collectLocksOnce T ord now batch canceled s") (auto intro: collect collect_err)
qed

section \<open>One step on tasks and docs\<close>

abbreviation wf_all :: "('dt, 'lt) trees \<Rightarrow> ('dt \<Rightarrow> bool) \<Rightarrow> ('lt \<Rightarrow> bool) \<Rightarrow> ('dt, 'lt) EQMem \<Rightarrow> bool" where
  "wf_all T okd okl s \<equiv> wf_mem s \<and> wf_docs T okd okl s"

lemma same_docs_ns: "same_docs s s' \<Longrightarrow> same_ns s s'"
  by (simp add: same_docs_def same_ns_def)

lemma TryClaim_step:
  assumes "wf_mem s"
  shows "case TryClaim shuffle draw now cq s of Inl e \<Rightarrow> IsInvalidArgument e
    | Inr (r, s') \<Rightarrow> wf_mem s' \<and> same_ns s s' \<and> claim_result cq now (set (shuffle (cq_Queues cq))) s r s'"
proof (cases "validate_Claim cq")
  case None
  obtain r s' where "TryClaim shuffle draw now cq s = Inr (r, s')" "wf_mem s'" "same_docs s s'"
    "claim_result cq now (set (shuffle (cq_Queues cq))) s r s'"
    by (rule TryClaim_Inr[OF assms None, of shuffle draw now])
  then show ?thesis by (simp add: same_docs_ns)
next
  case (Some e)
  then show ?thesis using validate_invalid(2)[of cq] by (simp add: TryClaim_def only_invalid_def)
qed

lemma collect_step:
  assumes "trees_ok T okd okl" "wf_docs T okd okl s" "\<forall>xs. mset (ord xs) = mset xs"
  shows "\<exists>X n s'. collectLocksOnce T ord now batch canceled s = Inr (n, s') \<and> wf_docs T okd okl s' \<and> same_queues s s' \<and>
    doc_store s' = doc_store s \<and> lock_of T s' = without X (lock_of T s) \<and> (\<forall>g \<in> X. unneeded (doc_store s) (lock_of T s) now g)"
proof -
  have "mset (ord (map fst (em_namespaces s))) = mset (map fst (em_namespaces s))" using assms(3) by blast
  from collectLocks_ok[where ord = ord, OF assms(1,2) this, of now batch canceled] show ?thesis by blast
qed

text \<open>Modify in one statement: it keeps the invariants; an error leaves tasks, docs and locks, and
  is never a panic; a success is a commit of tasks and docs.\<close>

lemma Modify_step:
  assumes T: "trees_ok T okd okl" and wf: "wf_all T okd okl s" "docs_named md" and m: "Modify T now md s = (s', r)"
  shows "wf_all T okd okl s'" "\<And>e. r = Inl e \<Longrightarrow> (\<forall>m. e \<noteq> Panic m) \<and> store s' = store s \<and> doc_store s' = doc_store s \<and> lock_of T s' = lock_of T s"
    "\<And>x. r = Inr x \<Longrightarrow> task_deps_ok md now (store s) \<and> store s' = commit_tasks (arrival_Changes md (store s)) now (store s) \<and>
      doc_outcome md now (doc_store s) (lock_of T s) (doc_store s') (lock_of T s') (fst x) \<and> valid_docs md"
proof -
  have t: "task_outcome md now (store s) (store s') r" and "wf_mem s'" using Modify_tasks[OF _ m] wf(1) by blast+
  have d: "wf_docs T okd okl s' \<and>
    (case r of
       Inl e \<Rightarrow> (\<forall>m. e \<noteq> Panic m) \<and> doc_store s' = doc_store s \<and> lock_of T s' = lock_of T s
     | Inr (resp, notified) \<Rightarrow> doc_outcome md now (doc_store s) (lock_of T s) (doc_store s') (lock_of T s') resp \<and> valid_docs md)"
  proof (cases "validate_Modification md = None \<and> missing_ids md = None")
    case True
    with Modify_docs[OF T _ _ wf(2), of s now] wf(1) m valid_docs_intro[of md] show ?thesis
      by (auto simp: doc_result_def split: sum.splits)
  next
    case False
    have "\<forall>m. e \<noteq> Panic m" if "missing_ids md = Some e" for e
      using that by (auto simp: missing_ids_def err_or_Some dest!: first_some_SomeD split: if_splits)
    with False wf(1) m validate_invalid(1)[of md] show ?thesis
      by (auto simp: Modify_def modifyImpl_def only_invalid_def split: option.splits)
  qed
  then show "wf_all T okd okl s'" using \<open>wf_mem s'\<close> by blast
  show "(\<forall>m. e \<noteq> Panic m) \<and> store s' = store s \<and> doc_store s' = doc_store s \<and> lock_of T s' = lock_of T s" if "r = Inl e" for e
    using t d that by (simp add: task_outcome_def)
  show "task_deps_ok md now (store s) \<and> store s' = commit_tasks (arrival_Changes md (store s)) now (store s) \<and>
      doc_outcome md now (doc_store s) (lock_of T s) (doc_store s') (lock_of T s') (fst x) \<and> valid_docs md" if "r = Inr x" for x
    using t d that by (cases x) (simp add: task_outcome_def)
qed

lemma ClaimDocs_step:
  assumes "trees_ok T okd okl" "wf_all T okd okl s" "ClaimDocs T now cq s = (s', r)"
  shows "wf_all T okd okl s'" "store s' = store s" "doc_store s' = doc_store s" "r \<noteq> Inl (Panic m)"
    "lock_of T s' g \<noteq> lock_of T s g \<Longrightarrow> \<not> HeldByOther (lock_of T s g) (dc_Claimant cq) now"
proof -
  have wd: "wf_docs T okd okl s" using assms(2) by blast
  note k = ClaimDocs_keeps[OF assms(1) wd, of now cq] and c = ClaimDocs_cases[OF assms(1) wd, of now cq]
  show "wf_all T okd okl s'" "store s' = store s" "doc_store s' = doc_store s"
    using k assms(2,3) same_queues_views[of s s'] by simp_all
  have until: "claim_until now cq s = Inl e \<Longrightarrow> IsDependency e" for e
    by (auto simp: claim_until_def MissingTaskErrorf_def taskDepErrorf_def split: option.splits if_splits)
  show "r \<noteq> Inl (Panic m)"
  proof
    assume "r = Inl (Panic m)"
    with c assms(3) have "claim_refused T now cq s (Panic m)" by simp
    then show False using until[of "Panic m"] validate_invalid(3)[of cq] by (auto simp: claim_refused_def only_invalid_def)
  qed
  show "\<not> HeldByOther (lock_of T s g) (dc_Claimant cq) now" if "lock_of T s' g \<noteq> lock_of T s g"
    using c assms(3) that by (cases r) (auto simp: claim_made_def claim_locks_def claimable_def split: if_splits)
qed

lemma step_wf:
  assumes "trees_ok T okd okl" "wf_all T okd okl s" "op_ok op" "step T s op r s'"
  shows "wf_all T okd okl s' \<and> r \<noteq> Some (Panic m)"
  using assms(4)
proof cases
  case (claim shuffle draw now cq x)
  then show ?thesis using TryClaim_step[where s = s and shuffle = shuffle and draw = draw and now = now and cq = cq] wf_docs_same[of s s'] assms(2) by auto
next
  case (claim_err shuffle draw now cq e)
  then show ?thesis using TryClaim_step[where s = s and shuffle = shuffle and draw = draw and now = now and cq = cq] assms(2) by auto
next
  case (modify now md x)
  then show ?thesis using Modify_step(1)[OF assms(1,2)] assms(3) by auto
next
  case (modify_err now md e)
  then show ?thesis using Modify_step(1,2)[OF assms(1,2)] assms(3) by auto
next
  case (claim_docs now cq x)
  then show ?thesis using ClaimDocs_step(1)[OF assms(1,2)] by blast
next
  case (claim_docs_err now cq e)
  then show ?thesis using ClaimDocs_step(1,4)[OF assms(1,2)] by blast
next
  case (collect ord now batch canceled n)
  with collect_step[OF assms(1), of s ord now batch canceled] assms(2,3) same_queues_views[of s s'] show ?thesis by auto
next
  case (collect_err ord now batch canceled e)
  with collect_step[OF assms(1), of s ord now batch canceled] assms(2,3) show ?thesis by auto
qed

lemma steps_wf:
  assumes "steps T s ops s'" "trees_ok T okd okl" "wf_all T okd okl s"
  shows "wf_all T okd okl s'"
  using assms by (induction rule: steps.induct) (use step_wf in blast)+

text \<open>What an operation does to one task: nothing; a new version of a task that nobody else holds,
  or its removal; or its insertion.\<close>

fun inserted_ids :: "mem_op \<Rightarrow> string set" where
  "inserted_ids (ModifyOp now md) = td_ID ` set (m_Inserts md)"
| "inserted_ids _ = {}"

definition task_held :: "mem_op \<Rightarrow> Task \<Rightarrow> bool" where
  "task_held op t \<longleftrightarrow> t_Claimant t \<noteq> [] \<and> t_Claimant t \<noteq> op_claimant op \<and> op_before op (t_At t)"

definition task_moves :: "mem_op \<Rightarrow> (string \<rightharpoonup> Task) \<Rightarrow> (string \<rightharpoonup> Task) \<Rightarrow> string \<Rightarrow> bool" where
  "task_moves op S S' i \<longleftrightarrow> S' i = S i \<or>
     (\<exists>t. S i = Some t \<and> \<not> task_held op t \<and> (\<forall>t'. S' i = Some t' \<longrightarrow> t_Version t' = t_Version t + 1)) \<or>
     S i = None \<and> i \<in> inserted_ids op"

lemma Modify_moves:
  assumes "typed S" "task_deps_ok md now S"
  shows "task_moves (ModifyOp now md) S (commit_tasks (arrival_Changes md S) now S) i"
proof (cases "i \<in> written_ids md")
  case False
  then show ?thesis using commit_untouched[OF assms(1)] by (simp add: task_moves_def)
next
  case True
  show ?thesis
  proof (cases "S i")
    case None
    have "i \<in> td_ID ` set (m_Inserts md)"
      using True None assms(2) unfolding written_ids_def task_deps_ok_def task_op_ok_def in_queue_def by fastforce
    with None show ?thesis by (simp add: task_moves_def)
  next
    case (Some t)
    have "\<not> task_held (ModifyOp now md) t"
      using held_untouched[OF assms Some] True by (auto simp: task_held_def otherwiseClaimed_def)
    moreover have "t_Version t' = t_Version t + 1" if "commit_tasks (arrival_Changes md S) now S i = Some t'" for t'
      using commit_version[OF assms that] True Some by simp
    ultimately show ?thesis using Some by (simp add: task_moves_def)
  qed
qed

lemma step_moves:
  assumes T: "trees_ok T okd okl" and wf: "wf_all T okd okl s" and op: "op_ok op" "step T s op r s'"
  shows "task_moves op (store s) (store s') i"
  using op(2)
proof cases
  case (claim shuffle draw now cq x)
  then have c: "claim_result cq now (set (shuffle (cq_Queues cq))) s x s'" "wf_mem s'"
    using TryClaim_step[where s = s and shuffle = shuffle and draw = draw and now = now and cq = cq] wf by auto
  have sh: "set (shuffle (cq_Queues cq)) = set (cq_Queues cq)" using op(1) claim(1) mset_eq_setD by auto
  show ?thesis
  proof (cases x)
    case None
    then have "tasks_at s' = tasks_at s" using c(1) by (simp add: claim_result_def)
    then have "store s' = store s" using store_cong[of s s'] wf c(2) by blast
    then show ?thesis by (simp add: task_moves_def)
  next
    case (Some t')
    with c(1) sh obtain t where t: "store s (t_ID t') = Some t" "t_Queue t \<in> set (cq_Queues cq)" "t_At t \<le> now (t_Queue t)"
      "t' = claim_task cq (now (t_Queue t)) t" "store s' = (store s)(t_ID t' \<mapsto> t')"
      by (auto simp: claim_result_def)
    have "\<not> task_held op t" using t(2,3) claim(1) by (fastforce simp: task_held_def)
    moreover have "t_Version t' = t_Version t + 1" unfolding t(4) by (simp add: claim_task_def)
    ultimately show ?thesis using t(1,5) by (simp add: task_moves_def)
  qed
next
  case (modify now md x)
  with Modify_step(3)[OF T wf, of md now s' "Inr x" x] op(1) have "task_deps_ok md now (store s)"
    "store s' = commit_tasks (arrival_Changes md (store s)) now (store s)" by auto
  with Modify_moves[OF typed_store, of s] wf modify show ?thesis by simp
next
  case (modify_err now md e)
  with Modify_step(2)[OF T wf, of md now s' "Inl e" e] op(1) show ?thesis by (auto simp: task_moves_def)
next
  case (claim_docs now cq x)
  with ClaimDocs_step(2)[OF T wf] show ?thesis by (auto simp: task_moves_def)
next
  case (claim_docs_err now cq e)
  with ClaimDocs_step(2)[OF T wf] show ?thesis by (auto simp: task_moves_def)
next
  case (collect ord now batch canceled n)
  with collect_step[OF T, of s ord now batch canceled] wf op(1) have "same_queues s s'" by auto
  then show ?thesis using same_queues_views[of s s'] by (simp add: task_moves_def)
qed (simp_all add: task_moves_def)

text \<open>What an operation does to one doc set: nothing while someone else holds it.\<close>

definition same_set :: "DSet \<Rightarrow> (string \<times> string \<rightharpoonup> Doc) \<Rightarrow> (string \<times> string \<rightharpoonup> Doc) \<Rightarrow> bool" where
  "same_set g D D' \<longleftrightarrow> (\<forall>k d. set_of_doc d = g \<longrightarrow> (D' k = Some d \<longleftrightarrow> D k = Some d))"

lemma commit_held_set:
  assumes "typed_docs D" "doc_outcome md now D L D' L' resp" "valid_docs md" "HeldByOther (L g) (m_Claimant md) now"
  shows "L' g = L g" "same_set g D D'"
proof -
  have ok: "doc_deps_ok md now D L" and D': "D' = commit_docs md (doc_change md now D L) (doc_insert md now D L) D"
    and L': "L' = next_locks md now D L" using assms(2) by (simp_all add: doc_outcome_def)
  have "g \<notin> fst ` set (doc_writes md (member_in D))"
  proof
    assume "g \<in> fst ` set (doc_writes md (member_in D))"
    then show False
      using ok assms(4) by (auto simp: doc_writes_def doc_deps_ok_def stored_set_def arr_ok_def split: option.splits)
  qed
  then show "L' g = L g" by (simp add: L' next_locks_def new_locks_def)
  note w = doc_writers_ok[OF assms(1), of md now L]
  have ins: "ins_set x \<noteq> g" if "x \<in> set (m_DocInserts md)" for x
    using ok that assms(4) by (auto simp: doc_deps_ok_def)
  have kept: "k \<notin> ref_at ` set (m_DocDeletes md)" "k \<notin> doc_at ` set (m_DocChanges md)" "k \<notin> data_at ` set (m_DocInserts md)"
    if "D k = Some d" "set_of_doc d = g" for k d
    using ok that assms(4) by (auto simp: doc_deps_ok_def)
  show "same_set g D D'"
    unfolding same_set_def
  proof (intro allI impI iffI)
    fix k d assume g: "set_of_doc d = g" and d: "D' k = Some d"
    from d[unfolded D'] show "D k = Some d" unfolding commit_docs_Some[OF assms(3)]
    proof (elim disjE bexE conjE)
      fix x assume x: "x \<in> set (m_DocInserts md)" "doc_insert md now D L x = d"
      then have "ins_set x = g" using w g by (auto simp: doc_writers_def)
      with ins[OF x(1)] show ?thesis by simp
    next
      fix c assume c: "c \<in> set (m_DocChanges md)" "doc_at c = k" "doc_change md now D L c = d"
      then obtain d0 where d0: "D k = Some d0" using ok by (auto simp: doc_deps_ok_def)
      with w c g have "set_of_doc d0 = g" by (auto simp: doc_writers_def)
      with kept(2)[OF d0 this] c show ?thesis by force
    qed
  next
    fix k d assume "set_of_doc d = g" "D k = Some d"
    with kept[of k d] show "D' k = Some d" unfolding D' commit_docs_Some[OF assms(3)] by blast
  qed
qed

definition set_held :: "mem_op \<Rightarrow> Lock \<Rightarrow> bool" where
  "set_held op l \<longleftrightarrow> lk_Claimant l \<noteq> [] \<and> lk_Claimant l \<noteq> op_claimant op \<and> op_before op (lk_At l)"

lemma step_held_set:
  assumes T: "trees_ok T okd okl" and wf: "wf_all T okd okl s" and op: "op_ok op" "step T s op r s'" and g: "set_held op (lock_of T s g)"
  shows "lock_of T s' g = lock_of T s g \<and> same_set g (doc_store s) (doc_store s')"
  using op(2)
proof cases
  case (claim shuffle draw now cq x)
  then have "same_ns s s'" using TryClaim_step[where s = s and shuffle = shuffle and draw = draw and now = now and cq = cq] wf by auto
  from same_ns_views[OF this] show ?thesis by (simp add: same_set_def)
next
  case (modify now md x)
  have t: "typed_docs (doc_store s)" using wf by (simp add: wf_docs_def doc_inv_def)
  have "HeldByOther (lock_of T s g) (m_Claimant md) now" using g modify by (simp add: set_held_def HeldByOther_def Held_def)
  moreover have "doc_outcome md now (doc_store s) (lock_of T s) (doc_store s') (lock_of T s') (fst x)" "valid_docs md"
    using Modify_step(3)[OF T wf _ _ refl, of md now s' x] op(1) modify by auto
  ultimately show ?thesis using commit_held_set[OF t] by blast
next
  case (modify_err now md e)
  with Modify_step(2)[OF T wf, of md now s' "Inl e" e] op(1) show ?thesis by (auto simp: same_set_def)
next
  case (claim_docs now cq x)
  then have "HeldByOther (lock_of T s g) (dc_Claimant cq) now" using g by (simp add: set_held_def HeldByOther_def Held_def)
  with ClaimDocs_step(3,5)[OF T wf claim_docs(3)] show ?thesis by (auto simp: same_set_def)
next
  case (claim_docs_err now cq e)
  then have "HeldByOther (lock_of T s g) (dc_Claimant cq) now" using g by (simp add: set_held_def HeldByOther_def Held_def)
  with ClaimDocs_step(3,5)[OF T wf claim_docs_err(3)] show ?thesis by (auto simp: same_set_def)
next
  case (collect ord now batch canceled n)
  with collect_step[OF T, of s ord now batch canceled] wf op(1) obtain X where
    x: "doc_store s' = doc_store s" "lock_of T s' = without X (lock_of T s)" "\<forall>g \<in> X. unneeded (doc_store s) (lock_of T s) now g" by auto
  have "g \<notin> X" using x(3) g collect by (auto simp: unneeded_def set_held_def Held_def)
  with x show ?thesis by (simp add: without_def same_set_def)
qed (simp_all add: same_set_def)

section \<open>Runs\<close>

lemma steps_keep:
  assumes "trees_ok T okd okl" "steps T s ops s'" "wf_all T okd okl s" "P s"
    "\<And>s op r s'. wf_all T okd okl s \<Longrightarrow> op \<in> set ops \<Longrightarrow> op_ok op \<Longrightarrow> step T s op r s' \<Longrightarrow> P s \<Longrightarrow> P s'"
  shows "P s'"
  using assms(2-5)
proof (induction rule: steps.induct)
  case (more s ops s' op r s'')
  then have "P s'" by auto
  moreover have "wf_all T okd okl s'" using steps_wf[OF more.hyps(1) assms(1)] more.prems(1) by blast
  ultimately show ?case using more.prems(3)[OF _ _ more.hyps(2,3)] by simp
qed simp

text \<open>Without an insertion of it, a task's version counts the operations that wrote it.\<close>

lemma steps_version:
  assumes "trees_ok T okd okl" "steps T s ops s'" "wf_all T okd okl s" "\<forall>op \<in> set ops. i \<notin> inserted_ids op" "store s' i = Some t'"
  shows "\<exists>t k. store s i = Some t \<and> k \<le> length ops \<and> t_Version t' = t_Version t + of_nat k"
  using assms(2-5)
proof (induction arbitrary: t' rule: steps.induct)
  case (start s)
  then show ?case by (intro exI[of _ t'] exI[of _ 0]) simp
next
  case (more s ops s' op r s'')
  have wf: "wf_all T okd okl s'" using steps_wf[OF more.hyps(1) assms(1)] more.prems(1) by blast
  from step_moves[OF assms(1) wf more.hyps(2,3), of i] more.prems(2,3) consider "store s' i = Some t'"
    | t1 where "store s' i = Some t1" "t_Version t' = t_Version t1 + 1" by (auto simp: task_moves_def)
  then show ?case
  proof cases
    case 1
    with more.IH[of t'] more.prems obtain t k where "store s i = Some t" "k \<le> length ops" "t_Version t' = t_Version t + of_nat k" by auto
    then show ?thesis by (intro exI[of _ t] exI[of _ k]) simp
  next
    case 2
    with more.IH[of t1] more.prems obtain t k where "store s i = Some t" "k \<le> length ops" "t_Version t1 = t_Version t + of_nat k" by auto
    with 2 show ?thesis by (intro exI[of _ t] exI[of _ "Suc k"]) simp
  qed
qed

text \<open>The tasks a modification writes, and those it names at all, each at a version.\<close>

definition writes_at :: "Modification \<Rightarrow> string \<Rightarrow> int32 \<Rightarrow> bool" where
  "writes_at md i v \<longleftrightarrow> (i, v) \<in> (\<lambda>c. (t_ID c, t_Version c)) ` set (m_Changes md) \<union> (\<lambda>d. (tid_ID d, tid_Version d)) ` set (m_Deletes md) \<union>
     (\<lambda>a. (tid_ID (ta_TaskID a), tid_Version (ta_TaskID a))) ` set (m_Arrives md)"

definition names_at :: "Modification \<Rightarrow> string \<Rightarrow> int32 \<Rightarrow> bool" where
  "names_at md i v \<longleftrightarrow> writes_at md i v \<or> (i, v) \<in> (\<lambda>d. (tid_ID d, tid_Version d)) ` set (m_Depends md)"

lemma names_stored: "task_deps_ok md now S \<Longrightarrow> names_at md i v \<Longrightarrow> \<exists>t. S i = Some t \<and> t_Version t = v"
  by (auto simp: task_deps_ok_def task_op_ok_def in_queue_def names_at_def writes_at_def)

lemma writes_written: "writes_at md i v \<Longrightarrow> i \<in> written_ids md"
  by (auto simp: writes_at_def written_ids_def)

lemma Modify_ok_step:
  assumes "trees_ok T okd okl" "wf_all T okd okl s" "docs_named md" "step T s (ModifyOp now md) None s'"
  shows "task_deps_ok md now (store s)" "store s' = commit_tasks (arrival_Changes md (store s)) now (store s)"
  using assms(4) Modify_step(3)[OF assms(1-3)] by (auto elim!: stepE)

lemma of_nat_32_zero: "(of_nat n :: 32 word) = 0 \<Longrightarrow> n < 2 ^ 32 \<Longrightarrow> n = 0"
  by (auto simp: word_of_nat_eq_0_iff dest: nat_dvd_not_less)

section \<open>Properties of every run\<close>



text \<open>
  C4: while a task is claimed, until its arrival time, no sequence of operations by other claimants
  changes, moves, claims or removes it.
\<close>

theorem task_lease_protects:
  assumes "trees_ok T okd okl" "wf_mem s" "wf_docs T okd okl s" "steps T s ops s'" "store s i = Some t" "t_Claimant t \<noteq> []"
    "\<forall>op \<in> set ops. op_claimant op \<noteq> t_Claimant t \<and> op_before op (t_At t)"
  shows "store s' i = Some t"
proof (rule steps_keep[OF assms(1,4), where P = "\<lambda>s. store s i = Some t"])
  fix s1 op r s2 assume h: "wf_all T okd okl s1" "op \<in> set ops" "op_ok op" "step T s1 op r s2" "store s1 i = Some t"
  have "task_held op t" using assms(6,7) h(2) by (auto simp: task_held_def)
  with step_moves[OF assms(1) h(1,3,4), of i] h(5) show "store s2 i = Some t" by (simp add: task_moves_def)
qed (use assms in simp_all)

text \<open>A task inserted for later is held by the claimant who inserted it; another tries to delete it.\<close>

definition ex_later :: "(docKeyEntry list, lockEntry list) EQMem" where
  "ex_later = fst (Modify list_trees 10 (NewModification ''me'' [InsertingInto ''q'' [WithID ''a'', WithArrivalTimeIn 10]]) (new_EQMem False))"

definition ex_delete :: "string \<Rightarrow> Modification" where
  "ex_delete claimant = zero_Modification\<lparr>m_Claimant := claimant, m_Deletes := [\<lparr>tid_ID = ''a'', tid_Version = 0, tid_Queue = ''q''\<rparr>]\<rparr>"

lemma ex_later_ok:
  "wf_mem ex_later" "wf_docs list_trees (sorted_wrt docKeyLess) (sorted_wrt lockKeyLess) ex_later"
proof -
  let ?md = "NewModification ''me'' [InsertingInto ''q'' [WithID ''a'', WithArrivalTimeIn 10]]"
  obtain s' r where m: "Modify list_trees 10 ?md (new_EQMem False) = (s', r)" by (cases "Modify list_trees 10 ?md (new_EQMem False)")
  have "docs_named ?md" by code_simp
  with Modify_step(1)[OF list_trees_ok _ this m] new_docs(1,3) list_trees_ok
  have "wf_all list_trees (sorted_wrt docKeyLess) (sorted_wrt lockKeyLess) s'" by blast
  then show "wf_mem ex_later" "wf_docs list_trees (sorted_wrt docKeyLess) (sorted_wrt lockKeyLess) ex_later"
    unfolding ex_later_def m by simp_all
qed

theorem task_lease_protects_witness:
  "\<exists>s' t. steps list_trees ex_later [ModifyOp 15 (ex_delete ''you'')] s' \<and> store s' ''a'' = Some t \<and> t_Claimant t = ''me''"
proof -
  obtain r s' where st: "step list_trees ex_later (ModifyOp 15 (ex_delete ''you'')) r s'" using step_total by blast
  have "op_ok (ModifyOp 15 (ex_delete ''you''))" by (simp add: docs_named_def ex_delete_def zero_Modification_def)
  from more[OF start this st] have r: "steps list_trees ex_later [ModifyOp 15 (ex_delete ''you'')] s'" by simp
  have "map_option (\<lambda>t. (t_Claimant t, t_At t)) (store ex_later ''a'') = Some (''me'', 20)" by code_simp
  then obtain t where t: "store ex_later ''a'' = Some t" "t_Claimant t = ''me''" "t_At t = 20" by auto
  from task_lease_protects[OF list_trees_ok ex_later_ok r t(1)] t r show ?thesis by (auto simp: ex_delete_def)
qed

text \<open>
  C5: while a doc set is claimed, until the claim ends, no sequence of operations by other claimants
  changes its lock or any of its docs, adds a doc to it or removes one.
\<close>

theorem doc_lease_protects:
  assumes "trees_ok T okd okl" "wf_mem s" "wf_docs T okd okl s" "steps T s ops s'" "lk_Claimant (lock_of T s g) \<noteq> []"
    "\<forall>op \<in> set ops. op_claimant op \<noteq> lk_Claimant (lock_of T s g) \<and> op_before op (lk_At (lock_of T s g))"
  shows "lock_of T s' g = lock_of T s g \<and> same_set g (doc_store s) (doc_store s')"
proof (rule steps_keep[OF assms(1,4), where P = "\<lambda>s'. lock_of T s' g = lock_of T s g \<and> same_set g (doc_store s) (doc_store s')"])
  fix s1 op r s2 assume h: "wf_all T okd okl s1" "op \<in> set ops" "op_ok op" "step T s1 op r s2"
    "lock_of T s1 g = lock_of T s g \<and> same_set g (doc_store s) (doc_store s1)"
  have "set_held op (lock_of T s1 g)" using assms(5,6) h(2,5) by (auto simp: set_held_def)
  with step_held_set[OF assms(1) h(1,3,4) this] h(5) show "lock_of T s2 g = lock_of T s g \<and> same_set g (doc_store s) (doc_store s2)"
    by (simp add: same_set_def)
qed (use assms in \<open>simp_all add: same_set_def\<close>)

theorem doc_lease_protects_witness:
  "\<exists>s'. steps list_trees ex_claimed [ClaimDocsOp 12 (ex_claim\<lparr>dc_Claimant := ''you''\<rparr>)] s' \<and> lk_Claimant (lock_of list_trees s' ex_set) = ''me''"
proof -
  obtain r s' where st: "step list_trees ex_claimed (ClaimDocsOp 12 (ex_claim\<lparr>dc_Claimant := ''you''\<rparr>)) r s'" using step_total by blast
  then have r: "steps list_trees ex_claimed [ClaimDocsOp 12 (ex_claim\<lparr>dc_Claimant := ''you''\<rparr>)] s'"
    using more[OF start _ st] by simp
  have "wf_docs list_trees (sorted_wrt docKeyLess) (sorted_wrt lockKeyLess) ex_claimed" "wf_mem ex_claimed"
    using ClaimDocs_keeps[OF list_trees_ok new_docs(3)[OF list_trees_ok, of False], of 10 ex_claim] same_queues_views new_docs(1)
    by (auto simp: ex_claimed_def)
  moreover have "lk_Claimant (lock_of list_trees ex_claimed ex_set) = ''me''" "lk_At (lock_of list_trees ex_claimed ex_set) = 15" by code_simp+
  ultimately show ?thesis using doc_lease_protects[OF list_trees_ok _ _ r, of ex_set] r by auto
qed

text \<open>
  C3: of the modifications that name a task at one version, at most one that writes it succeeds: after it,
  and until the task is inserted anew or its 32-bit version has gone all the way around, every
  modification that names the task at that version fails.
\<close>

theorem commits_at_most_once:
  assumes "trees_ok T okd okl" "wf_mem s" "wf_docs T okd okl s" "docs_named md" "step T s (ModifyOp now md) None s1" "writes_at md i v"
    "steps T s1 ops s2" "\<forall>op \<in> set ops. i \<notin> inserted_ids op" "length ops + 1 < 2 ^ 32"
    "docs_named md'" "names_at md' i v" "step T s2 (ModifyOp now' md') r s3"
  shows "r \<noteq> None"
proof
  assume "r = None"
  have wf: "wf_all T okd okl s" using assms(2,3) by blast
  have op: "op_ok (ModifyOp now md)" using assms(4) by simp
  have wf1: "wf_all T okd okl s1" using step_wf[OF assms(1) wf op assms(5)] by blast
  have wf2: "wf_all T okd okl s2" by (rule steps_wf[OF assms(7,1) wf1])
  note m = Modify_ok_step[OF assms(1) wf assms(4,5)]
  obtain t where t: "store s i = Some t" "t_Version t = v" using names_stored[OF m(1)] assms(6) by (auto simp: names_at_def)
  from assms(12) \<open>r = None\<close> have "step T s2 (ModifyOp now' md') None s3" by simp
  from names_stored[OF Modify_ok_step(1)[OF assms(1) wf2 assms(10) this] assms(11)]
  obtain t2 where t2: "store s2 i = Some t2" "t_Version t2 = v" by blast
  from steps_version[OF assms(1,7) wf1 assms(8) t2(1)] obtain t1 k where
    t1: "store s1 i = Some t1" "k \<le> length ops" "t_Version t2 = t_Version t1 + of_nat k" by blast
  have "t_Version t1 = v + 1"
    using commit_version[OF typed_store m(1), of i t1] wf t1(1) m(2) t writes_written[OF assms(6)] by auto
  then have "of_nat (Suc k) = (0 :: 32 word)" using t1(3) t2(2) by (simp add: algebra_simps)
  with of_nat_32_zero[of "Suc k"] t1(2) assms(9) show False by simp
qed

theorem commits_at_most_once_witness:
  "\<exists>s1 r s2. step list_trees ex_later (ModifyOp 15 (ex_delete ''me'')) None s1 \<and>
     step list_trees s1 (ModifyOp 16 (ex_delete ''me'')) r s2 \<and> r \<noteq> None"
proof -
  have "isl (snd (Modify list_trees 15 (ex_delete ''me'') ex_later)) = False" by code_simp
  then obtain s1 x where "Modify list_trees 15 (ex_delete ''me'') ex_later = (s1, Inr x)"
    by (cases "Modify list_trees 15 (ex_delete ''me'') ex_later"; cases "snd (Modify list_trees 15 (ex_delete ''me'') ex_later)") auto
  then have s1: "step list_trees ex_later (ModifyOp 15 (ex_delete ''me'')) None s1" by (rule modify)
  obtain r s2 where s2: "step list_trees s1 (ModifyOp 16 (ex_delete ''me'')) r s2" using step_total by blast
  have "writes_at (ex_delete ''me'') ''a'' 0" "names_at (ex_delete ''me'') ''a'' 0" "docs_named (ex_delete ''me'')"
    by (simp_all add: writes_at_def names_at_def docs_named_def ex_delete_def zero_Modification_def)
  from commits_at_most_once[OF list_trees_ok ex_later_ok this(3) s1 this(1) start _ _ this(3,2) s2] have "r \<noteq> None" by simp
  with s1 s2 show ?thesis by blast
qed

end
