(* ===== verification/SubQ.thy ===== *)
theory SubQ
  imports EntroqTypes
begin

text \<open>
  The subscription service of pkg/subq/subq.go: waiters reserve a place on the queues they wait for,
  a notification wakes at most one of them, and an entry without waiters is collected. The service is
  shared by goroutines; each of its functions holds the mutex while it runs, so they are functions on
  its state, and the selects on channels between them are steps of a transition system (SubQFacts).
\<close>

text \<open>
  A \<open>sub\<close> is an object of its own: an entry that was collected and made again is another object with
  another channel. Objects are numbered; \<open>sq_subs\<close> holds the number of listeners of each object.
\<close>

record SubQ =
  sq_qs :: "(string, nat) gomap"
  sq_subs :: "int list"

definition subq_New :: SubQ where
  "subq_New = \<lparr>sq_qs = [], sq_subs = []\<rparr>"

section \<open>One subscription\<close>

definition sub_Listeners :: "SubQ \<Rightarrow> nat option \<Rightarrow> int" where
  "sub_Listeners s p = (case p of None \<Rightarrow> 0 | Some i \<Rightarrow> sq_subs s ! i)"

definition sub_Reserved :: "SubQ \<Rightarrow> nat option \<Rightarrow> bool" where
  "sub_Reserved s p = (case p of None \<Rightarrow> False | Some i \<Rightarrow> sq_subs s ! i \<noteq> 0)"

definition sub_Add :: "nat \<Rightarrow> SubQ \<Rightarrow> SubQ" where
  "sub_Add i s = s\<lparr>sq_subs := (sq_subs s)[i := sq_subs s ! i + 1]\<rparr>"

definition sub_Done :: "nat \<Rightarrow> SubQ \<Rightarrow> goerror + SubQ" where
  "sub_Done i s =
     (if sq_subs s ! i = 0 then Inl (Panic ''Done before Add'') else Inr (s\<lparr>sq_subs := (sq_subs s)[i := sq_subs s ! i - 1]\<rparr>))"

section \<open>The service\<close>

text \<open>Notify: the object that a goroutine is started to send on, if anyone listens.\<close>

definition subq_Notify :: "string \<Rightarrow> SubQ \<Rightarrow> nat option" where
  "subq_Notify q s = (if sub_Reserved s (map_of (sq_qs s) q) then map_of (sq_qs s) q else None)"

definition subq_Listeners :: "SubQ \<Rightarrow> (string, int) gomap" where
  "subq_Listeners s =
     fold (\<lambda>(q, i) listeners. let n = sub_Listeners s (Some i) in if n > 0 then gm_set q n listeners else listeners) (sq_qs s) []"

definition tryCollect :: "string \<Rightarrow> SubQ \<Rightarrow> bool \<times> SubQ" where
  "tryCollect q s =
     (if \<not> sub_Reserved s (map_of (sq_qs s) q) then (True, s\<lparr>sq_qs := gm_del q (sq_qs s)\<rparr>) else (False, s))"

definition addListener :: "string \<Rightarrow> SubQ \<Rightarrow> nat \<times> SubQ" where
  "addListener q s =
     (case map_of (sq_qs s) q of
        Some i \<Rightarrow> (i, sub_Add i s)
      | None \<Rightarrow> let i = length (sq_subs s)
                in (i, sub_Add i (s\<lparr>sq_qs := gm_set q i (sq_qs s), sq_subs := sq_subs s @ [0]\<rparr>)))"

section \<open>Waiting\<close>

text \<open>
  What ends one round of waiting: the poll time, a notification, or the end of the context.
\<close>

datatype wake = PollExpired | Signaled string | CtxDone goerror

text \<open>
  The loop of Wait, for a condition that acts on a state. Between two rounds others act on the state;
  \<open>wake k\<close> ends round \<open>k\<close>. The loop runs for at most as many rounds as there is fuel.
\<close>

fun wait_loop :: "nat \<Rightarrow> (nat \<Rightarrow> wake) \<Rightarrow> (nat \<Rightarrow> 's \<Rightarrow> 's) \<Rightarrow> ('s \<Rightarrow> 's \<times> bool) \<Rightarrow> nat \<Rightarrow> 's \<Rightarrow> ('s \<times> goerror option) option" where
  "wait_loop 0 wake others condition k s = None"
| "wait_loop (Suc fuel) wake others condition k s =
     (case condition s of
        (s, True) \<Rightarrow> Some (s, None)
      | (s, False) \<Rightarrow>
          (case wake k of
             CtxDone e \<Rightarrow> Some (s, Some e)
           | _ \<Rightarrow> wait_loop fuel wake others condition (Suc k) (others k s)))"

text \<open>Without a condition: false once, then true.\<close>

definition default_condition :: "bool \<times> 's \<Rightarrow> (bool \<times> 's) \<times> bool" where
  "default_condition = (\<lambda>(finished, s). ((True, s), finished))"

text \<open>
  Wait: reserve a place on every queue, run the loop, and give the places back in the order of the
  deferred calls, latest first.
\<close>

fun add_listeners :: "string list \<Rightarrow> SubQ \<Rightarrow> nat list \<times> SubQ" where
  "add_listeners [] s = ([], s)"
| "add_listeners (q # qs) s = (let (i, s) = addListener q s; (is, s) = add_listeners qs s in (i # is, s))"

definition subq_Wait :: "nat \<Rightarrow> (nat \<Rightarrow> wake) \<Rightarrow> (nat \<Rightarrow> SubQ \<times> 's \<Rightarrow> SubQ \<times> 's) \<Rightarrow> string list \<Rightarrow> ('s \<Rightarrow> 's \<times> bool) \<Rightarrow>
    SubQ \<times> 's \<Rightarrow> (goerror + (SubQ \<times> 's) \<times> goerror option) option" where
  "subq_Wait fuel wake others qs condition = (\<lambda>(sq, s).
     let (is, sq) = add_listeners qs sq;
         condition' = (\<lambda>(sq, s). let (s, b) = condition s in ((sq, s), b))
     in map_option (\<lambda>((sq, s), r). sbind (foldE sub_Done (rev is) sq) (\<lambda>sq. Inr ((sq, s), r)))
          (wait_loop fuel wake others condition' 0 (sq, s)))"

end
