(* ===== verification/Backend.thy ===== *)
theory Backend
  imports EQMemDocs EQMemReads SubQ
begin

text \<open>
  The interface between the client and what stores the tasks: the Backend interface of entroq.go, and
  the in-memory backend as an implementation of it.
\<close>

text \<open>
  Every method takes the state of the backend and returns the new one with its result. Contexts are left
  out: a method that is canceled returns an error. \<open>Claim\<close>, which blocks, is not part of the record:
  backends implement it by one of the two loops over \<open>TryClaim\<close> below.
\<close>

record 's Backend =
  be_Queues :: "MatchQuery \<Rightarrow> 's \<Rightarrow> 's \<times> (goerror + (string, int) gomap)"
  be_QueueStats :: "MatchQuery \<Rightarrow> 's \<Rightarrow> 's \<times> (goerror + (string, QueueStat) gomap)"
  be_Tasks :: "TasksQuery \<Rightarrow> 's \<Rightarrow> 's \<times> (goerror + Task list)"
  be_TryClaim :: "ClaimQuery \<Rightarrow> 's \<Rightarrow> 's \<times> (goerror + Task option)"
  be_Modify :: "Modification \<Rightarrow> 's \<Rightarrow> 's \<times> (goerror + ModifyResponse)"
  be_Docs :: "DocQuery \<Rightarrow> 's \<Rightarrow> 's \<times> (goerror + Doc list)"
  be_ClaimDocs :: "DocClaim \<Rightarrow> 's \<Rightarrow> 's \<times> (goerror + DocSet list)"
  be_NamespaceStats :: "MatchQuery \<Rightarrow> 's \<Rightarrow> 's \<times> (goerror + (string, NamespaceStat) gomap)"
  be_Time :: "'s \<Rightarrow> 's \<times> (goerror + time)"

section \<open>Claims that wait\<close>

text \<open>
  PollTryClaim: between two tries it sleeps, while others act on the state; the sleep returns the error of
  the context when that ends first. The loop runs for at most as many tries as there is fuel.
\<close>

definition maxCheckInterval :: duration where
  "maxCheckInterval = 30 * time_Second"

definition startInterval :: duration where
  "startInterval = time_Second"

fun poll_loop :: "nat \<Rightarrow> (duration \<Rightarrow> 's \<Rightarrow> 's \<times> goerror option) \<Rightarrow> ('s \<Rightarrow> 's \<times> (goerror + Task option)) \<Rightarrow> duration \<Rightarrow> 's \<Rightarrow>
    ('s \<times> (goerror + Task option)) option" where
  "poll_loop 0 sleep tc curWait s = None"
| "poll_loop (Suc fuel) sleep tc curWait s =
     (case tc s of
        (s, Inl e) \<Rightarrow> Some (s, Inl e)
      | (s, Inr (Some t)) \<Rightarrow> Some (s, Inr (Some t))
      | (s, Inr None) \<Rightarrow>
          (case sleep curWait s of
             (s, Some e) \<Rightarrow> Some (s, Inl e)
           | (s, None) \<Rightarrow>
               let curWait = curWait * 2;
                   curWait = (if curWait > maxCheckInterval then maxCheckInterval else curWait)
               in poll_loop fuel sleep tc curWait s))"

definition PollTryClaim :: "nat \<Rightarrow> (duration \<Rightarrow> 's \<Rightarrow> 's \<times> goerror option) \<Rightarrow> ClaimQuery \<Rightarrow> (ClaimQuery \<Rightarrow> 's \<Rightarrow> 's \<times> (goerror + Task option)) \<Rightarrow>
    's \<Rightarrow> ('s \<times> (goerror + Task option)) option" where
  "PollTryClaim fuel sleep eq tc s = poll_loop fuel sleep (tc eq) startInterval s"

text \<open>
  WaitTryClaim: the condition that the waiter runs tries to claim and keeps what came of it.
\<close>

type_synonym 's tried = "'s \<times> Task option \<times> goerror option"

definition try_condition :: "('s \<Rightarrow> 's \<times> (goerror + Task option)) \<Rightarrow> 's tried \<Rightarrow> 's tried \<times> bool" where
  "try_condition tc = (\<lambda>(s, task, condErr).
     let (s, r) = tc s;
         (task, condErr) = (case r of Inl e \<Rightarrow> (None, Some e) | Inr t \<Rightarrow> (t, None))
     in ((s, task, condErr), task \<noteq> None \<or> condErr \<noteq> None))"

definition WaitTryClaim :: "(string list \<Rightarrow> duration \<Rightarrow> ('s tried \<Rightarrow> 's tried \<times> bool) \<Rightarrow> 's tried \<Rightarrow> ('s tried \<times> goerror option) option) \<Rightarrow>
    ClaimQuery \<Rightarrow> (ClaimQuery \<Rightarrow> 's \<Rightarrow> 's \<times> (goerror + Task option)) \<Rightarrow> 's \<Rightarrow> ('s \<times> (goerror + Task option)) option" where
  "WaitTryClaim w eq tc s =
     (let pollTime = (if cq_PollTime eq = 0 then DefaultClaimPollTime else cq_PollTime eq) in
      case w (cq_Queues eq) pollTime (try_condition (tc eq)) (s, None, None) of
        None \<Rightarrow> None
      | Some ((s, task, condErr), Some err) \<Rightarrow> Some (s, Inl err)
      | Some ((s, task, condErr), None) \<Rightarrow> Some (s, case condErr of Some e \<Rightarrow> Inl e | None \<Rightarrow> Inr task))"

section \<open>The in-memory backend\<close>

text \<open>
  What the in-memory backend takes from outside, for its calls in order: the clock (per queue for a
  claim, which reads it under the lock of the queue), the shuffle of the queues, the draws of the random
  choice, and the order of iteration over maps.
\<close>

record world =
  w_clock :: "nat \<Rightarrow> string \<Rightarrow> time"
  w_shuffle :: "nat \<Rightarrow> string list \<Rightarrow> string list"
  w_draw :: "nat \<Rightarrow> string \<Rightarrow> nat \<Rightarrow> bool \<times> bool"
  w_qlocks :: "nat \<Rightarrow> (string, qLock) gomap \<Rightarrow> (string, qLock) gomap"
  w_tasks :: "nat \<Rightarrow> (string, Task) gomap \<Rightarrow> (string, Task) gomap"
  w_nslocks :: "nat \<Rightarrow> (string, int) gomap \<Rightarrow> (string, int) gomap"

type_synonym ('dt, 'lt) mem_state = "('dt, 'lt) EQMem \<times> nat"

definition pure_call :: "(nat \<Rightarrow> ('dt, 'lt) EQMem \<Rightarrow> 'r) \<Rightarrow> ('dt, 'lt) mem_state \<Rightarrow> ('dt, 'lt) mem_state \<times> 'r" where
  "pure_call f = (\<lambda>(s, k). ((s, Suc k), f k s))"

definition mem_TryClaim :: "world \<Rightarrow> ClaimQuery \<Rightarrow> ('dt, 'lt) mem_state \<Rightarrow> ('dt, 'lt) mem_state \<times> (goerror + Task option)" where
  "mem_TryClaim W cq = (\<lambda>(s, k).
     case TryClaim (w_shuffle W k) (w_draw W k) (w_clock W k) cq s of
       Inl e \<Rightarrow> ((s, Suc k), Inl e)
     | Inr (r, s') \<Rightarrow> ((s', Suc k), Inr r))"

definition mem_Modify :: "('dt, 'lt) trees \<Rightarrow> world \<Rightarrow> Modification \<Rightarrow> ('dt, 'lt) mem_state \<Rightarrow> ('dt, 'lt) mem_state \<times> (goerror + ModifyResponse)" where
  "mem_Modify T W md = (\<lambda>(s, k).
     let (s', r) = Modify T (w_clock W k []) md s
     in ((s', Suc k), case r of Inl e \<Rightarrow> Inl e | Inr (resp, notified) \<Rightarrow> Inr resp))"

definition mem_ClaimDocs :: "('dt, 'lt) trees \<Rightarrow> world \<Rightarrow> DocClaim \<Rightarrow> ('dt, 'lt) mem_state \<Rightarrow> ('dt, 'lt) mem_state \<times> (goerror + DocSet list)" where
  "mem_ClaimDocs T W cq = (\<lambda>(s, k). let (s', r) = ClaimDocs T (w_clock W k []) cq s in ((s', Suc k), r))"

definition mem_Docs :: "('dt, 'lt) trees \<Rightarrow> DocQuery \<Rightarrow> ('dt, 'lt) mem_state \<Rightarrow> ('dt, 'lt) mem_state \<times> (goerror + Doc list)" where
  "mem_Docs T rq = (\<lambda>(s, k). case EQMem_Docs T rq s of Inl e \<Rightarrow> ((s, Suc k), Inl e) | Inr (ds, s') \<Rightarrow> ((s', Suc k), Inr ds))"

definition eqmem_backend :: "('dt, 'lt) trees \<Rightarrow> world \<Rightarrow> ('dt, 'lt) mem_state Backend" where
  "eqmem_backend T W = \<lparr>
     be_Queues = (\<lambda>qq. pure_call (\<lambda>k. EQMem_Queues (w_qlocks W k) (w_tasks W k) (w_clock W k []) qq)),
     be_QueueStats = (\<lambda>qq. pure_call (\<lambda>k. QueueStats (w_qlocks W k) (w_tasks W k) (w_clock W k []) qq)),
     be_Tasks = (\<lambda>tq. pure_call (\<lambda>k. EQMem_Tasks (w_tasks W k) (w_clock W k []) tq)),
     be_TryClaim = mem_TryClaim W,
     be_Modify = mem_Modify T W,
     be_Docs = mem_Docs T,
     be_ClaimDocs = mem_ClaimDocs T W,
     be_NamespaceStats = (\<lambda>qq. pure_call (\<lambda>k. NamespaceStats T (w_nslocks W k) (w_clock W k []) qq)),
     be_Time = pure_call (\<lambda>k s. Inr (w_clock W k []))\<rparr>"

text \<open>Claim of the in-memory backend waits with its subscription service, which is part of its state here.\<close>

definition mem_Claim :: "nat \<Rightarrow> (nat \<Rightarrow> wake) \<Rightarrow> (nat \<Rightarrow> SubQ \<times> ('dt, 'lt) mem_state tried \<Rightarrow> SubQ \<times> ('dt, 'lt) mem_state tried) \<Rightarrow> world \<Rightarrow>
    ClaimQuery \<Rightarrow> SubQ \<times> ('dt, 'lt) mem_state \<Rightarrow> ((SubQ \<times> ('dt, 'lt) mem_state) \<times> (goerror + Task option)) option" where
  "mem_Claim fuel wake others W cq = (\<lambda>(sq, s).
     WaitTryClaim (\<lambda>qs poll cond ((sq, s), t, e).
         (case subq_Wait fuel wake others qs (\<lambda>(s, t, e). let (((sq, s), t, e), b) = cond ((sq, s), t, e) in ((s, t, e), b)) (sq, s, t, e) of
            None \<Rightarrow> None
          | Some (Inl p) \<Rightarrow> Some (((sq, s), t, e), Some p)
          | Some (Inr ((sq, s, t, e), r)) \<Rightarrow> Some (((sq, s), t, e), r)))
       cq (\<lambda>cq (sq, s). let (s, r) = mem_TryClaim W cq s in ((sq, s), r)) (sq, s))"

end
