(* ===== verification/JsonSyntax.thy ===== *)
theory JsonSyntax
  imports EntroqTypes
begin

text \<open>
  The check of JSON syntax that the client makes before it sends values (json.Valid of the standard
  library): the scanner is a state machine over the bytes of the text with a stack of the objects and
  arrays it is in.
\<close>

datatype nesting = InKey | InObjectValue | InArray

datatype scan_state =
    BeginValueOrEmpty | BeginValue | BeginStringOrEmpty | BeginString | EndValue | EndTop
  | InString | InStringEsc | InStringEscU nat
  | Neg | Digits | Zero | Dot | DotDigits | Exp | ExpSign | ExpDigits
  | Literal string

definition json_space :: "char \<Rightarrow> bool" where
  "json_space c \<longleftrightarrow> c = CHR '' '' \<or> c = CHR 0x09 \<or> c = CHR 0x0D \<or> c = CHR 0x0A"

definition json_digit :: "char \<Rightarrow> bool" where
  "json_digit c \<longleftrightarrow> CHR ''0'' \<le> c \<and> c \<le> CHR ''9''"

definition json_hex :: "char \<Rightarrow> bool" where
  "json_hex c \<longleftrightarrow> json_digit c \<or> CHR ''a'' \<le> c \<and> c \<le> CHR ''f'' \<or> CHR ''A'' \<le> c \<and> c \<le> CHR ''F''"

text \<open>A value has ended: what may follow depends on what it is in.\<close>

definition end_value :: "char \<Rightarrow> nesting list \<Rightarrow> (scan_state \<times> nesting list) option" where
  "end_value c stack =
     (case stack of
        [] \<Rightarrow> if json_space c then Some (EndTop, []) else None
      | p # ps \<Rightarrow>
          if json_space c then Some (EndValue, stack)
          else case p of
                 InKey \<Rightarrow> if c = CHR '':'' then Some (BeginValue, InObjectValue # ps) else None
               | InObjectValue \<Rightarrow> if c = CHR '','' then Some (BeginString, InKey # ps)
                                  else if c = CHR ''}'' then Some (if ps = [] then EndTop else EndValue, ps) else None
               | InArray \<Rightarrow> if c = CHR '','' then Some (BeginValue, InArray # ps)
                            else if c = CHR '']'' then Some (if ps = [] then EndTop else EndValue, ps) else None)"

definition maxNestingDepth :: nat where
  "maxNestingDepth = 10000"

definition push_nesting :: "nesting \<Rightarrow> scan_state \<Rightarrow> nesting list \<Rightarrow> (scan_state \<times> nesting list) option" where
  "push_nesting p st stack = (if length stack < maxNestingDepth then Some (st, p # stack) else None)"

definition begin_value :: "char \<Rightarrow> nesting list \<Rightarrow> (scan_state \<times> nesting list) option" where
  "begin_value c stack =
     (if json_space c then Some (BeginValue, stack)
      else if c = CHR ''{'' then push_nesting InKey BeginStringOrEmpty stack
      else if c = CHR ''['' then push_nesting InArray BeginValueOrEmpty stack
      else if c = CHR 0x22 then Some (InString, stack)
      else if c = CHR ''-'' then Some (Neg, stack)
      else if c = CHR ''0'' then Some (Zero, stack)
      else if c = CHR ''t'' then Some (Literal ''rue'', stack)
      else if c = CHR ''f'' then Some (Literal ''alse'', stack)
      else if c = CHR ''n'' then Some (Literal ''ull'', stack)
      else if json_digit c then Some (Digits, stack)
      else None)"

definition begin_string :: "char \<Rightarrow> nesting list \<Rightarrow> (scan_state \<times> nesting list) option" where
  "begin_string c stack =
     (if json_space c then Some (BeginString, stack) else if c = CHR 0x22 then Some (InString, stack) else None)"

definition is_exp :: "char \<Rightarrow> bool" where
  "is_exp c \<longleftrightarrow> c = CHR ''e'' \<or> c = CHR ''E''"

definition json_step :: "char \<Rightarrow> scan_state \<times> nesting list \<Rightarrow> (scan_state \<times> nesting list) option" where
  "json_step c = (\<lambda>(st, stack). case st of
       BeginValueOrEmpty \<Rightarrow> (if json_space c then Some (BeginValueOrEmpty, stack) else if c = CHR '']'' then end_value c stack else begin_value c stack)
     | BeginValue \<Rightarrow> begin_value c stack
     | BeginStringOrEmpty \<Rightarrow> (if json_space c then Some (BeginStringOrEmpty, stack)
      else if c = CHR ''}'' then end_value c (case stack of [] \<Rightarrow> [] | _ # ps \<Rightarrow> InObjectValue # ps) else begin_string c stack)
     | BeginString \<Rightarrow> begin_string c stack
     | EndValue \<Rightarrow> end_value c stack
     | EndTop \<Rightarrow> (if json_space c then Some (EndTop, stack) else None)
     | InString \<Rightarrow> (if c = CHR 0x22 then Some (EndValue, stack) else if c = CHR 0x5C then Some (InStringEsc, stack)
      else if c < CHR 0x20 then None else Some (InString, stack))
     | InStringEsc \<Rightarrow> (if c \<in> set [CHR ''b'', CHR ''f'', CHR ''n'', CHR ''r'', CHR ''t'', CHR 0x5C, CHR ''/'', CHR 0x22] then Some (InString, stack)
      else if c = CHR ''u'' then Some (InStringEscU 3, stack) else None)
     | InStringEscU n \<Rightarrow> (if json_hex c then Some (if n = 0 then InString else InStringEscU (n - 1), stack) else None)
     | Neg \<Rightarrow> (if c = CHR ''0'' then Some (Zero, stack) else if json_digit c then Some (Digits, stack) else None)
     | Digits \<Rightarrow> (if json_digit c then Some (Digits, stack) else if c = CHR ''.'' then Some (Dot, stack)
      else if is_exp c then Some (Exp, stack) else end_value c stack)
     | Zero \<Rightarrow> (if c = CHR ''.'' then Some (Dot, stack) else if is_exp c then Some (Exp, stack) else end_value c stack)
     | Dot \<Rightarrow> (if json_digit c then Some (DotDigits, stack) else None)
     | DotDigits \<Rightarrow> (if json_digit c then Some (DotDigits, stack) else if is_exp c then Some (Exp, stack) else end_value c stack)
     | Exp \<Rightarrow> (if c = CHR ''+'' \<or> c = CHR ''-'' then Some (ExpSign, stack) else if json_digit c then Some (ExpDigits, stack) else None)
     | ExpSign \<Rightarrow> (if json_digit c then Some (ExpDigits, stack) else None)
     | ExpDigits \<Rightarrow> (if json_digit c then Some (ExpDigits, stack) else end_value c stack)
     | Literal l \<Rightarrow> (case l of
           [] \<Rightarrow> end_value c stack
         | d # ds \<Rightarrow> if c = d then Some (if ds = [] then EndValue else Literal ds, stack) else None))"

fun json_scan :: "string \<Rightarrow> scan_state \<times> nesting list \<Rightarrow> (scan_state \<times> nesting list) option" where
  "json_scan [] st = Some st"
| "json_scan (c # cs) st = (case json_step c st of Some st' \<Rightarrow> json_scan cs st' | None \<Rightarrow> None)"

text \<open>At the end of the text a number may still be open; a space ends it, as the scanner's eof does.\<close>

definition json_Valid :: "string \<Rightarrow> bool" where
  "json_Valid s =
     (case json_scan (s @ '' '') (BeginValue, []) of Some (EndTop, []) \<Rightarrow> True | _ \<Rightarrow> False)"

lemma json_Valid_examples:
  "json_Valid ''[1, -2.5e+3, {}]''" "\<not> json_Valid []" "\<not> json_Valid ''01''" "\<not> json_Valid ''[1,]''"
  by code_simp+

end
