(* ===== verification/Client.thy ===== *)
theory Client
  imports Backend JsonSyntax
begin

text \<open>
  The client: the EntroQ type and its operations (entroq.go, arrival.go) and clients of a claimant of their
  own over the same connection (client.go). The backend is a record of operations on its state. Generated
  IDs are a sequence \<open>gen\<close> of which the first \<open>eq_used\<close> are used up.
\<close>

record EntroQ =
  eq_clientID :: string
  eq_subject :: string
  eq_gen :: "nat \<Rightarrow> string"
  eq_used :: nat

section \<open>Identity\<close>

definition ClaimantSeparator :: string where
  "ClaimantSeparator = ''#''"

definition GenID :: "EntroQ \<Rightarrow> string \<times> EntroQ" where
  "GenID c = (eq_gen c (eq_used c), c\<lparr>eq_used := Suc (eq_used c)\<rparr>)"

definition newClaimant :: "EntroQ \<Rightarrow> string \<times> EntroQ" where
  "newClaimant c =
     (let (i, c') = GenID c in (if eq_subject c = [] then i else eq_subject c @ ClaimantSeparator @ i, c'))"

text \<open>
  New: the options have been applied to the client, \<open>subjectErr\<close> is the error of reading the subject, and
  \<open>backend\<close> is the backend given, \<open>opener\<close> what opening one returns.
\<close>

definition client_New :: "'b option \<Rightarrow> (goerror + 'b) option \<Rightarrow> goerror option \<Rightarrow> EntroQ \<Rightarrow> goerror + 'b \<times> EntroQ" where
  "client_New backend opener subjectErr eq =
     (case (case backend of
              Some b \<Rightarrow> Inr b
            | None \<Rightarrow> (case opener of
                         Some r \<Rightarrow> r
                       | None \<Rightarrow> Inl (PlainError ''no backend or backend opener specified''))) of
        Inl e \<Rightarrow> Inl e
      | Inr b \<Rightarrow>
          (case subjectErr of
             Some e \<Rightarrow> Inl e
           | None \<Rightarrow>
               let (claimant, eq) = newClaimant eq in
               if length claimant > MaxClaimantBytes
               then Inl (InvalidArgumentError (SubjectTooLong (eq_subject eq) (length claimant)))
               else if eq_clientID eq = []
               then let (claimant, eq) = newClaimant eq in Inr (b, eq\<lparr>eq_clientID := claimant\<rparr>)
               else Inr (b, eq)))"

section \<open>Operations\<close>

definition EntroQ_TryClaim :: "'s Backend \<Rightarrow> EntroQ \<Rightarrow> ClaimOpt list \<Rightarrow> 's \<Rightarrow> 's \<times> (goerror + Task option)" where
  "EntroQ_TryClaim B c opts s =
     (let query = claimQueryFromOpts (eq_clientID c) opts in
      case ClaimQuery_Validate query of Some e \<Rightarrow> (s, Inl e) | None \<Rightarrow> be_TryClaim B query s)"

text \<open>The blocking claim of the backend is an argument: it may not return.\<close>

definition EntroQ_Claim :: "(ClaimQuery \<Rightarrow> 's \<Rightarrow> ('s \<times> (goerror + Task option)) option) \<Rightarrow> EntroQ \<Rightarrow> ClaimOpt list \<Rightarrow> 's \<Rightarrow>
    ('s \<times> (goerror + Task option)) option" where
  "EntroQ_Claim claim c opts s =
     (let query = claimQueryFromOpts (eq_clientID c) opts in
      case ClaimQuery_Validate query of Some e \<Rightarrow> Some (s, Inl e) | None \<Rightarrow> claim query s)"

text \<open>IDs for the inserts that have none.\<close>

fun name_inserts :: "('a \<Rightarrow> string) \<Rightarrow> (string \<Rightarrow> 'a \<Rightarrow> 'a) \<Rightarrow> 'a list \<Rightarrow> EntroQ \<Rightarrow> 'a list \<times> EntroQ" where
  "name_inserts getID setID [] c = ([], c)"
| "name_inserts getID setID (ins # inss) c =
     (let (ins, c) = (if getID ins = [] then let (i, c) = GenID c in (setID i ins, c) else (ins, c));
          (inss, c) = name_inserts getID setID inss c
      in (ins # inss, c))"

definition bad_json :: "bytes \<Rightarrow> bool" where
  "bad_json val = (case val of None \<Rightarrow> False | Some b \<Rightarrow> \<not> json_Valid b)"

definition EntroQ_Modify :: "'s Backend \<Rightarrow> ModifyArg list \<Rightarrow> EntroQ \<times> 's \<Rightarrow> (EntroQ \<times> 's) \<times> (goerror + ModifyResponse)" where
  "EntroQ_Modify B modArgs = (\<lambda>(c, s).
     let mod0 = NewModification (eq_clientID c) modArgs;
         (inserts, c) = name_inserts td_ID (\<lambda>i ins. ins\<lparr>td_ID := i\<rparr>) (m_Inserts mod0) c;
         (docInserts, c) = name_inserts dd_ID (\<lambda>i ins. ins\<lparr>dd_ID := i\<rparr>) (m_DocInserts mod0) c;
         md = mod0\<lparr>m_Inserts := inserts, m_DocInserts := docInserts\<rparr>
     in if list_ex (\<lambda>ins. bad_json (td_Value ins)) (m_Inserts md) \<or> list_ex (\<lambda>chg. bad_json (t_Value chg)) (m_Changes md)
        then ((c, s), Inl (PlainError ''value is not valid JSON''))
        else case be_Modify B md s of
               (s, Inl (DependencyErr e)) \<Rightarrow> ((c, s), Inl (DependencyErr (nameArrivals md e)))
             | (s, Inl e) \<Rightarrow> ((c, s), Inl e)
             | (s, Inr resp) \<Rightarrow> ((c, s), Inr resp))"

definition EntroQ_Docs :: "'s Backend \<Rightarrow> DocQuery \<Rightarrow> 's \<Rightarrow> 's \<times> (goerror + Doc list)" where
  "EntroQ_Docs B rq s = (case DocQuery_Validate rq of Some e \<Rightarrow> (s, Inl e) | None \<Rightarrow> be_Docs B rq s)"

definition EntroQ_ClaimDocs :: "'s Backend \<Rightarrow> EntroQ \<Rightarrow> DocClaimArg list \<Rightarrow> 's \<Rightarrow> 's \<times> (goerror + DocSet list)" where
  "EntroQ_ClaimDocs B c args s =
     (let cq = NewDocClaim args;
          cq = (if dc_Claimant cq = [] then cq\<lparr>dc_Claimant := eq_clientID c\<rparr> else cq);
          cq = (if dc_Duration cq = 0 \<and> dc_TaskToMatch cq = None then cq\<lparr>dc_Duration := DefaultClaimDuration\<rparr> else cq)
      in case DocClaim_Validate cq of Some e \<Rightarrow> (s, Inl e) | None \<Rightarrow> be_ClaimDocs B cq s)"

text \<open>UpdateArrival reads the clock twice, once to see whether there is anything to do.\<close>

definition nothing_arrives :: "ArrivalEntry list \<Rightarrow> time \<Rightarrow> bool" where
  "nothing_arrives entries now =
     (let md = Arriving entries now zero_Modification in m_Arrives md = [] \<and> m_DocArrives md = [])"

definition EntroQ_UpdateArrival :: "'s Backend \<Rightarrow> time \<Rightarrow> time \<Rightarrow> ArrivalEntry list \<Rightarrow> EntroQ \<times> 's \<Rightarrow> (EntroQ \<times> 's) \<times> (goerror + ModifyResponse)" where
  "EntroQ_UpdateArrival B now now' entries st =
     (if nothing_arrives entries now
      then (st, Inl (InvalidArgumentError UpdateArrivalEmpty))
      else EntroQ_Modify B [Arriving entries now'] st)"

section \<open>Clients of a claimant of their own\<close>

record scopedClient =
  sc_eq :: EntroQ
  sc_claimant :: string

text \<open>Scoped, with the claimant that the options leave, which is empty unless one names it.\<close>

definition Scoped :: "string \<Rightarrow> EntroQ \<Rightarrow> scopedClient" where
  "Scoped claimant c =
     (if claimant = [] then let (claimant, c) = newClaimant c in \<lparr>sc_eq = c, sc_claimant = claimant\<rparr>
      else \<lparr>sc_eq = c, sc_claimant = claimant\<rparr>)"

definition scoped_Scoped :: "string \<Rightarrow> scopedClient \<Rightarrow> scopedClient" where
  "scoped_Scoped claimant c = Scoped claimant (sc_eq c)"

definition scoped_Modify :: "'s Backend \<Rightarrow> ModifyArg list \<Rightarrow> scopedClient \<times> 's \<Rightarrow> (scopedClient \<times> 's) \<times> (goerror + ModifyResponse)" where
  "scoped_Modify B args = (\<lambda>(c, s).
     let ((eq, s), r) = EntroQ_Modify B (args @ [ModifyAs (sc_claimant c)]) (sc_eq c, s) in ((c\<lparr>sc_eq := eq\<rparr>, s), r))"

definition scoped_TryClaim :: "'s Backend \<Rightarrow> scopedClient \<Rightarrow> ClaimOpt list \<Rightarrow> 's \<Rightarrow> 's \<times> (goerror + Task option)" where
  "scoped_TryClaim B c opts = EntroQ_TryClaim B (sc_eq c) (opts @ [WithClaimant (sc_claimant c)])"

definition scoped_Claim :: "(ClaimQuery \<Rightarrow> 's \<Rightarrow> ('s \<times> (goerror + Task option)) option) \<Rightarrow> scopedClient \<Rightarrow> ClaimOpt list \<Rightarrow> 's \<Rightarrow>
    ('s \<times> (goerror + Task option)) option" where
  "scoped_Claim claim c opts = EntroQ_Claim claim (sc_eq c) (opts @ [WithClaimant (sc_claimant c)])"

definition scoped_ClaimDocs :: "'s Backend \<Rightarrow> scopedClient \<Rightarrow> DocClaimArg list \<Rightarrow> 's \<Rightarrow> 's \<times> (goerror + DocSet list)" where
  "scoped_ClaimDocs B c args = EntroQ_ClaimDocs B (sc_eq c) (args @ [ClaimingSetsAs (sc_claimant c)])"

definition scoped_UpdateArrival :: "'s Backend \<Rightarrow> time \<Rightarrow> time \<Rightarrow> ArrivalEntry list \<Rightarrow> scopedClient \<times> 's \<Rightarrow>
    (scopedClient \<times> 's) \<times> (goerror + ModifyResponse)" where
  "scoped_UpdateArrival B now now' entries st =
     (if nothing_arrives entries now
      then (st, Inl (InvalidArgumentError UpdateArrivalEmpty))
      else scoped_Modify B [Arriving entries now'] st)"

end
