(* ===== verification/Worker.thy ===== *)
theory Worker
  imports Client
begin

text \<open>
  The worker of pkg/worker/worker.go and jitter.go: its errors, the commit of a handler's result, the
  renewal of a claim while the work runs, one task from claim to commit (runOne), the loop of Run and the
  state that Shutdown shares with the runs. The client is a record of the operations the worker calls,
  on a state \<open>'s\<close>, and a handler is a record of its phases. Time, randomness, the context's errors and
  the ticks that fire while the work runs are arguments.
\<close>

section \<open>The client a worker calls\<close>

record 's Client =
  cl_Claim :: "ClaimOpt list \<Rightarrow> 's \<Rightarrow> ('s \<times> (goerror + Task option)) option"   \<comment> \<open>may not return\<close>
  cl_ClaimDocs :: "DocClaimArg list \<Rightarrow> 's \<Rightarrow> 's \<times> (goerror + DocSet list)"
  cl_Modify :: "ModifyArg list \<Rightarrow> 's \<Rightarrow> 's \<times> (goerror + ModifyResponse)"
  cl_UpdateArrival :: "ArrivalEntry list \<Rightarrow> 's \<Rightarrow> 's \<times> (goerror + ModifyResponse)"

text \<open>The scoped client of client.go as such a record; \<open>now\<close> is the local clock.\<close>

definition scoped_client :: "(ClaimQuery \<Rightarrow> 's \<Rightarrow> ('s \<times> (goerror + Task option)) option) \<Rightarrow> 's Backend \<Rightarrow> ('s \<Rightarrow> time) \<Rightarrow>
    (scopedClient \<times> 's) Client" where
  "scoped_client claim B now =
     \<lparr>cl_Claim = (\<lambda>opts (c, s). map_option (\<lambda>(s, r). ((c, s), r)) (scoped_Claim claim c opts s)),
      cl_ClaimDocs = (\<lambda>args (c, s). let (s, r) = scoped_ClaimDocs B c args s in ((c, s), r)),
      cl_Modify = scoped_Modify B,
      cl_UpdateArrival = (\<lambda>entries (c, s). scoped_UpdateArrival B (now s) (now s) entries (c, s))\<rparr>"

section \<open>Errors\<close>

record RetryError =
  re_msg :: string
  re_after :: duration
  re_hasAfter :: bool
  re_moveTo :: string
  re_stop :: bool

record MoveError =
  me_msg :: string
  me_to :: string
  me_stop :: bool

text \<open>An error of the worker: a sentinel, ErrShutdown, or any other error.\<close>

datatype werror =
    WRetry RetryError
  | WMove MoveError
  | WFatal string
  | WShutdown
  | WErr goerror

definition RetryErrorf :: "string \<Rightarrow> RetryError" where
  "RetryErrorf msg = \<lparr>re_msg = msg, re_after = 0, re_hasAfter = False, re_moveTo = [], re_stop = False\<rparr>"

definition RetryError_After :: "RetryError \<Rightarrow> duration \<Rightarrow> RetryError" where
  "RetryError_After e d = e\<lparr>re_after := d, re_hasAfter := True\<rparr>"

definition OrMoveTo :: "RetryError \<Rightarrow> string \<Rightarrow> RetryError" where
  "OrMoveTo e queue = e\<lparr>re_moveTo := queue\<rparr>"

definition RetryError_ThenStop :: "RetryError \<Rightarrow> RetryError" where
  "RetryError_ThenStop e = e\<lparr>re_stop := True\<rparr>"

definition MoveErrorf :: "string \<Rightarrow> MoveError" where
  "MoveErrorf msg = \<lparr>me_msg = msg, me_to = [], me_stop = False\<rparr>"

definition MoveError_To :: "MoveError \<Rightarrow> string \<Rightarrow> MoveError" where
  "MoveError_To e queue = e\<lparr>me_to := queue\<rparr>"

definition MoveError_ThenStop :: "MoveError \<Rightarrow> MoveError" where
  "MoveError_ThenStop e = e\<lparr>me_stop := True\<rparr>"

fun AsRetry :: "werror \<Rightarrow> RetryError option" where
  "AsRetry (WRetry e) = Some e"
| "AsRetry _ = None"

fun AsMove :: "werror \<Rightarrow> MoveError option" where
  "AsMove (WMove e) = Some e"
| "AsMove _ = None"

fun AsFatal :: "werror \<Rightarrow> string option" where
  "AsFatal (WFatal e) = Some e"
| "AsFatal _ = None"

fun werror_dependency :: "werror \<Rightarrow> DependencyError option" where
  "werror_dependency (WErr e) = AsDependency e"
| "werror_dependency _ = None"

fun werror_quits :: "werror \<Rightarrow> bool" where
  "werror_quits (WErr e) \<longleftrightarrow> IsCanceled e \<or> IsTimeout e"
| "werror_quits _ \<longleftrightarrow> False"

definition isSentinelError :: "werror \<Rightarrow> bool" where
  "isSentinelError e \<longleftrightarrow> AsRetry e \<noteq> None \<or> AsMove e \<noteq> None \<or> AsFatal e \<noteq> None"

datatype outcome = ODone | ORetried | OMoved | OFailed | OLost | OReleased

definition sentinelOutcome :: "werror \<Rightarrow> outcome" where
  "sentinelOutcome e =
     (if AsMove e \<noteq> None then OMoved else if AsRetry e \<noteq> None then ORetried else OFailed)"

section \<open>Options and error queues\<close>

record runOpt =
  ro_qs :: "string list"
  ro_baseRetryDelay :: duration
  ro_docContentionDelay :: duration
  ro_maxAttempts :: int32
  ro_maxClaims :: int32
  ro_workTimeout :: duration
  ro_lease :: duration
  ro_claimant :: string

definition DefaultErrQMap :: "string \<Rightarrow> string" where
  "DefaultErrQMap inbox = inbox @ ''/err''"

text \<open>strings.ReplaceAll for a non-empty \<open>old\<close>.\<close>

function ReplaceAll :: "string \<Rightarrow> string \<Rightarrow> string \<Rightarrow> string" where
  "ReplaceAll s old new =
     (case s of
        [] \<Rightarrow> []
      | ch # rest \<Rightarrow>
          if old \<noteq> [] \<and> take (length old) s = old then new @ ReplaceAll (drop (length old) s) old new
          else ch # ReplaceAll rest old new)"
  by pat_completeness auto
termination
  by (relation "measure (\<lambda>(s, _, _). length s)") (auto simp: neq_Nil_conv)

declare ReplaceAll.simps [simp del]

definition ErrQTemplate :: "string \<Rightarrow> string \<Rightarrow> string" where
  "ErrQTemplate template =
     (if template = [] then DefaultErrQMap else (\<lambda>inbox. ReplaceAll template ''{inbox}'' inbox))"

definition ErrorQueueFor :: "(string \<Rightarrow> string) option \<Rightarrow> string \<Rightarrow> string" where
  "ErrorQueueFor errQMap inbox =
     (case errQMap of
        None \<Rightarrow> DefaultErrQMap inbox
      | Some f \<Rightarrow> if f inbox \<noteq> [] then f inbox else DefaultErrQMap inbox)"

text \<open>\<open>rnd\<close> is the random draw; rand.N reduces it to its range.\<close>

definition jitterSpread :: "int \<Rightarrow> duration \<Rightarrow> duration" where
  "jitterSpread rnd spread = (if spread \<le> 0 then 0 else rnd mod (spread + 1))"

definition jitterLater :: "int \<Rightarrow> duration \<Rightarrow> duration \<Rightarrow> duration" where
  "jitterLater rnd d spread = wrap64 (d + jitterSpread rnd spread)"

definition contentionDelay :: "int \<Rightarrow> runOpt \<Rightarrow> duration" where
  "contentionDelay rnd ro =
     (let d = ro_docContentionDelay ro; d = (if d \<le> 0 then ro_baseRetryDelay ro else d)
      in if d \<le> 0 then d else jitterLater rnd d (d sdiv 4))"

section \<open>Committing a handler's result\<close>

text \<open>
  The operations of a modification on the task and on its doc sets move to the versions that renewal left
  them at.
\<close>

definition fix_set_version :: "DocSet list \<Rightarrow> DocID \<Rightarrow> DocID" where
  "fix_set_version sets r =
     (case map_of (rev (map (\<lambda>g. ((ds_Namespace g, ds_Key g), ds_Version g)) sets)) (did_Namespace r, did_Key r) of
        Some v \<Rightarrow> r\<lparr>did_Version := v\<rparr> | None \<Rightarrow> r)"

definition doc_versions :: "DocSet list \<Rightarrow> string \<times> string \<Rightarrow> int32 option" where
  "doc_versions sets = map_of (rev (map (\<lambda>d. ((d_Namespace d, d_ID d), d_Version d)) (DocsIn sets)))"

definition fix_doc_ref :: "DocSet list \<Rightarrow> DocID \<Rightarrow> DocID" where
  "fix_doc_ref sets r =
     (case doc_versions sets (did_Namespace r, did_ID r) of Some v \<Rightarrow> r\<lparr>did_Version := v\<rparr> | None \<Rightarrow> r)"

definition fix_doc :: "DocSet list \<Rightarrow> Doc \<Rightarrow> Doc" where
  "fix_doc sets d =
     (case doc_versions sets (d_Namespace d, d_ID d) of Some v \<Rightarrow> d\<lparr>d_Version := v\<rparr> | None \<Rightarrow> d)"

definition fix_task_ref :: "Task \<Rightarrow> TaskID \<Rightarrow> TaskID" where
  "fix_task_ref task t = (if tid_ID t = t_ID task then t\<lparr>tid_Version := t_Version task\<rparr> else t)"

definition fixVersions :: "Modification \<Rightarrow> Task \<Rightarrow> DocSet list \<Rightarrow> Modification" where
  "fixVersions m task sets = m\<lparr>
     m_Changes := map (\<lambda>t. if t_ID t = t_ID task then t\<lparr>t_Version := t_Version task\<rparr> else t) (m_Changes m),
     m_Depends := map (fix_task_ref task) (m_Depends m),
     m_Deletes := map (fix_task_ref task) (m_Deletes m),
     m_Arrives := map (\<lambda>a. a\<lparr>ta_TaskID := fix_task_ref task (ta_TaskID a)\<rparr>) (m_Arrives m),
     m_DocChanges := map (fix_doc sets) (m_DocChanges m),
     m_DocDeletes := map (fix_doc_ref sets) (m_DocDeletes m),
     m_DocDepends := map (fix_doc_ref sets) (m_DocDepends m),
     m_DocArrives := map (\<lambda>a. a\<lparr>da_DocID := fix_set_version sets (da_DocID a)\<rparr>) (m_DocArrives m)\<rparr>"

definition rewritesTask :: "Modification \<Rightarrow> string \<Rightarrow> bool" where
  "rewritesTask m i \<longleftrightarrow>
     list_ex (\<lambda>t. t_ID t = i) (m_Changes m) \<or> list_ex (\<lambda>t. tid_ID t = i) (m_Deletes m)"

definition arrives :: "Modification \<Rightarrow> string \<Rightarrow> bool" where
  "arrives m i \<longleftrightarrow> list_ex (\<lambda>a. tid_ID (ta_TaskID a) = i) (m_Arrives m)"

definition onlyArrives :: "Modification \<Rightarrow> string \<Rightarrow> bool" where
  "onlyArrives m i \<longleftrightarrow> arrives m i \<and> \<not> rewritesTask m i"

text \<open>The sets whose arrival the modification has decided.\<close>

definition decided :: "Modification \<Rightarrow> string \<times> string \<Rightarrow> bool" where
  "decided m k \<longleftrightarrow>
     list_ex (\<lambda>a. (did_Namespace (da_DocID a), did_Key (da_DocID a)) = k) (m_DocArrives m) \<or>
     list_ex (\<lambda>ins. dd_by ins > 0 \<and> (dd_Namespace ins, dd_Key ins) = k) (m_DocInserts m) \<or>
     list_ex (\<lambda>d. d_by d > 0 \<and> (d_Namespace d, d_Key d) = k) (m_DocChanges m)"

text \<open>An entry that is ready now does not read the clock.\<close>

definition releasing :: "Modification \<Rightarrow> DocSet list \<Rightarrow> Modification" where
  "releasing m sets =
     (if sets = [] then m
      else Arriving [ArrivalEntry_Docs ReadyNow (filter (\<lambda>g. \<not> decided m (ds_Namespace g, ds_Key g)) sets)] 0 m)"

text \<open>A Result: its modification arguments, its hooks, and whether it is the last.\<close>

record 's Result =
  rs_mods :: "ModifyArg list"
  rs_onSuccess :: "('s \<Rightarrow> 's \<times> werror option) option"
  rs_onDependency :: "(DependencyError \<Rightarrow> 's \<Rightarrow> 's \<times> werror option) option"
  rs_stop :: bool

definition worker_Modify :: "ModifyArg list \<Rightarrow> 's Result" where
  "worker_Modify args = \<lparr>rs_mods = args, rs_onSuccess = None, rs_onDependency = None, rs_stop = False\<rparr>"

definition Result_OnSuccess :: "'s Result \<Rightarrow> ('s \<Rightarrow> 's \<times> werror option) \<Rightarrow> 's Result" where
  "Result_OnSuccess r fn = r\<lparr>rs_onSuccess := Some fn\<rparr>"

definition Result_OnDependency :: "'s Result \<Rightarrow> (DependencyError \<Rightarrow> 's \<Rightarrow> 's \<times> werror option) \<Rightarrow> 's Result" where
  "Result_OnDependency r fn = r\<lparr>rs_onDependency := Some fn\<rparr>"

definition Result_ThenStop :: "'s Result \<Rightarrow> 's Result" where
  "Result_ThenStop r = r\<lparr>rs_stop := True\<rparr>"

definition commitFailed :: "'s Result option \<Rightarrow> goerror \<Rightarrow> 's \<Rightarrow> 's \<times> werror option" where
  "commitFailed result err s =
     (case AsDependency err of
        None \<Rightarrow> (s, Some (WErr err))
      | Some depErr \<Rightarrow>
          (case (case result of None \<Rightarrow> None | Some r \<Rightarrow> rs_onDependency r) of
             None \<Rightarrow> (s, Some (WErr err))
           | Some fn \<Rightarrow>
               (case fn depErr s of
                  (s, Some ferr) \<Rightarrow> (s, Some ferr)
                | (s, None) \<Rightarrow> (s, Some (WErr err)))))"

text \<open>The modification that Finish commits, or its refusal to build one.\<close>

definition finish_mod :: "Task \<Rightarrow> 's Result option \<Rightarrow> Task option \<Rightarrow> DocSet list \<Rightarrow> werror + Modification" where
  "finish_mod initialTask result finalTask finalSets =
     (case result of
        None \<Rightarrow> Inr (releasing (NewModification [] []) finalSets)
      | Some r \<Rightarrow>
          if rs_mods r = [] then Inr (releasing (NewModification [] []) finalSets)
          else case finalTask of
                 None \<Rightarrow> Inl (WFatal ''doModify finish: nil finalized task with modifications to apply'')
               | Some task \<Rightarrow>
                   if sint (t_Version initialTask) > sint (t_Version task)
                   then Inl (WErr (PlainError ''task updated inside worker body''))
                   else let m = fixVersions (NewModification [] (rs_mods r)) task finalSets;
                            m = fold (\<lambda>c m. if t_ID c = t_ID task then ResetClaims m (t_ID c) else m) (m_Changes m) m
                        in Inr (releasing m finalSets))"

text \<open>What follows the commit: the hook on success, and the stop the result asked for.\<close>

definition after_commit :: "'s Result option \<Rightarrow> 's \<Rightarrow> 's \<times> werror option" where
  "after_commit result s =
     (case result of
        None \<Rightarrow> (s, None)
      | Some r \<Rightarrow>
          let (s, fatal) =
                (case rs_onSuccess r of
                   None \<Rightarrow> (s, None)
                 | Some fn \<Rightarrow>
                     (case fn s of
                        (s, Some err) \<Rightarrow> (s, if AsFatal err \<noteq> None then Some err else None)
                      | (s, None) \<Rightarrow> (s, None)))
          in if fatal = None \<and> rs_stop r then (s, Some WShutdown) else (s, fatal))"

text \<open>Finish of doModifyHandler: its error and whether the commit only made the task arrive.\<close>

definition doModify_Finish :: "'s Client \<Rightarrow> Task \<Rightarrow> 's Result option \<Rightarrow> Task option \<Rightarrow> DocSet list \<Rightarrow> 's \<Rightarrow>
    's \<times> werror option \<times> bool" where
  "doModify_Finish C initialTask result finalTask finalSets s =
     (case finish_mod initialTask result finalTask finalSets of
        Inl e \<Rightarrow> (s, Some e, False)
      | Inr m \<Rightarrow>
          if IsEmpty m then let (s, e) = after_commit result s in (s, e, False)
          else case cl_Modify C [WithModification m] s of
                 (s, Inl err) \<Rightarrow> let (s, e) = commitFailed result err s in (s, e, False)
               | (s, Inr _) \<Rightarrow>
                   let (s, e) = after_commit result s
                   in (s, e, case finalTask of None \<Rightarrow> False | Some t \<Rightarrow> onlyArrives m (t_ID t)))"

section \<open>Acting on sentinels\<close>

definition stopAfter :: "bool \<Rightarrow> werror option" where
  "stopAfter stop = (if stop then Some WShutdown else None)"

text \<open>
  The modification that ends a retry or a move, and what its outcome is: \<open>stop\<close> is whether the sentinel
  asked to be the last. A modification that loses a dependency leaves the task to whoever has it.
\<close>

definition settle :: "'s Client \<Rightarrow> ModifyArg \<Rightarrow> DocSet list \<Rightarrow> bool \<Rightarrow> 's \<Rightarrow> 's \<times> bool \<times> werror option" where
  "settle C arg sets stop s =
     (case cl_Modify C [arg, Arriving [ArrivalEntry_Docs ReadyNow sets] 0] s of
        (s, Inl err) \<Rightarrow> if AsDependency err \<noteq> None then (s, True, stopAfter stop) else (s, True, Some (WErr err))
      | (s, Inr _) \<Rightarrow> (s, True, stopAfter stop))"

definition handleSentinelErrors :: "goerror option \<Rightarrow> 's Client \<Rightarrow> werror \<Rightarrow> Task \<Rightarrow> DocSet list \<Rightarrow> string \<Rightarrow> runOpt \<Rightarrow> 's \<Rightarrow>
    's \<times> bool \<times> werror option" where
  "handleSentinelErrors ctxErr C sentinel task sets errQ opts s =
     (case sentinel of
        WRetry re \<Rightarrow>
          (case ctxErr of
             Some cerr \<Rightarrow> (s, True, Some (WErr cerr))
           | None \<Rightarrow>
               let delay = (if re_hasAfter re then re_after re else ro_baseRetryDelay opts);
                   q = (if re_moveTo re \<noteq> [] then re_moveTo re else errQ)
               in settle C (RetryOrQuarantine task (re_msg re) q (ro_maxAttempts opts) [ArrivalTimeBy delay]) sets (re_stop re) s)
      | WMove me \<Rightarrow>
          (case ctxErr of
             Some cerr \<Rightarrow> (s, True, Some (WErr cerr))
           | None \<Rightarrow>
               let q = (if me_to me \<noteq> [] then me_to me else errQ)
               in settle C (Quarantine task (me_msg me) q []) sets (me_stop me) s)
      | WFatal fe \<Rightarrow> (s, True, Some (WFatal fe))
      | _ \<Rightarrow> (s, False, None))"

text \<open>The texts the worker formats for the sentinels it makes itself.\<close>

datatype wmsg =
    MaxClaimsMsg int32 int32 duration
  | UndecodableMsg goerror
  | ContentionMsg DependencyError
  | LapsedMsg DependencyError
  | WorkTimeoutMsg duration werror
  | AtLimitMsg int32 int32 werror

text \<open>\<open>ctxErr\<close> is the error of the worker's context, \<open>qctxErr\<close> that of the bounded one of the attempt.\<close>

definition quarantineAtLimit :: "(wmsg \<Rightarrow> string) \<Rightarrow> goerror option \<Rightarrow> goerror option \<Rightarrow> 's Client \<Rightarrow> Task \<Rightarrow> DocSet list \<Rightarrow>
    werror \<Rightarrow> string \<Rightarrow> runOpt \<Rightarrow> 's \<Rightarrow> 's \<times> bool" where
  "quarantineAtLimit sprintf ctxErr qctxErr C task sets err errQ opts s =
     (if sint (ro_maxClaims opts) \<le> 0 \<or> sint (t_Claims task) < sint (ro_maxClaims opts) \<or> ctxErr \<noteq> None then (s, False)
      else let move = MoveErrorf (sprintf (AtLimitMsg (t_Claims task) (ro_maxClaims opts) err))
           in case handleSentinelErrors qctxErr C (WMove move) task sets errQ opts s of
                (s, _, qerr) \<Rightarrow> (s, qerr = None))"

text \<open>
  The sets in the order of namespace and key: two stable sorts. The claim is refused when one set is named
  twice, so the order of equal sets does not matter.
\<close>

definition acquireDocs :: "'s Client \<Rightarrow> Task \<Rightarrow> DocClaimArg list option \<Rightarrow> 's \<Rightarrow> 's \<times> (goerror + DocSet list)" where
  "acquireDocs C task tr s =
     (case tr of
        None \<Rightarrow> (s, Inr [])
      | Some args \<Rightarrow>
          let sets = dc_Sets (NewDocClaim args) in
          if sets = [] then (s, Inr [])
          else let sets = sort_key dsc_Namespace (sort_key dsc_Key sets)
               in cl_ClaimDocs C (map applyDocClaim sets @ [MatchingLeaseOf task]) s)"

section \<open>Renewing\<close>

record held =
  hl_task :: Task
  hl_sets :: "DocSet list"

text \<open>Both clamps of Sub and max 0 apply to the granted lease.\<close>

definition grantedLease :: "Task \<Rightarrow> duration" where
  "grantedLease t = max 0 (time_Sub (t_At t) (t_Modified t))"

definition renewInterval :: "Task \<Rightarrow> duration" where
  "renewInterval t = RenewalDurationFor (grantedLease t)"

definition renewalMargin :: "Task \<Rightarrow> duration" where
  "renewalMargin t = wrap64 (grantedLease t - renewInterval t)"

definition nextRenewalRetry :: "duration \<Rightarrow> duration \<Rightarrow> duration \<Rightarrow> duration" where
  "nextRenewalRetry latest margin interval =
     (if margin \<le> 0 then interval
      else let next = (if latest > 0 then wrap64 (latest * 2) else margin sdiv 8) in min next interval)"

definition relocked :: "DocSet \<Rightarrow> DocSet \<Rightarrow> DocSet" where
  "relocked g l = g\<lparr>ds_Version := ds_Version l, ds_Claimant := ds_Claimant l, ds_At := ds_At l,
     ds_NumDocs := ds_NumDocs l,
     ds_Docs := map (\<lambda>d. d\<lparr>d_Version := ds_Version l, d_Claimant := ds_Claimant l, d_At := ds_At l\<rparr>) (ds_Docs g)\<rparr>"

definition lostClaimErrorf :: "held \<Rightarrow> goerror" where
  "lostClaimErrorf h = DependencyErr (zero_DependencyError\<lparr>de_Depends := [IDVersion (hl_task h)]\<rparr>)"

text \<open>The loop over the sets: each at the lock that the response gives it.\<close>

fun relock_all :: "((string \<times> string) \<Rightarrow> DocSet option) \<Rightarrow> DocSet list \<Rightarrow> DocSet list option" where
  "relock_all locks [] = Some []"
| "relock_all locks (g # gs) =
     (case locks (ds_Namespace g, ds_Key g) of
        None \<Rightarrow> None
      | Some l \<Rightarrow> map_option ((#) (relocked g l)) (relock_all locks gs))"

definition renewed :: "held \<Rightarrow> ModifyResponse \<Rightarrow> goerror + held" where
  "renewed h resp =
     (case mr_ChangedTasks resp of
        [t] \<Rightarrow>
          if t_ID t \<noteq> t_ID (hl_task h) then Inl (lostClaimErrorf h)
          else (let locks = map_of (rev (map (\<lambda>l. ((ds_Namespace l, ds_Key l), l)) (mr_ChangedSets resp)))
                in case relock_all locks (hl_sets h) of
                     None \<Rightarrow> Inl (lostClaimErrorf h)
                   | Some sets \<Rightarrow> Inr \<lparr>hl_task = t, hl_sets = sets\<rparr>)
      | _ \<Rightarrow> Inl (lostClaimErrorf h))"

text \<open>
  The renewal goroutine: what it holds, the next wait, the wait before the last retry, and why it stopped
  if it did. \<open>renew_tick\<close> is one firing of its timer; \<open>rnd\<close> is the random draw of a retry.
\<close>

record renewer =
  rn_cur :: held
  rn_next :: duration
  rn_retryDelay :: duration
  rn_stopErr :: "goerror option"

definition renew_tick :: "'s Client \<Rightarrow> duration \<Rightarrow> duration \<Rightarrow> duration \<Rightarrow> int \<Rightarrow> renewer \<times> 's \<Rightarrow> renewer \<times> 's" where
  "renew_tick C granted interval margin rnd = (\<lambda>(rn, s).
     let rn = rn\<lparr>rn_next := interval\<rparr> in
     if rn_stopErr rn \<noteq> None then (rn, s)
     else case cl_UpdateArrival C [ArrivalEntry_Docs (ArrivalEntry_Tasks (ReadyIn granted) [hl_task (rn_cur rn)]) (hl_sets (rn_cur rn))] s of
            (s, Inr resp) \<Rightarrow>
              (case renewed (rn_cur rn) resp of
                 Inl err \<Rightarrow> (rn\<lparr>rn_stopErr := Some err\<rparr>, s)
               | Inr h \<Rightarrow> (rn\<lparr>rn_cur := h, rn_retryDelay := 0\<rparr>, s))
          | (s, Inl err) \<Rightarrow>
              if IsCanceled err then (rn, s)
              else if AsDependency err \<noteq> None \<or> IsUnsupported err then (rn\<lparr>rn_stopErr := Some err\<rparr>, s)
              else let retryDelay = nextRenewalRetry (rn_retryDelay rn) margin interval
                   in (rn\<lparr>rn_retryDelay := retryDelay, rn_next := jitterLater rnd retryDelay (retryDelay sdiv 4)\<rparr>, s))"

text \<open>
  The ticks that fire before the work ends, each after what others did to the state meanwhile. The timer
  is not set when the interval is not positive.
\<close>

fun renew_ticks :: "'s Client \<Rightarrow> duration \<Rightarrow> duration \<Rightarrow> duration \<Rightarrow> (('s \<Rightarrow> 's) \<times> int) list \<Rightarrow> renewer \<times> 's \<Rightarrow> renewer \<times> 's" where
  "renew_ticks C granted interval margin [] st = st"
| "renew_ticks C granted interval margin ((others, rnd) # ticks) (rn, s) =
     renew_ticks C granted interval margin ticks (renew_tick C granted interval margin rnd (rn, others s))"

text \<open>
  The work runs under a context whose cause of cancellation, if it is canceled, is its argument: the error
  that stopped renewal, or the error of the context around both. The result is the error of renewal, the
  error of the work, what is held in the end, and what the work's closure assigned. A work error that is a
  cancellation counts as the cause, and as none when the context was not canceled.
\<close>

definition doWhileRenewing :: "'s Client \<Rightarrow> duration \<Rightarrow> held \<Rightarrow> (('s \<Rightarrow> 's) \<times> int) list \<Rightarrow> goerror option \<Rightarrow>
    (goerror option \<Rightarrow> 's \<Rightarrow> 's \<times> werror option \<times> 'w) \<Rightarrow> 's \<Rightarrow> 's \<times> goerror option \<times> werror option \<times> held \<times> 'w" where
  "doWhileRenewing C sinceClaim h ticks ctxErr body s =
     (let granted = grantedLease (hl_task h); interval = renewInterval (hl_task h); margin = renewalMargin (hl_task h);
          rn = \<lparr>rn_cur = h, rn_next = max 0 (wrap64 (interval - sinceClaim)), rn_retryDelay = 0, rn_stopErr = None\<rparr>;
          (rn, s) = (if interval > 0 then renew_ticks C granted interval margin ticks (rn, s) else (rn, s));
          cause = (if rn_stopErr rn \<noteq> None then rn_stopErr rn else ctxErr);
          (s, err, assigned) = body cause s;
          err = (case err of
                   Some (WErr Canceled) \<Rightarrow> map_option WErr cause
                 | _ \<Rightarrow> err)
      in (s, rn_stopErr rn, err, rn_cur rn, assigned))"

section \<open>One task\<close>

text \<open>
  A handler: its phases on the work so far. DoWork is told why its context was canceled, if it was, and
  leaves a result \<open>'r\<close> for Finish; Finish also says whether its commit only made the task arrive.
\<close>

record 'v Work =
  wk_Task :: Task
  wk_Value :: 'v
  wk_Sets :: "DocSet list"

record ('v, 'r, 's) Handler =
  hd_TakeDocs :: "'v Work \<Rightarrow> 's \<Rightarrow> 's \<times> (werror + DocClaimArg list option)"
  hd_CueWork :: "'v Work \<Rightarrow> 's \<Rightarrow> 's \<times> werror option"
  hd_DoWork :: "goerror option \<Rightarrow> 'v Work \<Rightarrow> 's \<Rightarrow> 's \<times> (werror + 'r option)"
  hd_Finish :: "'r option \<Rightarrow> 'v Work \<Rightarrow> 's \<Rightarrow> 's \<times> werror option \<times> bool"

text \<open>The phases of doModifyHandler for its three functions, and of funcHandler for its four.\<close>

definition doModifyHandler :: "'s Client \<Rightarrow> ('v Work \<Rightarrow> 's \<Rightarrow> 's \<times> (werror + DocClaimArg list option)) option \<Rightarrow>
    ('v Work \<Rightarrow> 's \<Rightarrow> 's \<times> werror option) option \<Rightarrow> (goerror option \<Rightarrow> 'v Work \<Rightarrow> 's \<Rightarrow> 's \<times> (werror + 's Result option)) option \<Rightarrow>
    Task \<Rightarrow> ('v, 's Result, 's) Handler" where
  "doModifyHandler C take_fn cue_fn doModify initialTask =
     \<lparr>hd_TakeDocs = (case take_fn of None \<Rightarrow> (\<lambda>w s. (s, Inr None)) | Some f \<Rightarrow> f),
      hd_CueWork = (case cue_fn of None \<Rightarrow> (\<lambda>w s. (s, None)) | Some f \<Rightarrow> f),
      hd_DoWork = (case doModify of None \<Rightarrow> (\<lambda>c w s. (s, Inl (WFatal ''no work function specified''))) | Some f \<Rightarrow> f),
      hd_Finish = (\<lambda>r w s. doModify_Finish C initialTask r (Some (wk_Task w)) (wk_Sets w) s)\<rparr>"

definition funcHandler :: "('v Work \<Rightarrow> 's \<Rightarrow> 's \<times> (werror + DocClaimArg list option)) option \<Rightarrow>
    ('v Work \<Rightarrow> 's \<Rightarrow> 's \<times> werror option) option \<Rightarrow> (goerror option \<Rightarrow> 'v Work \<Rightarrow> 's \<Rightarrow> 's \<times> werror option) option \<Rightarrow>
    ('v Work \<Rightarrow> 's \<Rightarrow> 's \<times> werror option) option \<Rightarrow> ('v, 'r, 's) Handler" where
  "funcHandler take_fn cue_fn do_fn finish_fn =
     \<lparr>hd_TakeDocs = (case take_fn of None \<Rightarrow> (\<lambda>w s. (s, Inr None)) | Some f \<Rightarrow> f),
      hd_CueWork = (case cue_fn of None \<Rightarrow> (\<lambda>w s. (s, None)) | Some f \<Rightarrow> f),
      hd_DoWork = (\<lambda>c w s. case do_fn of
                      None \<Rightarrow> (s, Inl (WFatal ''no work function specified''))
                    | Some f \<Rightarrow> (case f c w s of (s, Some e) \<Rightarrow> (s, Inl e) | (s, None) \<Rightarrow> (s, Inr None))),
      hd_Finish = (\<lambda>r w s. case finish_fn of None \<Rightarrow> (s, None, False) | Some f \<Rightarrow> (case f w s of (s, e) \<Rightarrow> (s, e, False)))\<rparr>"

text \<open>The options of a worker, and the maker of handlers that New derives from them.\<close>

record ('v, 's) workerOpts =
  wo_makeHandler :: "(goerror + (Task \<Rightarrow> ('v, 's Result, 's) Handler)) option"
  wo_take :: "('v Work \<Rightarrow> 's \<Rightarrow> 's \<times> (werror + DocClaimArg list option)) option"
  wo_cue :: "('v Work \<Rightarrow> 's \<Rightarrow> 's \<times> werror option) option"
  wo_doModify :: "(goerror option \<Rightarrow> 'v Work \<Rightarrow> 's \<Rightarrow> 's \<times> (werror + 's Result option)) option"
  wo_do :: "(goerror option \<Rightarrow> 'v Work \<Rightarrow> 's \<Rightarrow> 's \<times> werror option) option"
  wo_finish :: "('v Work \<Rightarrow> 's \<Rightarrow> 's \<times> werror option) option"

definition worker_New :: "'s Client \<Rightarrow> ('v, 's) workerOpts \<Rightarrow> goerror + (Task \<Rightarrow> ('v, 's Result, 's) Handler)" where
  "worker_New C wo =
     (case wo_makeHandler wo of
        Some mk \<Rightarrow> mk
      | None \<Rightarrow>
          (case wo_doModify wo of
             Some f \<Rightarrow> Inr (doModifyHandler C (wo_take wo) (wo_cue wo) (Some f))
           | None \<Rightarrow> Inr (\<lambda>t. funcHandler (wo_take wo) (wo_cue wo) (wo_do wo) (wo_finish wo))))"

text \<open>
  What a run of one task meets: whether the worker was closed when the claim was to start, the handler it
  makes, how the value decodes, the time since the claim, the ticks of the renewal timer, the error of the
  work's context when the body ended, of the worker's context when a sentinel is acted on and of the bounded
  context of the last quarantine, a random draw, and the formatting of messages.
\<close>

record ('v, 'r, 's) runEnv =
  rv_closed :: bool
  rv_order :: "string list \<Rightarrow> string list"
  rv_makeHandler :: "goerror + (Task \<Rightarrow> ('v, 'r, 's) Handler)"
  rv_decode :: "bytes \<Rightarrow> goerror + 'v"
  rv_errQMap :: "(string \<Rightarrow> string) option"
  rv_since :: duration
  rv_ticks :: "(('s \<Rightarrow> 's) \<times> int) list"
  rv_workErr :: "goerror option"
  rv_ctxErr :: "goerror option"
  rv_qctxErr :: "goerror option"
  rv_rnd :: int
  rv_sprintf :: "wmsg \<Rightarrow> string"

text \<open>How a task ended and the error of runOne.\<close>

type_synonym run_end = "outcome \<times> werror option"

definition sentinel_end :: "('v, 'r, 's) runEnv \<Rightarrow> 's Client \<Rightarrow> runOpt \<Rightarrow> outcome \<Rightarrow> werror \<Rightarrow> Task \<Rightarrow> DocSet list \<Rightarrow> string \<Rightarrow> 's \<Rightarrow> 's \<times> run_end" where
  "sentinel_end env C opts out e task sets errQ s =
     (case handleSentinelErrors (rv_ctxErr env) C e task sets errQ opts s of (s, _, herr) \<Rightarrow> (s, out, herr))"

text \<open>A phase before renewal failed: a sentinel acts on the task, any other error stops the worker.\<close>

definition phase_failed :: "('v, 'r, 's) runEnv \<Rightarrow> 's Client \<Rightarrow> runOpt \<Rightarrow> werror \<Rightarrow> Task \<Rightarrow> DocSet list \<Rightarrow> string \<Rightarrow> 's \<Rightarrow> 's \<times> run_end" where
  "phase_failed env C opts e task sets errQ s =
     (if isSentinelError e then sentinel_end env C opts (sentinelOutcome e) e task sets errQ s
      else case quarantineAtLimit (rv_sprintf env) (rv_ctxErr env) (rv_qctxErr env) C task sets e errQ opts s of
             (s, moved) \<Rightarrow> (s, if moved then OMoved else OFailed, Some e))"

text \<open>Phase 5: the commit.\<close>

definition finish_phase :: "('v, 'r, 's) runEnv \<Rightarrow> 's Client \<Rightarrow> runOpt \<Rightarrow> ('v, 'r, 's) Handler \<Rightarrow> 'r option \<Rightarrow> 'v Work \<Rightarrow> string \<Rightarrow> 's \<Rightarrow> 's \<times> run_end" where
  "finish_phase env C opts handler result wrk errQ s =
     (case hd_Finish handler result wrk s of
        (s, None, released) \<Rightarrow> (s, if released then OReleased else ODone, None)
      | (s, Some err, released) \<Rightarrow>
          if err = WShutdown then (s, if released then OReleased else ODone, Some err)
          else (case handleSentinelErrors (rv_ctxErr env) C err (wk_Task wrk) (wk_Sets wrk) errQ opts s of
                  (s, True, serr) \<Rightarrow> (s, OFailed, serr)
                | (s, False, _) \<Rightarrow>
                    if werror_dependency err \<noteq> None then (s, ORetried, None) else (s, OFailed, Some err)))"

text \<open>Phase 4: the work under renewal, and what follows from how both ended.\<close>

definition work_phase :: "('v, 'r, 's) runEnv \<Rightarrow> 's Client \<Rightarrow> runOpt \<Rightarrow> ('v, 'r, 's) Handler \<Rightarrow> 'v Work \<Rightarrow> string \<Rightarrow> 's \<Rightarrow> 's \<times> run_end" where
  "work_phase env C opts handler wrk errQ s =
     (let body = (\<lambda>cause s.
            case hd_DoWork handler cause wrk s of
              (s, Inr result) \<Rightarrow> (s, None, None, None, result)
            | (s, Inl err) \<Rightarrow> if isSentinelError err then (s, None, Some err, None, None) else (s, Some err, None, Some err, None))
      in case doWhileRenewing C (rv_since env) \<lparr>hl_task = wk_Task wrk, hl_sets = wk_Sets wrk\<rparr> (rv_ticks env) (rv_workErr env) body s of
           (s, renewErr, handleErr, final, sentinelErr, bodyErr, result) \<Rightarrow>
             (case renewErr of
                Some rerr \<Rightarrow>
                  (case sentinelErr of
                     Some (WFatal fe) \<Rightarrow> (s, OFailed, Some (WFatal fe))
                   | _ \<Rightarrow> if AsDependency rerr \<noteq> None then (s, OLost, None) else (s, OFailed, Some (WErr rerr)))
              | None \<Rightarrow>
                  (case sentinelErr of
                     Some serr \<Rightarrow> sentinel_end env C opts (sentinelOutcome serr) serr (hl_task final) (hl_sets final) errQ s
                   | None \<Rightarrow>
                       (case handleErr of
                          Some herr \<Rightarrow>
                            if ro_workTimeout opts > 0 \<and> rv_workErr env = Some DeadlineExceeded
                            then sentinel_end env C opts ORetried
                                   (WRetry (RetryErrorf (rv_sprintf env (WorkTimeoutMsg (ro_workTimeout opts) herr))))
                                   (hl_task final) (hl_sets final) errQ s
                            else (case (case bodyErr of
                                          None \<Rightarrow> (s, False)
                                        | Some berr \<Rightarrow> quarantineAtLimit (rv_sprintf env) (rv_ctxErr env) (rv_qctxErr env) C
                                                         (hl_task final) (hl_sets final) berr errQ opts s) of
                                    (s, moved) \<Rightarrow> (s, if moved then OMoved else OFailed, Some herr))
                        | None \<Rightarrow>
                            finish_phase env C opts handler result
                              (wrk\<lparr>wk_Task := hl_task final, wk_Sets := hl_sets final\<rparr>) errQ s))))"

text \<open>Phases 2 and 3: the doc sets, and the cue.\<close>

definition docs_phase :: "('v, 'r, 's) runEnv \<Rightarrow> 's Client \<Rightarrow> runOpt \<Rightarrow> ('v, 'r, 's) Handler \<Rightarrow> Task \<Rightarrow> 'v \<Rightarrow> string \<Rightarrow> 's \<Rightarrow> 's \<times> run_end" where
  "docs_phase env C opts handler task val errQ s =
     (let wrk = \<lparr>wk_Task = task, wk_Value = val, wk_Sets = []\<rparr> in
      case hd_TakeDocs handler wrk s of
        (s, Inl e) \<Rightarrow> phase_failed env C opts e task [] errQ s
      | (s, Inr tr) \<Rightarrow>
          (case acquireDocs C task tr s of
             (s, Inl err) \<Rightarrow>
               (case AsDependency err of
                  Some depErr \<Rightarrow>
                    let msg = (if HasMissing depErr then LapsedMsg depErr else ContentionMsg depErr);
                        retry = RetryError_After (RetryErrorf (rv_sprintf env msg)) (contentionDelay (rv_rnd env) opts)
                    in sentinel_end env C opts ORetried (WRetry retry) task [] errQ s
                | None \<Rightarrow> (s, OFailed, Some (WErr err)))
           | (s, Inr sets) \<Rightarrow>
               let wrk = wrk\<lparr>wk_Sets := sets\<rparr> in
               (case hd_CueWork handler wrk s of
                  (s, Some e) \<Rightarrow> phase_failed env C opts e task sets errQ s
                | (s, None) \<Rightarrow> work_phase env C opts handler wrk errQ s)))"

text \<open>What runOne does with a claimed task.\<close>

definition run_claimed :: "('v, 'r, 's) runEnv \<Rightarrow> 's Client \<Rightarrow> runOpt \<Rightarrow> Task \<Rightarrow> 's \<Rightarrow> 's \<times> run_end" where
  "run_claimed env C opts task s =
     (let errQ = ErrorQueueFor (rv_errQMap env) (t_Queue task) in
      if sint (ro_maxClaims opts) > 0 \<and> sint (t_Claims task) > sint (ro_maxClaims opts)
      then (case handleSentinelErrors (rv_ctxErr env) C
                   (WMove (MoveErrorf (rv_sprintf env (MaxClaimsMsg (t_Claims task) (ro_maxClaims opts) (ro_lease opts))))) task [] errQ opts s of
              (s, _, Some herr) \<Rightarrow> (s, OFailed, Some herr)
            | (s, _, None) \<Rightarrow> (s, OMoved, None))
      else case rv_makeHandler env of
             Inl e \<Rightarrow> (s, OFailed, Some (WFatal ''failed to make handler''))
           | Inr mk \<Rightarrow>
               (case rv_decode env (t_Value task) of
                  Inl e \<Rightarrow> sentinel_end env C opts OMoved (WMove (MoveErrorf (rv_sprintf env (UndecodableMsg e)))) task [] errQ s
                | Inr val \<Rightarrow> docs_phase env C opts (mk task) task val errQ s))"

text \<open>runOne: \<open>None\<close> when the claim never returns; no outcome is counted when no task was claimed.\<close>

definition runOne :: "('v, 'r, 's) runEnv \<Rightarrow> 's Client \<Rightarrow> runOpt \<Rightarrow> 's \<Rightarrow> ('s \<times> outcome option \<times> werror option) option" where
  "runOne env C opts s =
     (if rv_closed env then Some (s, None, Some WShutdown)
      else case cl_Claim C [From (rv_order env) (ro_qs opts), ClaimFor (ro_lease opts)] s of
             None \<Rightarrow> None
           | Some (s, Inl err) \<Rightarrow> Some (s, None, Some (WErr err))
           | Some (s, Inr None) \<Rightarrow> Some (s, None, Some (WErr (Panic ''nil task'')))
           | Some (s, Inr (Some task)) \<Rightarrow>
               (case run_claimed env C opts task s of (s, out, err) \<Rightarrow> Some (s, Some out, err)))"

section \<open>The loop\<close>

text \<open>What Run returns for the error that ended its loop.\<close>

definition run_return :: "werror \<Rightarrow> werror option" where
  "run_return err = (if err = WShutdown \<or> werror_quits err then None else Some err)"

text \<open>
  The loop of Run over what each round meets: the tasks' outcomes, and what Run returned, or \<open>None\<close>
  while it has not returned.
\<close>

fun run_loop :: "'s Client \<Rightarrow> runOpt \<Rightarrow> ('v, 'r, 's) runEnv list \<Rightarrow> 's \<Rightarrow> 's \<times> outcome list \<times> werror option option" where
  "run_loop C opts [] s = (s, [], None)"
| "run_loop C opts (env # envs) s =
     (case runOne env C opts s of
        None \<Rightarrow> (s, [], None)
      | Some (s, out, Some err) \<Rightarrow> (s, (case out of None \<Rightarrow> [] | Some o1 \<Rightarrow> [o1]), Some (run_return err))
      | Some (s, out, None) \<Rightarrow>
          (case run_loop C opts envs s of
             (s, outs, r) \<Rightarrow> (s, (case out of None \<Rightarrow> [] | Some o1 \<Rightarrow> [o1]) @ outs, r)))"

definition DefaultRetryDelay :: duration where
  "DefaultRetryDelay = 30 * time_Second"

definition DefaultWorkTimeout :: duration where
  "DefaultWorkTimeout = 5 * time_Minute"

definition DefaultMaxClaims :: int32 where
  "DefaultMaxClaims = 5"

definition Watching :: "string list \<Rightarrow> runOpt \<Rightarrow> runOpt" where
  "Watching qs ro = ro\<lparr>ro_qs := qs\<rparr>"

definition WithLease :: "duration \<Rightarrow> runOpt \<Rightarrow> runOpt" where
  "WithLease d ro = ro\<lparr>ro_lease := d\<rparr>"

definition WithMaxAttempts :: "int32 \<Rightarrow> runOpt \<Rightarrow> runOpt" where
  "WithMaxAttempts m ro = ro\<lparr>ro_maxAttempts := m\<rparr>"

definition WithMaxClaims :: "int32 \<Rightarrow> runOpt \<Rightarrow> runOpt" where
  "WithMaxClaims m ro = ro\<lparr>ro_maxClaims := m\<rparr>"

definition AsClaimant :: "string \<Rightarrow> runOpt \<Rightarrow> runOpt" where
  "AsClaimant i ro = ro\<lparr>ro_claimant := i\<rparr>"

definition WithBaseRetryDelay :: "duration \<Rightarrow> runOpt \<Rightarrow> runOpt" where
  "WithBaseRetryDelay d ro = ro\<lparr>ro_baseRetryDelay := d\<rparr>"

definition WithDocContentionDelay :: "duration \<Rightarrow> runOpt \<Rightarrow> runOpt" where
  "WithDocContentionDelay d ro = ro\<lparr>ro_docContentionDelay := d\<rparr>"

definition WithWorkTimeout :: "duration \<Rightarrow> runOpt \<Rightarrow> runOpt" where
  "WithWorkTimeout d ro = ro\<lparr>ro_workTimeout := d\<rparr>"

definition default_runOpt :: runOpt where
  "default_runOpt = \<lparr>ro_qs = [], ro_baseRetryDelay = DefaultRetryDelay, ro_docContentionDelay = 0, ro_maxAttempts = 0,
     ro_maxClaims = DefaultMaxClaims, ro_workTimeout = DefaultWorkTimeout, ro_lease = DefaultClaimDuration, ro_claimant = []\<rparr>"

text \<open>The client of a run: one of a claimant of its own.\<close>

definition worker_newClient :: "string \<Rightarrow> EntroQ \<Rightarrow> scopedClient" where
  "worker_newClient claimant c = Scoped claimant c"

text \<open>\<open>closed\<close> is whether the worker was shut down before the run joined it.\<close>

definition Run :: "bool \<Rightarrow> 's Client \<Rightarrow> (runOpt \<Rightarrow> runOpt) list \<Rightarrow> ('v, 'r, 's) runEnv list \<Rightarrow> 's \<Rightarrow> 's \<times> outcome list \<times> werror option option" where
  "Run closed C opts envs s =
     (let ro = fold (\<lambda>opt. opt) opts default_runOpt in
      if ro_qs ro = [] then (s, [], Some (Some (WErr (PlainError ''no queues specified to work on''))))
      else if closed then (s, [], Some (Some WShutdown))
      else run_loop C ro envs s)"

section \<open>Shutdown\<close>

text \<open>
  The state under the worker's mutex. A run is canceled or not, and has a claim in flight, which is
  canceled or not, or none.
\<close>

record activeRun =
  ar_canceled :: bool
  ar_claim :: "bool option"

record 'k Worker =
  wk_closed :: bool
  wk_runs :: "('k, activeRun) gomap"
  wk_wg :: int

definition join :: "'k \<Rightarrow> 'k Worker \<Rightarrow> werror + 'k Worker" where
  "join run w =
     (if wk_closed w then Inl WShutdown
      else Inr (w\<lparr>wk_runs := gm_set run \<lparr>ar_canceled = False, ar_claim = None\<rparr> (wk_runs w), wk_wg := wk_wg w + 1\<rparr>))"

definition leave :: "'k \<Rightarrow> 'k Worker \<Rightarrow> 'k Worker" where
  "leave run w = w\<lparr>wk_runs := gm_del run (wk_runs w), wk_wg := wk_wg w - 1\<rparr>"

definition on_run :: "'k \<Rightarrow> (activeRun \<Rightarrow> activeRun) \<Rightarrow> 'k Worker \<Rightarrow> 'k Worker" where
  "on_run run f w = w\<lparr>wk_runs := map (\<lambda>(k, r). (k, if k = run then f r else r)) (wk_runs w)\<rparr>"

definition startClaim :: "'k \<Rightarrow> 'k Worker \<Rightarrow> werror + 'k Worker" where
  "startClaim run w = (if wk_closed w then Inl WShutdown else Inr (on_run run (\<lambda>r. r\<lparr>ar_claim := Some False\<rparr>) w))"

definition endClaim :: "'k \<Rightarrow> 'k Worker \<Rightarrow> 'k Worker" where
  "endClaim run = on_run run (\<lambda>r. r\<lparr>ar_claim := None\<rparr>)"

definition closeRuns :: "(activeRun \<Rightarrow> activeRun) \<Rightarrow> 'k Worker \<Rightarrow> 'k Worker" where
  "closeRuns stop w = w\<lparr>wk_closed := True, wk_runs := map (\<lambda>(k, r). (k, stop r)) (wk_runs w)\<rparr>"

text \<open>Shutdown closes the worker, and cancels every run when its context ends before the runs do.\<close>

definition Shutdown_begin :: "'k Worker \<Rightarrow> 'k Worker" where
  "Shutdown_begin = closeRuns (\<lambda>r. r\<lparr>ar_claim := map_option (\<lambda>_. True) (ar_claim r)\<rparr>)"

definition Shutdown_cancel :: "'k Worker \<Rightarrow> 'k Worker" where
  "Shutdown_cancel = closeRuns (\<lambda>r. r\<lparr>ar_canceled := True\<rparr>)"

definition Shutdown_returns :: "'k Worker \<Rightarrow> bool" where
  "Shutdown_returns w \<longleftrightarrow> wk_wg w = 0"

end
