(* ===== verification/QueueNames.thy ===== *)
theory QueueNames
  imports EntroqTypes
begin

text \<open>
  Queue names: pkg/queues/queues.go. A name is structured like a path whose components may hold
  parameters (\<open>/key=value;other=value/\<close>), with backslashes in front of structural characters. The
  functions of the package walk over the runes of a string and write runes back, so bytes that are not
  valid UTF-8 turn into the replacement character. A rune is represented by the bytes that encode it.
\<close>

section \<open>Runes of a string\<close>

type_synonym rune = string

abbreviation byte :: "char \<Rightarrow> nat" where
  "byte \<equiv> of_char"

text \<open>
  The ranges of the bytes that must follow the first byte of an encoded rune, as in the tables of
  unicode/utf8; \<open>None\<close> for a byte that begins no rune.
\<close>

definition accept_ranges :: "nat \<Rightarrow> (nat \<times> nat) list option" where
  "accept_ranges b =
     (if b < 0x80 then Some []
      else if 0xC2 \<le> b \<and> b \<le> 0xDF then Some [(0x80, 0xBF)]
      else if 0xE0 \<le> b \<and> b \<le> 0xEF
      then Some [(if b = 0xE0 then 0xA0 else 0x80, if b = 0xED then 0x9F else 0xBF), (0x80, 0xBF)]
      else if 0xF0 \<le> b \<and> b \<le> 0xF4
      then Some [(if b = 0xF0 then 0x90 else 0x80, if b = 0xF4 then 0x8F else 0xBF), (0x80, 0xBF), (0x80, 0xBF)]
      else None)"

definition in_ranges :: "(nat \<times> nat) list \<Rightarrow> string \<Rightarrow> bool" where
  "in_ranges rs s \<longleftrightarrow> list_all2 (\<lambda>(lo, hi) c. lo \<le> byte c \<and> byte c \<le> hi) rs (take (length rs) s)"

text \<open>How many bytes the first rune of a string takes; 0 if the string does not begin with a valid one.\<close>

definition rune_width :: "string \<Rightarrow> nat" where
  "rune_width s =
     (case accept_ranges (byte (hd s)) of
        Some rs \<Rightarrow> if in_ranges rs (tl s) then Suc (length rs) else 0
      | None \<Rightarrow> 0)"

definition RuneError :: rune where
  "RuneError = [CHR 0xEF, CHR 0xBF, CHR 0xBD]"

function runes :: "string \<Rightarrow> rune list" where
  "runes s = (if s = [] then []
     else if rune_width s = 0 then RuneError # runes (tl s)
     else take (rune_width s) s # runes (drop (rune_width s) s))"
  by pat_completeness auto
termination
  by (relation "measure length") auto

declare runes.simps [simp del]

text \<open>strings.ToValidUTF8, as writing the runes back does it.\<close>

definition to_valid :: "string \<Rightarrow> string" where
  "to_valid s = concat (runes s)"

definition valid_utf8 :: "string \<Rightarrow> bool" where
  "valid_utf8 s \<longleftrightarrow> to_valid s = s"

section \<open>Escaping and splitting\<close>

abbreviation slash :: char where "slash \<equiv> CHR ''/''"
abbreviation semicolon :: char where "semicolon \<equiv> CHR '';''"
abbreviation backslash :: char where "backslash \<equiv> CHR 0x5C"

definition structural :: "char \<Rightarrow> bool" where
  "structural c \<longleftrightarrow> c = slash \<or> c = semicolon \<or> c = backslash"

text \<open>The replacer replaces single bytes, so it works bytewise.\<close>

definition EscapeComponent :: "string \<Rightarrow> string" where
  "EscapeComponent c = concat (map (\<lambda>b. if structural b then [backslash, b] else [b]) c)"

fun split_loop :: "char \<Rightarrow> rune list \<Rightarrow> string list \<Rightarrow> string \<Rightarrow> bool \<Rightarrow> string list" where
  "split_loop sep [] parts part escaped = parts @ [part]"
| "split_loop sep (r # rs) parts part escaped =
     (if r = [sep] \<and> \<not> escaped then split_loop sep rs (parts @ [part]) [] escaped
      else split_loop sep rs parts (part @ r) (r = [backslash] \<and> \<not> escaped))"

definition splitUnescaped :: "string \<Rightarrow> char \<Rightarrow> string list" where
  "splitUnescaped s sep = split_loop sep (runes s) [] [] False"

fun unescape_loop :: "rune list \<Rightarrow> string \<Rightarrow> bool \<Rightarrow> string" where
  "unescape_loop [] value escaped = value"
| "unescape_loop (r # rs) value escaped =
     (if escaped then unescape_loop rs (value @ r) False
      else if r = [backslash] then unescape_loop rs value True
      else unescape_loop rs (value @ r) False)"

definition unescape :: "string \<Rightarrow> string" where
  "unescape s = unescape_loop (runes s) [] False"

definition PathComponents :: "string \<Rightarrow> string list" where
  "PathComponents qname =
     (if qname = [] then []
      else let parts = splitUnescaped qname slash
           in (if hd parts \<noteq> [] then [unescape (hd parts)] else []) @ map (\<lambda>part. slash # unescape part) (tl parts))"

definition PathLabels :: "string \<Rightarrow> string \<times> string \<times> string" where
  "PathLabels qname =
     (let c = PathComponents qname;
          l1 = (if length c > 0 then c ! 0 else []);
          l2 = (if length c > 1 then l1 @ c ! 1 else []);
          l3 = (if length c > 2 then l2 @ c ! 2 else [])
      in (l1, l2, l3))"

section \<open>Parameters of a name\<close>

text \<open>strings.Cut at the first equals sign.\<close>

definition strings_Cut :: "string \<Rightarrow> char \<Rightarrow> string \<times> string \<times> bool" where
  "strings_Cut s sep =
     (if sep \<in> set s then (takeWhile (\<lambda>c. c \<noteq> sep) s, tl (dropWhile (\<lambda>c. c \<noteq> sep) s), True) else (s, [], False))"

fun visit_params :: "(string \<Rightarrow> string \<Rightarrow> 's \<Rightarrow> 's \<times> bool) \<Rightarrow> string list \<Rightarrow> 's \<Rightarrow> 's" where
  "visit_params visit [] s = s"
| "visit_params visit (rawKeyVal # rest) s =
     (let (key, val, found) = strings_Cut (unescape rawKeyVal) (CHR ''='') in
      if found then let (s, more) = visit key val s in if more then visit_params visit rest s else s
      else visit_params visit rest s)"

definition visitComponentParams :: "string \<Rightarrow> (string \<Rightarrow> string \<Rightarrow> 's \<Rightarrow> 's \<times> bool) \<Rightarrow> 's \<Rightarrow> 's" where
  "visitComponentParams component visit s = visit_params visit (splitUnescaped component semicolon) s"

definition add_param :: "string \<Rightarrow> string \<Rightarrow> (string, string list) gomap \<Rightarrow> (string, string list) gomap \<times> bool" where
  "add_param key val params =
     (gm_set key ((case map_of params key of Some vs \<Rightarrow> vs | None \<Rightarrow> []) @ [val]) params, True)"

definition PathParams :: "string \<Rightarrow> (string, string list) gomap" where
  "PathParams qname =
     fold (\<lambda>component params. visitComponentParams component add_param params) (tl (splitUnescaped qname slash)) []"

definition fold_component :: "string \<Rightarrow> string \<Rightarrow> string" where
  "fold_component key component =
     visitComponentParams component (\<lambda>paramKey _ c. if paramKey \<noteq> key then (c, True) else (''*'', False)) component"

definition FoldPathParam :: "string \<Rightarrow> string \<Rightarrow> string" where
  "FoldPathParam path key =
     (let components = splitUnescaped path slash
      in strings_Join [slash] (hd components # map (fold_component key) (tl components)))"

section \<open>Namespaces\<close>

definition strings_HasPrefix :: "string \<Rightarrow> string \<Rightarrow> bool" where
  "strings_HasPrefix s p \<longleftrightarrow> take (length p) s = p"

definition Namespace :: "string \<Rightarrow> string \<times> bool" where
  "Namespace qname =
     (if qname = [] then ([], False)
      else if \<not> strings_HasPrefix qname ''/ns='' then ([], False)
      else case map_of (PathParams qname) ''ns'' of Some ns \<Rightarrow> (ns ! 0, True) | None \<Rightarrow> ([], False))"

text \<open>path.Clean of a rooted path, and path.Join of two elements the first of which is rooted.\<close>

fun path_split :: "string \<Rightarrow> string \<Rightarrow> string list" where
  "path_split part [] = [part]"
| "path_split part (c # cs) = (if c = slash then part # path_split [] cs else path_split (part @ [c]) cs)"

definition clean_step :: "string \<Rightarrow> string list \<Rightarrow> string list" where
  "clean_step c out = (if c = [] \<or> c = ''.'' then out else if c = ''..'' then butlast out else out @ [c])"

definition path_Clean_rooted :: "string \<Rightarrow> string" where
  "path_Clean_rooted p =
     (let out = fold clean_step (path_split [] p) []
      in if out = [] then ''/'' else concat (map (\<lambda>c. slash # c) out))"

definition path_Join_rooted :: "string \<Rightarrow> string \<Rightarrow> string" where
  "path_Join_rooted a b = path_Clean_rooted (a @ slash # b)"

definition TryAddNamespace :: "string \<Rightarrow> string \<Rightarrow> string" where
  "TryAddNamespace qname ns =
     (if snd (Namespace qname) then qname else path_Join_rooted (''/ns='' @ EscapeComponent ns) qname)"

end
