(* ===== verification/QueueNameFacts.thy ===== *)
theory QueueNameFacts
  imports QueueNames
begin

text \<open>
  What the functions on queue names do: escaping and splitting are inverse to each other, parameters
  that are written are read back, and adding a namespace to a name gives a name of that namespace.
\<close>

section \<open>Runes\<close>

lemma runes_Nil [simp]: "runes [] = []"
  by (simp add: runes.simps)

lemma in_ranges_length: "in_ranges rs s \<Longrightarrow> length rs \<le> length s"
  by (auto simp: in_ranges_def dest: list_all2_lengthD)

lemma rune_width_le: "s \<noteq> [] \<Longrightarrow> rune_width s \<le> length s"
  by (cases s) (auto simp: rune_width_def dest: in_ranges_length split: option.splits)

text \<open>An ASCII byte is a rune of its own wherever it stands.\<close>

lemma accept_ranges_high: "accept_ranges b = Some rs \<Longrightarrow> (lo, hi) \<in> set rs \<Longrightarrow> 0x80 \<le> lo"
  by (auto simp: accept_ranges_def split: if_splits)

lemma in_ranges_append: "length rs \<le> length x \<Longrightarrow> in_ranges rs (x @ y) = in_ranges rs x"
  by (simp add: in_ranges_def)

lemma in_ranges_take: "length rs \<le> n \<Longrightarrow> in_ranges rs (take n x) = in_ranges rs x"
  by (simp add: in_ranges_def min_absorb1)

lemma in_ranges_ascii:
  assumes "\<forall>(lo, hi) \<in> set rs. 0x80 \<le> lo" "byte c < 0x80"
  shows "in_ranges rs (x @ c # y) = in_ranges rs x"
proof (cases "length rs \<le> length x")
  case True
  then show ?thesis by (rule in_ranges_append)
next
  case False
  then have "length x < length rs" by simp
  moreover have "rs ! length x \<in> set rs" using False by simp
  ultimately have "\<not> in_ranges rs (x @ c # y)"
    using assms by (fastforce simp: in_ranges_def list_all2_conv_all_nth nth_append)
  with False show ?thesis using in_ranges_length by blast
qed

lemma rune_width_ascii:
  assumes "byte c < 0x80" "x \<noteq> []"
  shows "rune_width (x @ c # y) = rune_width x"
proof (cases "accept_ranges (byte (hd x))")
  case (Some rs)
  with in_ranges_ascii[OF _ assms(1), of rs "tl x" y] accept_ranges_high[OF Some] assms(2) show ?thesis
    by (auto simp: rune_width_def)
qed (use assms in \<open>simp add: rune_width_def\<close>)

lemma runes_ascii:
  assumes "byte c < 0x80"
  shows "runes (x @ c # y) = runes x @ [c] # runes y"
proof (induction x rule: runes.induct)
  case (1 x)
  show ?case
  proof (cases "x = []")
    case True
    have "rune_width (c # y) = 1" using assms by (simp add: rune_width_def accept_ranges_def in_ranges_def)
    with True show ?thesis by (subst runes.simps) simp
  next
    case False
    note w = rune_width_ascii[OF assms False]
    show ?thesis
    proof (cases "rune_width x = 0")
      case True
      with 1 False w show ?thesis
        by (subst runes.simps, subst (2) runes.simps) simp
    next
      case nz: False
      have "rune_width x \<le> length x" by (rule rune_width_le[OF False])
      with 1 False nz w show ?thesis
        by (subst runes.simps, subst (2) runes.simps) simp
    qed
  qed
qed

text \<open>What is written is made of runes, and reads back as these runes.\<close>

definition is_rune :: "rune \<Rightarrow> bool" where
  "is_rune r \<longleftrightarrow> r \<noteq> [] \<and> rune_width r = length r"

lemma is_rune_ascii [simp]: "byte c < 0x80 \<Longrightarrow> is_rune [c]"
  by (simp add: is_rune_def rune_width_def accept_ranges_def in_ranges_def)

lemma rune_width_take:
  assumes "s \<noteq> []" "rune_width s \<noteq> 0"
  shows "rune_width (take (rune_width s) s) = rune_width s"
proof -
  from assms(2) obtain rs where rs: "accept_ranges (byte (hd s)) = Some rs" "in_ranges rs (tl s)" "rune_width s = Suc (length rs)"
    by (auto simp: rune_width_def split: option.splits if_splits)
  have "tl (take (Suc (length rs)) s) = take (length rs) (tl s)" "hd (take (Suc (length rs)) s) = hd s"
    using assms(1) by (simp_all add: take_Suc)
  with rs show ?thesis by (simp add: rune_width_def in_ranges_take)
qed

lemma runes_are: "\<forall>r \<in> set (runes s). is_rune r"
proof (induction s rule: runes.induct)
  case (1 s)
  show ?case
  proof (cases "s = []")
    case False
    have e: "is_rune RuneError" by (simp add: is_rune_def RuneError_def rune_width_def accept_ranges_def in_ranges_def)
    have t: "is_rune (take (rune_width s) s)" if "rune_width s \<noteq> 0"
      using rune_width_take[OF False that] rune_width_le[OF False] that False by (simp add: is_rune_def)
    from False 1 e t show ?thesis by (subst runes.simps) auto
  qed simp
qed

lemma rune_width_append:
  assumes "is_rune r"
  shows "rune_width (r @ y) = length r"
proof -
  from assms obtain rs where rs: "accept_ranges (byte (hd r)) = Some rs" "in_ranges rs (tl r)" "length r = Suc (length rs)" "r \<noteq> []"
    by (auto simp: is_rune_def rune_width_def split: option.splits if_splits)
  then show ?thesis by (simp add: rune_width_def in_ranges_append)
qed

lemma runes_concat: "\<forall>r \<in> set rs. is_rune r \<Longrightarrow> runes (concat rs) = rs"
proof (induction rs)
  case (Cons r rs)
  then have "is_rune r" by simp
  then have w: "rune_width (r @ concat rs) = length r" "r \<noteq> []" by (simp_all add: rune_width_append is_rune_def)
  with Cons show ?case by (subst concat.simps, subst runes.simps) simp
qed simp

lemma runes_to_valid: "runes (to_valid s) = runes s"
  unfolding to_valid_def by (rule runes_concat[OF runes_are])

lemma valid_to_valid: "valid_utf8 (to_valid s)"
  by (simp add: valid_utf8_def to_valid_def runes_concat runes_are)

lemma to_valid_ascii: "byte c < 0x80 \<Longrightarrow> to_valid (x @ c # y) = to_valid x @ c # to_valid y"
  by (simp add: to_valid_def runes_ascii)

lemma ascii_valid: "\<forall>c \<in> set s. byte c < 0x80 \<Longrightarrow> runes s = map (\<lambda>c. [c]) s"
proof (induction s)
  case (Cons c s)
  from runes_ascii[of c "[]" s] Cons show ?case by simp
qed simp

section \<open>Escaping\<close>

lemma structural_ascii: "structural c \<Longrightarrow> byte c < 0x80"
  by (auto simp: structural_def)

definition esc_rune :: "rune \<Rightarrow> rune list" where
  "esc_rune r = (if r = [slash] \<or> r = [semicolon] \<or> r = [backslash] then [[backslash], r] else [r])"

definition esc_runes :: "rune list \<Rightarrow> rune list" where
  "esc_runes rs = concat (map esc_rune rs)"

lemma runes_cases:
  assumes "r \<in> set (runes s)"
  obtains "r = RuneError" | "r = take (rune_width s) s" "s \<noteq> []" | "s \<noteq> []" "rune_width s = 0" "r \<in> set (runes (tl s))"
    | "s \<noteq> []" "rune_width s \<noteq> 0" "r \<in> set (runes (drop (rune_width s) s))"
  using assms runes.simps[of s] by (auto split: if_splits)

lemma runes_from: "r \<in> set (runes s) \<Longrightarrow> r = RuneError \<or> set r \<subseteq> set s"
proof (induction s rule: runes.induct)
  case (1 s)
  from "1.prems" show ?case
  proof (cases rule: runes_cases)
    case 2
    then show ?thesis by (simp add: set_take_subset)
  next
    case 3
    then show ?thesis using "1.IH"(1) list.set_sel(2)[of s] by blast
  next
    case 4
    then show ?thesis using "1.IH"(2) set_drop_subset[of "rune_width s" s] by blast
  qed simp
qed

lemma esc_rune_plain: "(\<And>c. r = [c] \<Longrightarrow> \<not> structural c) \<Longrightarrow> esc_rune r = [r]"
  unfolding esc_rune_def structural_def by metis

lemma esc_runes_id:
  assumes "\<forall>c \<in> set s. \<not> structural c"
  shows "esc_runes (runes s) = runes s"
proof -
  have "esc_rune r = [r]" if "r \<in> set (runes s)" for r
  proof (rule esc_rune_plain)
    fix c assume "r = [c]"
    with runes_from[OF that] have "c \<in> set s" by (simp add: RuneError_def)
    with assms show "\<not> structural c" by blast
  qed
  then have m: "map esc_rune (runes s) = map (\<lambda>r. [r]) (runes s)" by simp
  show ?thesis unfolding esc_runes_def m by simp
qed

lemma Escape_append [simp]: "EscapeComponent (x @ y) = EscapeComponent x @ EscapeComponent y"
  by (simp add: EscapeComponent_def)

lemma Escape_plain: "\<forall>c \<in> set s. \<not> structural c \<Longrightarrow> EscapeComponent s = s"
  by (induction s) (simp_all add: EscapeComponent_def)

lemma runes_Escape: "runes (EscapeComponent s) = esc_runes (runes s)"
proof (induction "length s" arbitrary: s rule: less_induct)
  case (less s)
  show ?case
  proof (cases "\<exists>c \<in> set s. structural c")
    case True
    from split_list_first_prop[OF True] obtain x c y where s: "s = x @ c # y" "structural c" "\<forall>b \<in> set x. \<not> structural b"
      by blast
    have b: "byte backslash < 0x80" by simp
    note c = structural_ascii[OF s(2)]
    have e: "EscapeComponent s = x @ backslash # [] @ c # EscapeComponent y"
      using s(1,2) Escape_plain[OF s(3)] by (simp add: EscapeComponent_def)
    have y: "runes (EscapeComponent y) = esc_runes (runes y)" by (rule less.hyps) (simp add: s(1))
    have "runes (EscapeComponent s) = runes x @ [backslash] # [c] # esc_runes (runes y)"
      unfolding e runes_ascii[OF b] runes_ascii[OF c] y by simp
    moreover have "esc_rune [c] = [[backslash], [c]]" using s(2) by (simp add: esc_rune_def structural_def)
    moreover have "runes s = runes x @ [c] # runes y" unfolding s(1) by (rule runes_ascii[OF c])
    ultimately show ?thesis
      using esc_runes_id[OF s(3)] by (simp add: esc_runes_def)
  next
    case False
    then have "\<forall>c \<in> set s. \<not> structural c" by blast
    from Escape_plain[OF this] esc_runes_id[OF this] show ?thesis by simp
  qed
qed

lemma esc_runes_are: "\<forall>r \<in> set rs. is_rune r \<Longrightarrow> \<forall>r \<in> set (esc_runes rs). is_rune r"
  by (auto simp: esc_runes_def esc_rune_def split: if_splits)

section \<open>Splitting\<close>

text \<open>Runes that a split walks over without splitting.\<close>

definition passes :: "char \<Rightarrow> rune list \<Rightarrow> bool" where
  "passes sep rs \<longleftrightarrow> (\<forall>rest parts part.
     split_loop sep (rs @ rest) parts part False = split_loop sep rest parts (part @ concat rs) False)"

lemma passesD: "passes sep rs \<Longrightarrow> split_loop sep (rs @ rest) parts part False = split_loop sep rest parts (part @ concat rs) False"
  by (simp add: passes_def)

lemma passes_Nil [simp]: "passes sep []"
  by (simp add: passes_def)

lemma passes_append: "passes sep rs \<Longrightarrow> passes sep ss \<Longrightarrow> passes sep (rs @ ss)"
  by (simp add: passes_def)

lemma passes_rune: "r \<noteq> [sep] \<Longrightarrow> r \<noteq> [backslash] \<Longrightarrow> passes sep [r]"
  by (simp add: passes_def)

lemma passes_esc: "sep = slash \<or> sep = semicolon \<Longrightarrow> passes sep (esc_runes rs)"
proof (induction rs)
  case (Cons r rs)
  have "passes sep (esc_rune r)" using Cons.prems by (auto simp: passes_def esc_rune_def)
  from passes_append[OF this Cons.IH[OF Cons.prems]] show ?case by (simp add: esc_runes_def)
qed (simp add: esc_runes_def)

fun rjoin :: "char \<Rightarrow> rune list list \<Rightarrow> rune list" where
  "rjoin sep [] = []"
| "rjoin sep [rs] = rs"
| "rjoin sep (rs # rss) = rs @ [sep] # rjoin sep rss"

lemma split_rjoin:
  assumes "rss \<noteq> []" "\<forall>rs \<in> set rss. passes sep rs" "sep \<noteq> backslash"
  shows "split_loop sep (rjoin sep rss) parts [] False = parts @ map concat rss"
  using assms
proof (induction sep rss arbitrary: parts rule: rjoin.induct)
  case (2 sep rs)
  then show ?case using passesD[of sep rs "[]" parts "[]"] by simp
next
  case (3 sep rs rs' rss)
  have "passes sep rs" using "3.prems" by simp
  from passesD[OF this, of "[sep] # rjoin sep (rs' # rss)" parts "[]"]
  have "split_loop sep (rjoin sep (rs # rs' # rss)) parts [] False = split_loop sep (rjoin sep (rs' # rss)) (parts @ [concat rs]) [] False"
    by simp
  also have "\<dots> = (parts @ [concat rs]) @ map concat (rs' # rss)"
    by (rule "3.IH") (use "3.prems" in auto)
  finally show ?case by simp
qed simp

lemma passes_rjoin:
  assumes "\<forall>rs \<in> set rss. passes sep rs" "c \<noteq> sep" "c \<noteq> backslash"
  shows "passes sep (rjoin c rss)"
  using assms
proof (induction c rss rule: rjoin.induct)
  case (3 c rs rs' rss)
  have "passes sep (rjoin c (rs' # rss))" by (rule "3.IH") (use "3.prems" in auto)
  moreover have "passes sep rs" using "3.prems" by simp
  moreover have "passes sep [[c]]" using passes_rune "3.prems" by simp
  ultimately have "passes sep (rs @ [[c]] @ rjoin c (rs' # rss))" by (intro passes_append)
  then show ?case by simp
qed auto

lemma splits:
  assumes "runes s = rjoin sep rss" "rss \<noteq> []" "\<forall>rs \<in> set rss. passes sep rs" "sep \<noteq> backslash"
  shows "splitUnescaped s sep = map concat rss"
  unfolding splitUnescaped_def assms(1) using split_rjoin[OF assms(2-4), of "[]"] by simp

lemma unescape_loop_esc: "unescape_loop (esc_runes rs @ rest) v False = unescape_loop rest (v @ concat rs) False"
  by (induction rs arbitrary: v) (auto simp: esc_runes_def esc_rune_def)

lemma unescape_esc: "\<forall>r \<in> set rs. is_rune r \<Longrightarrow> unescape (concat (esc_runes rs)) = concat rs"
  using unescape_loop_esc[of rs "[]" "[]"] by (simp add: unescape_def runes_concat esc_runes_are)

text \<open>The rune view of a name built from components that are built from parts.\<close>

lemma runes_Join:
  assumes "byte sep < 0x80"
  shows "runes (strings_Join [sep] ss) = rjoin sep (map runes ss)"
  by (induction "[sep]" ss rule: strings_Join.induct) (simp_all add: runes_ascii[OF assms])

definition component_of :: "string list \<Rightarrow> string" where
  "component_of ps = strings_Join [semicolon] (map EscapeComponent ps)"

definition name_of :: "string list list \<Rightarrow> string" where
  "name_of css = concat (map (\<lambda>ps. slash # component_of ps) css)"

definition comp_runes :: "string list \<Rightarrow> rune list" where
  "comp_runes ps = rjoin semicolon (map (\<lambda>p. esc_runes (runes p)) ps)"

lemma runes_component: "runes (component_of ps) = comp_runes ps"
  by (simp add: component_of_def comp_runes_def runes_Join runes_Escape comp_def)

lemma comp_runes_are: "r \<in> set (comp_runes ps) \<Longrightarrow> is_rune r"
  using runes_are[of "component_of ps"] by (simp add: runes_component)

lemma runes_name: "runes (name_of css) = rjoin slash ([] # map comp_runes css)"
proof (induction css)
  case (Cons ps css)
  have "name_of (ps # css) = [] @ slash # component_of ps @ name_of css" by (simp add: name_of_def)
  then have "runes (name_of (ps # css)) = [slash] # runes (component_of ps @ name_of css)"
    using runes_ascii[of slash "[]"] by simp
  also have "runes (component_of ps @ name_of css) = comp_runes ps @ runes (name_of css)"
  proof (cases css)
    case Nil
    then show ?thesis by (simp add: name_of_def runes_component)
  next
    case (Cons qs css')
    then have "name_of css = slash # component_of qs @ name_of css'" by (simp add: name_of_def)
    then show ?thesis using runes_ascii[of slash "component_of ps"] runes_ascii[of slash "[]"] by (simp add: runes_component)
  qed
  finally show ?case using Cons.IH by (cases css) simp_all
qed (simp add: name_of_def)

lemma split_name: "splitUnescaped (name_of css) slash = [] # map (\<lambda>ps. concat (comp_runes ps)) css"
proof -
  have "passes slash (comp_runes ps)" for ps unfolding comp_runes_def by (intro passes_rjoin) (auto intro: passes_esc)
  then have "splitUnescaped (name_of css) slash = map concat ([] # map comp_runes css)"
    by (intro splits[OF runes_name]) auto
  then show ?thesis by simp
qed

lemma split_component:
  assumes "ps \<noteq> []"
  shows "splitUnescaped (concat (comp_runes ps)) semicolon = map (\<lambda>p. concat (esc_runes (runes p))) ps"
proof -
  have "runes (concat (comp_runes ps)) = comp_runes ps" by (intro runes_concat ballI comp_runes_are)
  then have "splitUnescaped (concat (comp_runes ps)) semicolon = map concat (map (\<lambda>p. esc_runes (runes p)) ps)"
    unfolding comp_runes_def by (rule splits) (use assms in \<open>auto intro: passes_esc\<close>)
  then show ?thesis by simp
qed

section \<open>What is written is read back\<close>

lemma path_components:
  "PathComponents (name_of css) = map (\<lambda>ps. slash # unescape (concat (comp_runes ps))) css"
proof (cases "css = []")
  case True
  then show ?thesis by (simp add: PathComponents_def name_of_def)
next
  case False
  then have "name_of css \<noteq> []" by (cases css) (simp_all add: name_of_def)
  then show ?thesis by (simp add: PathComponents_def split_name)
qed

text \<open>
  A name made of any components, each escaped, splits into exactly these components, whatever
  structural characters they contain; bytes that are not UTF-8 come back as the replacement character.
\<close>

theorem PathComponents_roundtrip:
  "PathComponents (concat (map (\<lambda>c. slash # EscapeComponent c) cs)) = map (\<lambda>c. slash # to_valid c) cs"
proof -
  have "concat (map (\<lambda>c. slash # EscapeComponent c) cs) = name_of (map (\<lambda>c. [c]) cs)"
    by (simp add: name_of_def component_of_def comp_def)
  moreover have "unescape (concat (esc_runes (runes c))) = to_valid c" for c
    by (simp add: unescape_esc runes_are to_valid_def)
  ultimately show ?thesis by (simp add: path_components comp_runes_def)
qed

definition param :: "string \<times> string \<Rightarrow> string" where
  "param kv = fst kv @ CHR ''='' # snd kv"

definition params_name :: "(string \<times> string) list list \<Rightarrow> string" where
  "params_name css = name_of (map (map param) css)"

definition param_ok :: "string \<times> string \<Rightarrow> bool" where
  "param_ok kv \<longleftrightarrow> CHR ''='' \<notin> set (fst kv) \<and> valid_utf8 (fst kv) \<and> valid_utf8 (snd kv)"

lemma Cut_param: "CHR ''='' \<notin> set k \<Longrightarrow> strings_Cut (k @ CHR ''='' # v) (CHR ''='') = (k, v, True)"
  by (auto simp: strings_Cut_def takeWhile_append dropWhile_append)

lemma unescape_param:
  assumes "param_ok kv"
  shows "unescape (concat (esc_runes (runes (param kv)))) = param kv"
proof -
  have "to_valid (param kv) = param kv"
    using assms to_valid_ascii[of "CHR ''=''" "fst kv" "snd kv"] by (simp add: param_def param_ok_def valid_utf8_def)
  then show ?thesis by (simp add: unescape_esc runes_are to_valid_def)
qed

definition add_params :: "(string \<times> string) list \<Rightarrow> (string, string list) gomap \<Rightarrow> (string, string list) gomap" where
  "add_params kvs m = fold (\<lambda>kv m. fst (add_param (fst kv) (snd kv) m)) kvs m"

lemma visit_component:
  assumes "\<forall>kv \<in> set kvs. param_ok kv"
  shows "visitComponentParams (concat (comp_runes (map param kvs))) add_param m = add_params kvs m"
proof (cases "kvs = []")
  case True
  then show ?thesis
    by (simp add: visitComponentParams_def splitUnescaped_def unescape_def strings_Cut_def add_params_def comp_runes_def)
next
  case False
  have "visit_params add_param (map (\<lambda>p. concat (esc_runes (runes p))) (map param kvs)) m = add_params kvs m"
    using assms
  proof (induction kvs arbitrary: m)
    case (Cons kv kvs)
    then have "unescape (concat (esc_runes (runes (param kv)))) = fst kv @ CHR ''='' # snd kv" "CHR ''='' \<notin> set (fst kv)"
      by (simp_all add: unescape_param) (simp_all add: param_def param_ok_def)
    with Cons show ?case by (simp add: Cut_param add_param_def add_params_def)
  qed (simp add: add_params_def)
  with False show ?thesis by (simp add: visitComponentParams_def split_component comp_def)
qed

lemma params_of_name:
  assumes "\<forall>kv \<in> set (concat css). param_ok kv"
  shows "PathParams (params_name css) = add_params (concat css) []"
proof -
  have "fold (\<lambda>component params. visitComponentParams component add_param params)
      (map (\<lambda>ps. concat (comp_runes ps)) (map (map param) css)) m = add_params (concat css) m" for m
    using assms by (induction css arbitrary: m) (simp_all add: visit_component add_params_def)
  then show ?thesis by (simp add: PathParams_def params_name_def split_name)
qed

definition values_of :: "string \<Rightarrow> (string \<times> string) list \<Rightarrow> string list" where
  "values_of k kvs = map snd (filter (\<lambda>kv. fst kv = k) kvs)"

lemma add_params_lookup:
  "map_of (add_params kvs m) k =
     (if values_of k kvs = [] then map_of m k else Some ((case map_of m k of Some vs \<Rightarrow> vs | None \<Rightarrow> []) @ values_of k kvs))"
  by (induction kvs arbitrary: m) (auto simp: add_params_def add_param_def values_of_def split: option.splits)

text \<open>
  C38: the parameters written into the components of a name, in any number and with any characters
  escaped, are read back: for every key the values in the order they were written.
\<close>

theorem PathParams_roundtrip:
  assumes "\<forall>kv \<in> set (concat css). param_ok kv"
  shows "map_of (PathParams (params_name css)) k =
    (if values_of k (concat css) = [] then None else Some (values_of k (concat css)))"
  using params_of_name[OF assms] add_params_lookup[of "concat css" "[]"] by simp

theorem PathParams_roundtrip_witness:
  "map_of (PathParams (params_name [[(''a'', ''x/y''), (''b'', ''1;2'')], [], [(''a'', ''='')]])) ''a'' = Some [''x/y'', ''='']"
proof -
  have "\<forall>kv \<in> set (concat [[(''a'', ''x/y''), (''b'', ''1;2'')], [], [(''a'', ''='')]]). param_ok kv" by code_simp
  from PathParams_roundtrip[OF this, of "''a''"] show ?thesis by (simp add: values_of_def)
qed

section \<open>Namespaces\<close>

lemma split_loop_parts: "split_loop sep rs parts part esc = parts @ split_loop sep rs [] part esc"
proof (induction rs arbitrary: parts part esc)
  case (Cons r rs)
  from Cons.IH[of "parts @ [part]"] Cons.IH[of "[part]"] Cons.IH[of parts] show ?case by simp
qed simp

lemma path_split_append: "slash \<notin> set x \<Longrightarrow> path_split part (x @ slash # y) = (part @ x) # path_split [] y"
  by (induction x arbitrary: part) auto

lemma clean_plain:
  assumes "''..'' \<notin> set cs"
  shows "fold clean_step cs out = out @ filter (\<lambda>c. c \<noteq> [] \<and> c \<noteq> ''.'') cs"
  using assms by (induction cs arbitrary: out) (auto simp: clean_step_def)

lemma Escape_no_slash: "slash \<notin> set ns \<Longrightarrow> slash \<notin> set (EscapeComponent ns)"
  by (auto simp: EscapeComponent_def)

text \<open>The first value of a key stays the first.\<close>

lemma add_param_first: "map_of m k = Some (v # vs) \<Longrightarrow> \<exists>vs'. map_of (fst (add_param key val m)) k = Some (v # vs')"
  by (auto simp: add_param_def)

lemma visit_params_first: "map_of m k = Some (v # vs) \<Longrightarrow> \<exists>vs'. map_of (visit_params add_param raws m) k = Some (v # vs')"
proof (induction raws arbitrary: m vs)
  case (Cons raw raws)
  obtain key val found where c: "strings_Cut (unescape raw) (CHR ''='') = (key, val, found)" by (metis prod_cases3)
  show ?case
  proof (cases found)
    case True
    from add_param_first[OF Cons.prems, of key val] obtain vs' where
      "map_of (fst (add_param key val m)) k = Some (v # vs')" by blast
    from Cons.IH[OF this] True c show ?thesis by (simp add: add_param_def)
  next
    case False
    with Cons c show ?thesis by simp
  qed
qed simp

lemma params_first:
  "map_of m k = Some (v # vs) \<Longrightarrow>
    \<exists>vs'. map_of (fold (\<lambda>component params. visitComponentParams component add_param params) cs m) k = Some (v # vs')"
proof (induction cs arbitrary: m vs)
  case (Cons c cs)
  from visit_params_first[OF Cons.prems] Cons.IH show ?case by (auto simp: visitComponentParams_def)
qed simp

lemma Namespace_of_name:
  assumes "rest = [] \<or> hd rest = slash"
  shows "Namespace (''/ns='' @ EscapeComponent ns @ rest) = (to_valid ns, True)"
proof -
  define c where "c = ''ns='' @ ns"
  let ?c = c
  let ?er = "esc_runes (runes ?c)"
  have e: "''ns='' @ EscapeComponent ns = EscapeComponent ?c"
    by (simp add: c_def EscapeComponent_def structural_def)
  have p: "passes slash ?er" by (rule passes_esc) simp
  have "\<exists>ps. splitUnescaped (slash # EscapeComponent ?c @ rest) slash = [] # concat ?er # ps"
  proof (cases rest)
    case Nil
    have "runes (slash # EscapeComponent ?c) = [slash] # ?er"
      using runes_ascii[of slash "[]" "EscapeComponent ?c"] by (simp add: runes_Escape)
    with passesD[OF p, of "[]" "[[]]" "[]"] Nil show ?thesis by (simp add: splitUnescaped_def)
  next
    case (Cons b r)
    then have b: "b = slash" using assms by simp
    have "runes (slash # EscapeComponent ?c @ slash # r) = [slash] # ?er @ [slash] # runes r"
      using runes_ascii[of slash "[]" "EscapeComponent ?c @ slash # r"] runes_ascii[of slash "EscapeComponent ?c" r]
      by (simp add: runes_Escape)
    with passesD[OF p, of "[slash] # runes r" "[[]]" "[]"] split_loop_parts[of slash "runes r" "[[], concat ?er]"] Cons b
    show ?thesis by (simp add: splitUnescaped_def)
  qed
  then obtain ps where sp: "splitUnescaped (''/ns='' @ EscapeComponent ns @ rest) slash = [] # concat ?er # ps"
    unfolding e[symmetric] by auto
  have "unescape (concat ?er) = ''ns='' @ to_valid ns"
    using to_valid_ascii[of "CHR ''=''" "''ns''" ns] ascii_valid[of "''ns''"]
    by (simp add: c_def unescape_esc runes_are to_valid_def)
  then have "visitComponentParams (concat ?er) add_param [] = [(''ns'', [to_valid ns])]"
    using split_component[of "[?c]"] Cut_param[of "''ns''" "to_valid ns"]
    by (simp add: visitComponentParams_def comp_runes_def add_param_def)
  with params_first[of "[(''ns'', [to_valid ns])]" "''ns''" "to_valid ns" "[]" ps] sp
  have "\<exists>vs. map_of (PathParams (''/ns='' @ EscapeComponent ns @ rest)) ''ns'' = Some (to_valid ns # vs)"
    by (simp add: PathParams_def)
  then show ?thesis by (auto simp: Namespace_def strings_HasPrefix_def)
qed

text \<open>
  C39: a name that has a namespace is left alone. A name without one, none of whose components is a double dot,
  becomes a name of exactly the given namespace if that has no slash. The conditions are needed: the
  name is cleaned as a file path, so a double dot in the name or a slash in the namespace can remove
  the namespace again or change it.
\<close>

theorem TryAddNamespace_spec:
  "(snd (Namespace q) \<longrightarrow> TryAddNamespace q ns = q) \<and>
   (\<not> snd (Namespace q) \<and> slash \<notin> set ns \<and> ''..'' \<notin> set (path_split [] q) \<longrightarrow>
     Namespace (TryAddNamespace q ns) = (to_valid ns, True)) \<and>
   Namespace (TryAddNamespace ''../q'' ''a'') = ([], False) \<and>
   Namespace (TryAddNamespace ''q'' ''a/.'') = (''a/q'', True)"
proof (intro conjI impI)
  assume h: "\<not> snd (Namespace q) \<and> slash \<notin> set ns \<and> ''..'' \<notin> set (path_split [] q)"
  let ?E = "EscapeComponent ns"
  let ?cs = "filter (\<lambda>c. c \<noteq> [] \<and> c \<noteq> ''.'') (path_split [] q)"
  have n: "slash \<notin> set (''ns='' @ ?E)" using h Escape_no_slash by simp
  have "path_split [] (''/ns='' @ ?E @ slash # q) = [] # (''ns='' @ ?E) # path_split [] q"
    using path_split_append[OF n, of "[]" q] by simp
  then have "fold clean_step (path_split [] (''/ns='' @ ?E @ slash # q)) [] = (''ns='' @ ?E) # ?cs"
    using clean_plain h by (simp add: clean_step_def)
  then have "TryAddNamespace q ns = ''/ns='' @ ?E @ concat (map (\<lambda>c. slash # c) ?cs)"
    using h by (simp add: TryAddNamespace_def path_Join_rooted_def path_Clean_rooted_def)
  moreover have "concat (map (\<lambda>c. slash # c) ?cs) = [] \<or> hd (concat (map (\<lambda>c. slash # c) ?cs)) = slash"
    by (cases ?cs) simp_all
  ultimately show "Namespace (TryAddNamespace q ns) = (to_valid ns, True)"
    using Namespace_of_name by simp
next
  show "Namespace (TryAddNamespace ''../q'' ''a'') = ([], False)" by code_simp
  show "Namespace (TryAddNamespace ''q'' ''a/.'') = (''a/q'', True)" by code_simp
qed (simp add: TryAddNamespace_def)

theorem TryAddNamespace_spec_witness:
  "Namespace (TryAddNamespace ''/q/a=b'' ''x;y'') = (''x;y'', True)"
proof -
  have "\<not> snd (Namespace ''/q/a=b'') \<and> slash \<notin> set ''x;y'' \<and> ''..'' \<notin> set (path_split [] ''/q/a=b'')" "to_valid ''x;y'' = ''x;y''"
    by code_simp+
  with TryAddNamespace_spec[THEN conjunct2, THEN conjunct1, THEN mp, OF this(1)] show ?thesis by simp
qed

end
