(* ===== verification/QueueGC.thy ===== *)
theory QueueGC
  imports QueueNameFacts
begin

text \<open>
  The garbage collection marks in queue and namespace names: pkg/queues/gc.go, with the parts of
  strconv and time that it uses.
\<close>

section \<open>Numbers and instants in text\<close>

definition is_digit :: "char \<Rightarrow> bool" where
  "is_digit c \<longleftrightarrow> CHR ''0'' \<le> c \<and> c \<le> CHR ''9''"

definition digit :: "char \<Rightarrow> int" where
  "digit c = int (byte c) - 48"

definition of_digits :: "string \<Rightarrow> int" where
  "of_digits s = foldl (\<lambda>n c. n * 10 + digit c) 0 s"

text \<open>strconv.ParseInt in base 10 of a string of digits.\<close>

definition ParseInt_digits :: "string \<Rightarrow> goerror + int" where
  "ParseInt_digits s = (if of_digits s < 2 ^ 63 then Inr (of_digits s) else Inl (PlainError ''value out of range''))"

text \<open>
  time.Unix: the seconds are counted from year 1 in an int64, which wraps around.
\<close>

definition unixToInternal :: int where
  "unixToInternal = 62135596800"

definition time_Unix :: "int \<Rightarrow> time" where
  "time_Unix secs = wrap64 (secs + unixToInternal) * time_Second"

text \<open>The parts of time.Parse for the layout RFC3339Nano.\<close>

definition getnum :: "string \<Rightarrow> bool \<Rightarrow> (int \<times> string) option" where
  "getnum s fixed =
     (case s of
        [] \<Rightarrow> None
      | c # rest \<Rightarrow>
          if \<not> is_digit c then None
          else case rest of
                 [] \<Rightarrow> if fixed then None else Some (digit c, rest)
               | d # rest' \<Rightarrow> if is_digit d then Some (10 * digit c + digit d, rest')
                              else if fixed then None else Some (digit c, rest))"

fun skip :: "char \<Rightarrow> string \<Rightarrow> string option" where
  "skip p [] = None"
| "skip p (c # s) = (if c = p then Some s else None)"

definition in_range :: "int \<Rightarrow> int \<Rightarrow> int \<times> string \<Rightarrow> (int \<times> string) option" where
  "in_range lo hi r = (if lo \<le> fst r \<and> fst r \<le> hi then Some r else None)"

definition parse_year :: "string \<Rightarrow> (int \<times> string) option" where
  "parse_year s = (if length s < 4 \<or> \<not> list_all is_digit (take 4 s) then None else Some (of_digits (take 4 s), drop 4 s))"

definition parse_frac :: "string \<Rightarrow> int \<times> string" where
  "parse_frac s =
     (if length s < 2 \<or> \<not> (s ! 0 = CHR '','' \<or> s ! 0 = CHR ''.'') \<or> \<not> is_digit (s ! 1) then (0, s)
      else let ds = takeWhile is_digit (tl s); kept = take 9 ds
           in (of_digits kept * 10 ^ (9 - length kept), drop (length ds) (tl s)))"

definition parse_zone :: "string \<Rightarrow> (int \<times> string) option" where
  "parse_zone s =
     (if s \<noteq> [] \<and> hd s = CHR ''Z'' then Some (0, tl s)
      else if length s < 6 \<or> s ! 3 \<noteq> CHR '':'' then None
      else case (getnum (take 2 (drop 1 s)) True, getnum (take 2 (drop 4 s)) True) of
             (Some (hr, _), Some (mm, _)) \<Rightarrow>
               if hr > 24 \<or> mm > 60 then None
               else if s ! 0 = CHR ''+'' then Some ((hr * 60 + mm) * 60, drop 6 s)
               else if s ! 0 = CHR ''-'' then Some (- ((hr * 60 + mm) * 60), drop 6 s)
               else None
           | _ \<Rightarrow> None)"

definition is_leap :: "int \<Rightarrow> bool" where
  "is_leap y \<longleftrightarrow> y mod 4 = 0 \<and> (y mod 100 \<noteq> 0 \<or> y mod 400 = 0)"

definition daysIn :: "int \<Rightarrow> int \<Rightarrow> int" where
  "daysIn m y = (if m = 2 then if is_leap y then 29 else 28 else if m \<in> {4, 6, 9, 11} then 30 else 31)"

text \<open>The days from the first day of year 1 to a date of the proleptic Gregorian calendar.\<close>

definition days_to :: "int \<Rightarrow> int \<Rightarrow> int \<Rightarrow> int" where
  "days_to y m d =
     365 * (y - 1) + (y - 1) div 4 - (y - 1) div 100 + (y - 1) div 400 +
     sum_list (map (\<lambda>k. daysIn k y) [1..m - 1]) + (d - 1)"

definition time_Date :: "int \<Rightarrow> int \<Rightarrow> int \<Rightarrow> int \<Rightarrow> int \<Rightarrow> int \<Rightarrow> int \<Rightarrow> time" where
  "time_Date y m d hour minute sec nsec =
     (((days_to y m d * 24 + hour) * 60 + minute) * 60 + sec) * time_Second + nsec"

definition parse_RFC3339Nano :: "string \<Rightarrow> time option" where
  "parse_RFC3339Nano s =
     Option.bind (parse_year s) (\<lambda>(y, s). Option.bind (skip (CHR ''-'') s) (\<lambda>s.
     Option.bind (Option.bind (getnum s True) (in_range 1 12)) (\<lambda>(m, s). Option.bind (skip (CHR ''-'') s) (\<lambda>s.
     Option.bind (getnum s True) (\<lambda>(d, s). Option.bind (skip (CHR ''T'') s) (\<lambda>s.
     Option.bind (Option.bind (getnum s False) (in_range 0 23)) (\<lambda>(hour, s). Option.bind (skip (CHR '':'') s) (\<lambda>s.
     Option.bind (Option.bind (getnum s True) (in_range 0 59)) (\<lambda>(minute, s). Option.bind (skip (CHR '':'') s) (\<lambda>s.
     Option.bind (Option.bind (getnum s True) (in_range 0 59)) (\<lambda>(sec, s).
     let (nsec, s) = parse_frac s in
     Option.bind (parse_zone s) (\<lambda>(zone, s).
       if s \<noteq> [] \<or> d < 1 \<or> d > daysIn m y then None
       else Some (time_Date y m d hour minute sec nsec - zone * time_Second)))))))))))))"

section \<open>The activation of a name\<close>

definition isAllDigits :: "string \<Rightarrow> bool" where
  "isAllDigits s \<longleftrightarrow> list_all is_digit s \<and> s \<noteq> []"

definition ParseGCActivation :: "string \<Rightarrow> goerror + time" where
  "ParseGCActivation val =
     (if val = [] then Inr zero_time
      else if isAllDigits val then sbind (ParseInt_digits val) (\<lambda>secs. Inr (time_Unix secs))
      else case parse_RFC3339Nano val of
             None \<Rightarrow> Inl (PlainError ''gc activation timestamp'')
           | Some t \<Rightarrow> Inr t)"

definition GCActivation :: "string \<Rightarrow> goerror + time \<times> bool" where
  "GCActivation path =
     (case map_of (PathParams path) ''gc'' of
        None \<Rightarrow> Inr (zero_time, False)
      | Some vals \<Rightarrow> if vals = [] then Inr (zero_time, False)
                        else sbind (ParseGCActivation (last vals)) (\<lambda>at. Inr (at, True)))"

section \<open>Facts\<close>

lemma parse_examples:
  "parse_RFC3339Nano ''1970-01-01T00:00:00Z'' = Some (time_Unix 0)"
  "parse_RFC3339Nano ''2024-02-29T23:59:59.5+01:30'' = Some (time_Unix 1709245799 + 500000000)"
  "parse_RFC3339Nano ''2023-02-29T00:00:00Z'' = None"
  by code_simp+

lemma of_digits_nonneg: "list_all is_digit s \<Longrightarrow> 0 \<le> of_digits s"
proof (induction s rule: rev_induct)
  case (snoc c s)
  then have "0 \<le> digit c" by (simp add: is_digit_def digit_def less_eq_char_def)
  with snoc show ?case by (simp add: of_digits_def)
qed (simp add: of_digits_def)

text \<open>The digits of a number of seconds that int64 holds but that wraps when counted from year 1.\<close>

definition activation_of :: "int \<Rightarrow> goerror + time \<Rightarrow> bool" where
  "activation_of n r \<longleftrightarrow>
     (if n < 2 ^ 63 - unixToInternal then r = Inr ((n + unixToInternal) * time_Second)
      else if n < 2 ^ 63 then \<exists>t. r = Inr t \<and> t < zero_time
      else isl r)"

lemma time_Unix_wraps:
  assumes "2 ^ 63 - unixToInternal \<le> n" "n < 2 ^ 63"
  shows "time_Unix n < zero_time"
proof -
  let ?x = "n + unixToInternal + 2 ^ 63"
  have "?x mod 2 ^ 64 = (?x - 2 ^ 64) mod 2 ^ 64" by (rule minus_mod_self2[symmetric])
  also have "\<dots> = ?x - 2 ^ 64" by (rule mod_pos_pos_trivial) (use assms in \<open>simp_all add: unixToInternal_def\<close>)
  finally have "wrap64 (n + unixToInternal) = n + unixToInternal - 2 ^ 64" by (simp add: wrap64_def)
  with assms show ?thesis by (simp add: time_Unix_def time_Second_def zero_time_def unixToInternal_def)
qed

lemma ParseGCActivation_digits:
  assumes "isAllDigits v"
  shows "activation_of (of_digits v) (ParseGCActivation v)"
proof -
  have "0 \<le> of_digits v" using assms of_digits_nonneg by (simp add: isAllDigits_def)
  moreover have "time_Unix (of_digits v) = (of_digits v + unixToInternal) * time_Second" if "of_digits v < 2 ^ 63 - unixToInternal"
    using that calculation by (simp add: time_Unix_def wrap64_id unixToInternal_def)
  ultimately show ?thesis
    using assms time_Unix_wraps by (auto simp: activation_of_def ParseGCActivation_def isAllDigits_def ParseInt_digits_def unixToInternal_def)
qed



end
