(* ===== verification/Collector.thy ===== *)
theory Collector
  imports Backend QueueGC
begin

text \<open>
  Garbage collection through the Backend interface: pkg/backend/internal/gc/gc.go, and the entry points
  of the in-memory backend in eqmem/gc.go. What is reported is a list of reports, in order. The order
  in which a map is walked is an argument.
\<close>

definition gc_claimant :: string where
  "gc_claimant = ''entroq-gc-collector''"

datatype report = Deleted string int | Error string string

section \<open>Tasks\<close>

text \<open>The queues that are switched on, in the order they are met, and what is reported on the way.\<close>

fun due_queues :: "time \<Rightarrow> string list \<Rightarrow> string list \<times> report list" where
  "due_queues now [] = ([], [])"
| "due_queues now (queue # names) =
     (let (due, reports) = due_queues now names in
      case GCActivation queue of
        Inl _ \<Rightarrow> (due, Error queue ''malformed'' # reports)
      | Inr (activateAt, present) \<Rightarrow> if \<not> present \<or> activateAt > now then (due, reports) else (queue # due, reports))"

definition gc_query :: "string \<Rightarrow> ClaimQuery" where
  "gc_query queue = \<lparr>cq_Queues = [queue], cq_Claimant = gc_claimant, cq_Duration = DefaultClaimDuration, cq_PollTime = 0\<rparr>"

text \<open>The loop over the tasks of one queue, for at most as many rounds as there is fuel.\<close>

type_synonym 's gc_state = "int \<times> report list \<times> 's"

fun collect_queue :: "nat \<Rightarrow> 's Backend \<Rightarrow> int \<Rightarrow> string \<Rightarrow> 's gc_state \<Rightarrow> ('s gc_state \<times> goerror option) option" where
  "collect_queue 0 B batch queue st = None"
| "collect_queue (Suc fuel) B batch queue (deleted, reports, s) =
     (if \<not> deleted < batch then Some ((deleted, reports, s), None)
      else case be_TryClaim B (gc_query queue) s of
             (s, Inl e) \<Rightarrow> Some ((deleted, reports @ [Error queue ''claim''], s), Some e)
           | (s, Inr None) \<Rightarrow> Some ((deleted, reports, s), None)
           | (s, Inr (Some task)) \<Rightarrow>
               (case be_Modify B (NewModification gc_claimant [Task_Delete task]) s of
                  (s, Inl e) \<Rightarrow>
                    if IsDependency e then collect_queue fuel B batch queue (deleted, reports, s)
                    else Some ((deleted, reports @ [Error queue ''delete''], s), Some e)
                | (s, Inr _) \<Rightarrow> collect_queue fuel B batch queue (deleted + 1, reports @ [Deleted queue 1], s)))"

fun collect_queues :: "nat \<Rightarrow> 's Backend \<Rightarrow> int \<Rightarrow> string list \<Rightarrow> 's gc_state \<Rightarrow> ('s gc_state \<times> goerror option) option" where
  "collect_queues fuel B batch [] st = Some (st, None)"
| "collect_queues fuel B batch (queue # due) st =
     (if fst st \<ge> batch then Some (st, None)
      else case collect_queue fuel B batch queue st of
             None \<Rightarrow> None
           | Some (st, Some e) \<Rightarrow> Some (st, Some e)
           | Some (st, None) \<Rightarrow> collect_queues fuel B batch due st)"

definition CollectTasksOnce :: "nat \<Rightarrow> (string list \<Rightarrow> string list) \<Rightarrow> 's Backend \<Rightarrow> int \<Rightarrow> 's \<Rightarrow> ('s gc_state \<times> goerror option) option" where
  "CollectTasksOnce fuel ord B batch s =
     (case be_Time B s of
        (s, Inl e) \<Rightarrow> Some ((0, [], s), Some e)
      | (s, Inr now) \<Rightarrow>
          (case be_Queues B \<lparr>mq_MatchPrefix = [], mq_MatchExact = [], mq_Limit = 0\<rparr> s of
             (s, Inl e) \<Rightarrow> Some ((0, [], s), Some e)
           | (s, Inr names) \<Rightarrow>
               let (due, reports) = due_queues now (ord (map fst names))
               in collect_queues fuel B batch due (0, reports, s)))"

section \<open>Docs\<close>

text \<open>The primary keys of docs in key order, each once; the empty key is taken to be the one before the first.\<close>

fun doc_keys :: "string \<Rightarrow> Doc list \<Rightarrow> string list" where
  "doc_keys prev [] = []"
| "doc_keys prev (doc # docs) = (if d_Key doc = prev then doc_keys prev docs else d_Key doc # doc_keys (d_Key doc) docs)"

fun doc_candidates :: "'s Backend \<Rightarrow> time \<Rightarrow> string list \<Rightarrow> (string \<times> string) list \<times> report list \<times> 's \<Rightarrow>
    ((string \<times> string) list \<times> report list \<times> 's) \<times> goerror option" where
  "doc_candidates B now [] st = (st, None)"
| "doc_candidates B now (namespace # names) (due, reports, s) =
     (case GCActivation namespace of
        Inl _ \<Rightarrow> doc_candidates B now names (due, reports @ [Error namespace ''malformed_doc_namespace''], s)
      | Inr (activateAt, present) \<Rightarrow>
          if \<not> present \<or> activateAt > now then doc_candidates B now names (due, reports, s)
          else case be_Docs B \<lparr>dq_Namespace = namespace, dq_IDs = [], dq_KeyExact = [], dq_KeyStart = [], dq_KeyEnd = [],
                   dq_Limit = 0, dq_OmitValues = True\<rparr> s of
                 (s, Inl e) \<Rightarrow> ((due, reports, s), Some e)
               | (s, Inr docs) \<Rightarrow> doc_candidates B now names (due @ map (\<lambda>key. (namespace, key)) (doc_keys [] docs), reports, s))"

definition gc_doc_claim :: "string \<Rightarrow> string \<Rightarrow> DocClaim" where
  "gc_doc_claim namespace key = NewDocClaim [applyDocClaim (ClaimKey namespace key), ClaimingSetsAs gc_claimant, ClaimingSetsFor DefaultClaimDuration]"

fun collect_groups :: "'s Backend \<Rightarrow> int \<Rightarrow> (string \<times> string) list \<Rightarrow> 's gc_state \<Rightarrow> 's gc_state \<times> goerror option" where
  "collect_groups B batch [] st = (st, None)"
| "collect_groups B batch ((namespace, key) # due) (collected, reports, s) =
     (if collected \<ge> batch then ((collected, reports, s), None)
      else case be_ClaimDocs B (gc_doc_claim namespace key) s of
             (s, Inl e) \<Rightarrow> if IsDependency e then collect_groups B batch due (collected, reports, s)
                           else ((collected, reports, s), Some e)
           | (s, Inr []) \<Rightarrow> ((collected, reports, s), Some (Panic ''index out of range''))
           | (s, Inr (grp # _)) \<Rightarrow>
               if ds_Docs grp = [] then collect_groups B batch due (collected, reports, s)
               else (case be_Modify B (NewModification gc_claimant (map Doc_Delete (ds_Docs grp))) s of
                      (s, Inl e) \<Rightarrow> if IsDependency e then collect_groups B batch due (collected, reports, s)
                                    else ((collected, reports, s), Some e)
                    | (s, Inr _) \<Rightarrow>
                        collect_groups B batch due
                          (collected + 1, reports @ [Deleted namespace (int (length (ds_Docs grp)))], s)))"

definition CollectDocsOnce :: "(string list \<Rightarrow> string list) \<Rightarrow> 's Backend \<Rightarrow> int \<Rightarrow> 's \<Rightarrow> 's gc_state \<times> goerror option" where
  "CollectDocsOnce ord B batch s =
     (case be_Time B s of
        (s, Inl e) \<Rightarrow> ((0, [], s), Some e)
      | (s, Inr now) \<Rightarrow>
          (case be_NamespaceStats B \<lparr>mq_MatchPrefix = [], mq_MatchExact = [], mq_Limit = 0\<rparr> s of
             (s, Inl e) \<Rightarrow> ((0, [], s), Some e)
           | (s, Inr namespaces) \<Rightarrow>
               (case doc_candidates B now (ord (map fst namespaces)) ([], [], s) of
                  ((due, reports, s), Some e) \<Rightarrow> ((0, reports, s), Some e)
                | ((due, reports, s), None) \<Rightarrow> collect_groups B batch due (0, reports, s))))"

section \<open>The collector of the in-memory backend\<close>

definition collectOnce :: "nat \<Rightarrow> (string list \<Rightarrow> string list) \<Rightarrow> ('dt, 'lt) trees \<Rightarrow> world \<Rightarrow> int \<Rightarrow> ('dt, 'lt) mem_state \<Rightarrow>
    (('dt, 'lt) mem_state gc_state \<times> goerror option) option" where
  "collectOnce fuel ord T W batch = CollectTasksOnce fuel ord (eqmem_backend T W) batch"

definition collectDocsOnce :: "(string list \<Rightarrow> string list) \<Rightarrow> ('dt, 'lt) trees \<Rightarrow> world \<Rightarrow> int \<Rightarrow> ('dt, 'lt) mem_state \<Rightarrow>
    ('dt, 'lt) mem_state gc_state \<times> goerror option" where
  "collectDocsOnce ord T W batch = CollectDocsOnce ord (eqmem_backend T W) batch"

end
