(* ===== verification/CollectorFacts.thy ===== *)
theory CollectorFacts
  imports Collector EQMemSteps EQMemReadFacts
begin

text \<open>
  What the task collector does, proved once for any backend that keeps a small contract on tasks, and
  the in-memory backend as one that keeps it.
\<close>

section \<open>The contract\<close>

abbreviation all_names :: MatchQuery where
  "all_names \<equiv> \<lparr>mq_MatchPrefix = [], mq_MatchExact = [], mq_Limit = 0\<rparr>"

text \<open>
  A backend whose tasks by ID are \<open>tasks\<close> and whose clock, when a task of a queue is tried next, is \<open>clock\<close>.
\<close>

locale task_backend =
  fixes B :: "'s Backend" and ok :: "'s \<Rightarrow> bool" and tasks :: "'s \<Rightarrow> string \<rightharpoonup> Task" and clock :: "'s \<Rightarrow> string \<Rightarrow> time"
  assumes time_law: "ok s \<Longrightarrow> be_Time B s = (s', rt) \<Longrightarrow>
      ok s' \<and> tasks s' = tasks s \<and> clock s \<le> clock s' \<and> (\<forall>now. rt = Inr now \<longrightarrow> now = clock s [])"
    and queues_law: "ok s \<Longrightarrow> be_Queues B all_names s = (s', rq) \<Longrightarrow>
      ok s' \<and> tasks s' = tasks s \<and> clock s \<le> clock s' \<and> (\<forall>names. rq = Inr names \<longrightarrow> fst ` set names = t_Queue ` ran (tasks s))"
    and claim_law: "ok s \<Longrightarrow> be_TryClaim B cq s = (s', rc) \<Longrightarrow> ok s' \<and> clock s \<le> clock s' \<and>
      (case rc of
         Inl e \<Rightarrow> tasks s' = tasks s
       | Inr None \<Rightarrow> tasks s' = tasks s \<and> (\<forall>i t. tasks s i = Some t \<and> t_Queue t \<in> set (cq_Queues cq) \<longrightarrow> clock s (t_Queue t) < t_At t)
       | Inr (Some t') \<Rightarrow> \<exists>t. tasks s (t_ID t') = Some t \<and> t_At t \<le> clock s (t_Queue t) \<and> t_Queue t \<in> set (cq_Queues cq) \<and>
           t_Queue t' = t_Queue t \<and> t_Claimant t' = cq_Claimant cq \<and> tasks s' = (tasks s)(t_ID t' \<mapsto> t'))"
    and delete_law: "ok s \<Longrightarrow> tasks s (t_ID t) = Some t \<Longrightarrow> t_Claimant t = c \<Longrightarrow>
      be_Modify B (NewModification c [Task_Delete t]) s = (s', rd) \<Longrightarrow> ok s' \<and> clock s \<le> clock s' \<and>
      (case rd of Inl e \<Rightarrow> tasks s' = tasks s \<and> \<not> IsDependency e | Inr _ \<Rightarrow> tasks s' = (tasks s)(t_ID t := None))"

section \<open>What a pass may do\<close>

text \<open>
  From tasks \<open>S\<close> to tasks \<open>S'\<close>: \<open>n\<close> tasks are gone, all from the queues \<open>Q\<close> and arrived by the clock \<open>C\<close>, and the
  others are as they were; after a failure one of them may be left claimed by the collector.
\<close>

definition gone :: "(string \<rightharpoonup> Task) \<Rightarrow> (string \<rightharpoonup> Task) \<Rightarrow> string set" where
  "gone S S' = {i. S i \<noteq> None \<and> S' i = None}"

definition gc_moves :: "string set \<Rightarrow> (string \<Rightarrow> time) \<Rightarrow> bool \<Rightarrow> int \<Rightarrow> (string \<rightharpoonup> Task) \<Rightarrow> (string \<rightharpoonup> Task) \<Rightarrow> bool" where
  "gc_moves Q C failed n S S' \<longleftrightarrow> dom S' \<subseteq> dom S \<and> finite (gone S S') \<and> int (card (gone S S')) = n \<and>
     (\<forall>i t. S i = Some t \<longrightarrow> S' i = Some t \<or>
        t_Queue t \<in> Q \<and> t_At t \<le> C (t_Queue t) \<and>
        (S' i = None \<or> failed \<and> (\<exists>t'. S' i = Some t' \<and> t_Queue t' = t_Queue t \<and> t_Claimant t' = gc_claimant)))"

lemma gc_moves_refl [simp]: "gc_moves Q C failed 0 S S"
proof -
  have "gone S S = {}" by (auto simp: gone_def)
  then show ?thesis by (simp add: gc_moves_def)
qed

lemma gc_moves_trans:
  assumes "gc_moves Q C False n S S1" "gc_moves Q' C' failed m S1 S'" "C \<le> C'"
  shows "gc_moves (Q \<union> Q') C' failed (n + m) S S'"
proof -
  have d: "dom S1 \<subseteq> dom S" "dom S' \<subseteq> dom S1" using assms(1,2) by (simp_all add: gc_moves_def)
  have g: "gone S S' = gone S S1 \<union> gone S1 S'" "gone S S1 \<inter> gone S1 S' = {}"
    using d by (auto simp: gone_def dom_def)
  have step: "S' i = Some t \<or> t_Queue t \<in> Q \<union> Q' \<and> t_At t \<le> C' (t_Queue t) \<and>
      (S' i = None \<or> failed \<and> (\<exists>t'. S' i = Some t' \<and> t_Queue t' = t_Queue t \<and> t_Claimant t' = gc_claimant))" if "S i = Some t" for i t
  proof (cases "S1 i = Some t")
    case True
    then have "S' i = Some t \<or> t_Queue t \<in> Q' \<and> t_At t \<le> C' (t_Queue t) \<and>
        (S' i = None \<or> failed \<and> (\<exists>t'. S' i = Some t' \<and> t_Queue t' = t_Queue t \<and> t_Claimant t' = gc_claimant))"
      using assms(2) by (simp add: gc_moves_def)
    then show ?thesis by blast
  next
    case False
    then have "S1 i = None" "t_Queue t \<in> Q" "t_At t \<le> C (t_Queue t)" using assms(1) that by (auto simp: gc_moves_def)
    moreover have "S' i = None" using d(2) calculation(1) by (auto simp: dom_def)
    ultimately show ?thesis using assms(3) by (auto simp: le_fun_def intro: order_trans)
  qed
  have "int (card (gone S S')) = n + m" "finite (gone S S')"
    using assms(1,2) g card_Un_disjoint[of "gone S S1" "gone S1 S'"] by (auto simp: gc_moves_def)
  with d step show ?thesis by (auto simp: gc_moves_def)
qed

lemma gc_moves_delete:
  assumes "S i = Some t" "t_Queue t \<in> Q" "t_At t \<le> C (t_Queue t)"
  shows "gc_moves Q C False 1 S (S(i := None))"
proof -
  have "gone S (S(i := None)) = {i}" using assms(1) by (auto simp: gone_def)
  with assms show ?thesis by (auto simp: gc_moves_def)
qed

lemma gc_moves_claim:
  assumes "S i = Some t" "t_Queue t \<in> Q" "t_At t \<le> C (t_Queue t)" "t_Queue t' = t_Queue t" "t_Claimant t' = gc_claimant"
  shows "gc_moves Q C True 0 S (S(i \<mapsto> t'))"
proof -
  have "gone S (S(i \<mapsto> t')) = {}" by (auto simp: gone_def)
  with assms show ?thesis by (auto simp: gc_moves_def)
qed

lemma gc_moves_mono: "gc_moves Q C failed n S S' \<Longrightarrow> C \<le> C' \<Longrightarrow> Q \<subseteq> Q' \<Longrightarrow> gc_moves Q' C' failed n S S'"
  unfolding gc_moves_def le_fun_def by (blast intro: order_trans)

lemma due_queues_set: "set (fst (due_queues now names)) = {q \<in> set names. \<exists>at. GCActivation q = Inr (at, True) \<and> at \<le> now}"
  by (induction names) (auto simp: Let_def case_prod_beta split: sum.splits)

section \<open>The collector on any such backend\<close>

text \<open>The names whose collection is switched on at an instant.\<close>

definition due_at :: "time \<Rightarrow> string \<Rightarrow> bool" where
  "due_at now q \<longleftrightarrow> (\<exists>at. GCActivation q = Inr (at, True) \<and> at \<le> now)"

text \<open>Nothing that had arrived is left in a queue.\<close>

definition swept :: "string set \<Rightarrow> (string \<Rightarrow> time) \<Rightarrow> (string \<rightharpoonup> Task) \<Rightarrow> bool" where
  "swept Q C S \<longleftrightarrow> (\<forall>i t. S i = Some t \<longrightarrow> t_Queue t \<in> Q \<longrightarrow> C (t_Queue t) < t_At t)"

lemma swept_later:
  assumes "swept Q C S" "C' \<le> C" "gc_moves Q' D False n S S'"
  shows "swept Q C' S'"
  unfolding swept_def
proof (intro allI impI)
  fix i t assume h: "S' i = Some t" "t_Queue t \<in> Q"
  have "i \<in> dom S" using assms(3) h(1) by (auto simp: gc_moves_def)
  then obtain u where u: "S i = Some u" by blast
  with assms(3) h(1) have "u = t" by (fastforce simp: gc_moves_def)
  with u have "S i = Some t" by simp
  with assms(1) h(2) have "C (t_Queue t) < t_At t" by (simp add: swept_def)
  with assms(2) show "C' (t_Queue t) < t_At t" by (auto simp: le_fun_def intro: order.strict_trans1)
qed

context task_backend
begin

definition pass_ok :: "string set \<Rightarrow> int \<Rightarrow> 's gc_state \<Rightarrow> ('s gc_state \<times> goerror option) option \<Rightarrow> bool" where
  "pass_ok Q batch st res \<longleftrightarrow> (\<exists>d' r' s' err. res = Some ((d', r', s'), err) \<and> ok s' \<and> clock (snd (snd st)) \<le> clock s' \<and>
     (fst st \<le> batch \<longrightarrow> d' \<le> batch) \<and> fst st \<le> d' \<and>
     gc_moves Q (clock s') (err \<noteq> None) (d' - fst st) (tasks (snd (snd st))) (tasks s') \<and>
     (err = None \<and> d' < batch \<longrightarrow> swept Q (clock (snd (snd st))) (tasks s')))"

lemma collect_queue_ok:
  assumes "ok s" "nat (batch - d) < fuel"
  shows "pass_ok {q} batch (d, r, s) (collect_queue fuel B batch q (d, r, s))"
  using assms
proof (induction fuel arbitrary: d r s)
  case (Suc fuel)
  show ?case
  proof (cases "d < batch")
    case False
    with Suc.prems show ?thesis by (simp add: pass_ok_def)
  next
    case True
    obtain s1 rc where c: "be_TryClaim B (gc_query q) s = (s1, rc)" by (cases "be_TryClaim B (gc_query q) s")
    note cl = claim_law[OF Suc.prems(1) c, simplified gc_query_def]
    show ?thesis
    proof (cases rc)
      case (Inl e)
      with c cl True show ?thesis by (simp add: pass_ok_def gc_query_def)
    next
      case (Inr rt)
      show ?thesis
      proof (cases rt)
        case None
        with Inr c cl True show ?thesis by (auto simp: pass_ok_def gc_query_def swept_def)
      next
        case (Some t')
        with Inr cl obtain t where t: "tasks s (t_ID t') = Some t" "t_At t \<le> clock s q" "t_Queue t = q" "t_Queue t' = q"
          "t_Claimant t' = gc_claimant" "tasks s1 = (tasks s)(t_ID t' \<mapsto> t')" "ok s1" "clock s \<le> clock s1" by auto
        obtain s2 rd where m: "be_Modify B (NewModification gc_claimant [Task_Delete t']) s1 = (s2, rd)"
          by (cases "be_Modify B (NewModification gc_claimant [Task_Delete t']) s1")
        have "tasks s1 (t_ID t') = Some t'" using t(6) by simp
        note dl = delete_law[OF t(7) this t(5) m]
        have le: "clock s \<le> clock s2" using dl t(8) order_trans by blast
        have at: "t_At t \<le> clock s2 (t_Queue t)" using t(2,3) le by (auto simp: le_fun_def intro: order_trans)
        show ?thesis
        proof (cases rd)
          case (Inl e)
          have "gc_moves {q} (clock s2) True 0 (tasks s) (tasks s2)"
            using gc_moves_claim[where S = "tasks s" and C = "clock s2" and t = t and Q = "{q}" and t' = t' and i = "t_ID t'"] t at dl Inl by simp
          with Inl dl c m Some \<open>rc = Inr rt\<close> True le show ?thesis by (simp add: pass_ok_def)
        next
          case ok2: (Inr resp)
          have mv: "gc_moves {q} (clock s2) False 1 (tasks s) (tasks s2)"
            using gc_moves_delete[where S = "tasks s" and C = "clock s2" and t = t and Q = "{q}" and i = "t_ID t'"] t at dl ok2 by simp
          have "nat (batch - (d + 1)) < fuel" using Suc.prems(2) True by linarith
          with Suc.IH[of s2 "d + 1" "r @ [Deleted q 1]"] dl
          have "pass_ok {q} batch (d + 1, r @ [Deleted q 1], s2) (collect_queue fuel B batch q (d + 1, r @ [Deleted q 1], s2))" by blast
          then obtain d' r' s' err where p: "collect_queue fuel B batch q (d + 1, r @ [Deleted q 1], s2) = Some ((d', r', s'), err)"
            "ok s'" "clock s2 \<le> clock s'" "d' \<le> batch" "d + 1 \<le> d'"
            "gc_moves {q} (clock s') (err \<noteq> None) (d' - (d + 1)) (tasks s2) (tasks s')"
            "err = None \<and> d' < batch \<longrightarrow> swept {q} (clock s2) (tasks s')"
            using True by (auto simp: pass_ok_def)
          have "gc_moves {q} (clock s') (err \<noteq> None) (d' - d) (tasks s) (tasks s')"
            using gc_moves_trans[OF mv p(6,3)] by simp
          moreover have "swept {q} (clock s) (tasks s')" if "err = None \<and> d' < batch"
            using p(7) that le by (auto simp: swept_def le_fun_def intro: order.strict_trans1)
          ultimately show ?thesis
            using p c m Some \<open>rc = Inr rt\<close> ok2 True order_trans[OF le p(3)] by (simp add: pass_ok_def)
        qed
      qed
    qed
  qed
qed simp

lemma collect_queues_ok:
  assumes "ok s" "nat (batch - d) < fuel"
  shows "pass_ok (set due) batch (d, r, s) (collect_queues fuel B batch due (d, r, s))"
  using assms
proof (induction due arbitrary: d r s)
  case Nil
  then show ?case by (simp add: pass_ok_def swept_def)
next
  case (Cons q due)
  show ?case
  proof (cases "d \<ge> batch")
    case True
    with Cons.prems show ?thesis by (simp add: pass_ok_def)
  next
    case False
    from collect_queue_ok[OF Cons.prems, of q r] obtain d1 r1 s1 err where
      q: "collect_queue fuel B batch q (d, r, s) = Some ((d1, r1, s1), err)" "ok s1" "clock s \<le> clock s1" "d1 \<le> batch" "d \<le> d1"
      "gc_moves {q} (clock s1) (err \<noteq> None) (d1 - d) (tasks s) (tasks s1)"
      "err = None \<and> d1 < batch \<longrightarrow> swept {q} (clock s) (tasks s1)"
      using False by (auto simp: pass_ok_def)
    show ?thesis
    proof (cases err)
      case (Some e)
      with q False gc_moves_mono[OF q(6), of "clock s1" "set (q # due)"] show ?thesis by (auto simp: pass_ok_def)
    next
      case None
      have "nat (batch - d1) < fuel" using Cons.prems(2) q(5) by linarith
      from Cons.IH[OF q(2) this, of r1] q(4) obtain d2 r2 s2 err2 where
        p: "collect_queues fuel B batch due (d1, r1, s1) = Some ((d2, r2, s2), err2)" "ok s2" "clock s1 \<le> clock s2" "d2 \<le> batch" "d1 \<le> d2"
        "gc_moves (set due) (clock s2) (err2 \<noteq> None) (d2 - d1) (tasks s1) (tasks s2)"
        "err2 = None \<and> d2 < batch \<longrightarrow> swept (set due) (clock s1) (tasks s2)"
        by (auto simp: pass_ok_def)
      have "gc_moves ({q} \<union> set due) (clock s2) (err2 \<noteq> None) (d1 - d + (d2 - d1)) (tasks s) (tasks s2)"
        by (rule gc_moves_trans[OF _ p(6,3)]) (use q(6) None in simp)
      moreover have "swept (set (q # due)) (clock s) (tasks s2)" if h: "err2 = None \<and> d2 < batch"
      proof -
        have "swept {q} (clock s) (tasks s1)" using q(7) None h p(5) by simp
        moreover have "gc_moves (set due) (clock s2) False (d2 - d1) (tasks s1) (tasks s2)" using p(6) h by simp
        ultimately have "swept {q} (clock s) (tasks s2)" using swept_later[OF _ order_refl] by blast
        moreover have "swept (set due) (clock s) (tasks s2)"
          using p(7) h q(3) by (auto simp: swept_def le_fun_def intro: order.strict_trans1)
        ultimately show ?thesis by (auto simp: swept_def)
      qed
      ultimately show ?thesis
        using q p None False order_trans[OF q(3) p(3)] by (simp add: pass_ok_def)
    qed
  qed
qed

lemma collect_tasks_ok:
  assumes "ok s" "0 \<le> batch" "nat batch < fuel" "\<And>names. set (ord names) = set names"
  shows "\<exists>n r s' err. CollectTasksOnce fuel ord B batch s = Some ((n, r, s'), err) \<and> ok s' \<and> 0 \<le> n \<and> n \<le> batch \<and>
    gc_moves {q. due_at (clock s []) q} (clock s') (err \<noteq> None) n (tasks s) (tasks s') \<and>
    (err = None \<and> n < batch \<longrightarrow> swept {q. due_at (clock s []) q} (clock s) (tasks s'))"
proof -
  obtain s1 rt where t: "be_Time B s = (s1, rt)" by (cases "be_Time B s")
  note tl = time_law[OF assms(1) t]
  show ?thesis
  proof (cases rt)
    case (Inl e)
    with t tl assms(2) show ?thesis by (simp add: CollectTasksOnce_def)
  next
    case (Inr now)
    with tl have now: "now = clock s []" by simp
    obtain s2 rq where q: "be_Queues B all_names s1 = (s2, rq)" by (cases "be_Queues B all_names s1")
    from tl have "ok s1" by simp
    note ql = queues_law[OF this q]
    show ?thesis
    proof (cases rq)
      case (Inl e)
      with t q Inr ql tl assms(2) show ?thesis by (simp add: CollectTasksOnce_def)
    next
      case names: (Inr names)
      let ?due = "fst (due_queues now (ord (map fst names)))"
      let ?r = "snd (due_queues now (ord (map fst names)))"
      have s2: "ok s2" "tasks s2 = tasks s" "clock s \<le> clock s2" using ql tl order_trans by auto
      have f: "nat (batch - 0) < fuel" using assms(3) by simp
      have due: "set ?due = {q \<in> t_Queue ` ran (tasks s). due_at (clock s []) q}"
        using ql tl names assms(4)[of "map fst names"] by (auto simp: due_queues_set now due_at_def)
      from collect_queues_ok[OF s2(1) f, of ?due ?r] assms(2) obtain n r s' err where
        p: "collect_queues fuel B batch ?due (0, ?r, s2) = Some ((n, r, s'), err)" "ok s'" "clock s2 \<le> clock s'" "n \<le> batch" "0 \<le> n"
        "gc_moves (set ?due) (clock s') (err \<noteq> None) n (tasks s2) (tasks s')"
        "err = None \<and> n < batch \<longrightarrow> swept (set ?due) (clock s2) (tasks s')"
        by (auto simp: pass_ok_def)
      have "gc_moves {q. due_at (clock s []) q} (clock s') (err \<noteq> None) n (tasks s) (tasks s')"
        using gc_moves_mono[OF p(6) order_refl, of "{q. due_at (clock s []) q}"] due s2(2) by auto
      moreover have "swept {q. due_at (clock s []) q} (clock s) (tasks s')" if h: "err = None \<and> n < batch"
        unfolding swept_def
      proof (intro allI impI)
        fix i u assume u: "tasks s' i = Some u" "t_Queue u \<in> {q. due_at (clock s []) q}"
        have "i \<in> dom (tasks s)" using p(6) u(1) s2(2) by (auto simp: gc_moves_def)
        then obtain v where v: "tasks s i = Some v" by blast
        have "t_Queue u = t_Queue v" using p(6) u(1) v s2(2) h by (fastforce simp: gc_moves_def)
        with v have "t_Queue u \<in> set ?due" unfolding due using u(2) by (auto simp: ran_def)
        with p(7) h u(1) have "clock s2 (t_Queue u) < t_At u" by (auto simp: swept_def)
        with s2(3) show "clock s (t_Queue u) < t_At u" by (auto simp: le_fun_def intro: order.strict_trans1)
      qed
      moreover have "CollectTasksOnce fuel ord B batch s = Some ((n, r, s'), err)"
        using t q Inr names p(1) by (simp add: CollectTasksOnce_def case_prod_beta)
      ultimately show ?thesis using p(2,4,5) by blast
    qed
  qed
qed

end

section \<open>The in-memory backend keeps the contract\<close>

definition world_ok :: "world \<Rightarrow> bool" where
  "world_ok W \<longleftrightarrow> (\<forall>k q. w_clock W k q \<le> w_clock W (Suc k) q) \<and> (\<forall>k qs. mset (w_shuffle W k qs) = mset qs) \<and>
     (\<forall>k. permutes_entries (w_qlocks W k)) \<and> (\<forall>k. permutes_entries (w_tasks W k)) \<and> (\<forall>k. permutes_entries (w_nslocks W k))"

definition mem_ok :: "world \<Rightarrow> ('dt, 'lt) mem_state \<Rightarrow> bool" where
  "mem_ok W m \<longleftrightarrow> world_ok W \<and> wf_mem (fst m)"

abbreviation mem_tasks :: "('dt, 'lt) mem_state \<Rightarrow> string \<rightharpoonup> Task" where
  "mem_tasks m \<equiv> store (fst m)"

abbreviation mem_clock :: "world \<Rightarrow> ('dt, 'lt) mem_state \<Rightarrow> string \<Rightarrow> time" where
  "mem_clock W m \<equiv> w_clock W (snd m)"

lemma clock_Suc: "world_ok W \<Longrightarrow> w_clock W k \<le> w_clock W (Suc k)"
  by (simp add: world_ok_def le_fun_def)

lemma keys_fold_set: "fst ` set (fold (\<lambda>(k, v) qs. gm_set k (f v) qs) kvs m) = fst ` set m \<union> fst ` set kvs"
proof (induction kvs arbitrary: m)
  case (Cons kv kvs)
  have "fst ` set (gm_set (fst kv) (f (snd kv)) m) = insert (fst kv) (fst ` set m)" by (simp add: dom_update)
  with Cons show ?case by (auto simp: case_prod_beta)
qed simp

lemma mem_queues:
  assumes "wf_mem s" "permutes_entries ord"
  shows "\<exists>names. EQMem_Queues ord ordt now all_names s = Inr names \<and> fst ` set names = t_Queue ` ran (store s)"
proof -
  let ?names = "map ql_queue (snapshotQueueLocks ord s)"
  let ?stat = "\<lambda>q. queue_stat now q (case map_of (em_queues s) q of Some ts \<Rightarrow> ts_Range ordt ts | None \<Rightarrow> [])"
  note names = queue_names[OF assms]
  have "matchesQuery q all_names" for q by (simp add: matchesQuery_def)
  with stats_loop_spec[OF names(1), of "[]" all_names ?stat]
  have "dom (map_of (stats_loop all_names ?stat ?names [])) = set ?names"
    by (auto simp: map_add_def dom_def split: if_splits)
  then have "fst ` set (stats_loop all_names ?stat ?names []) = set ?names" by (simp only: dom_map_of_conv_image_fst)
  also have "\<dots> = t_Queue ` ran (store s)" unfolding names(2) by (auto simp: ran_def)
  finally show ?thesis by (simp add: EQMem_Queues_def QueuesFromStats_def QueueStats_def keys_fold_set)
qed

lemma delete_mod_sel:
  "m_Deletes (NewModification c [Task_Delete t]) = [IDVersion t]" "m_Inserts (NewModification c [Task_Delete t]) = []"
  "m_Changes (NewModification c [Task_Delete t]) = []" "m_Depends (NewModification c [Task_Delete t]) = []"
  "m_Arrives (NewModification c [Task_Delete t]) = []" "m_Claimant (NewModification c [Task_Delete t]) = c"
  "no_docs (NewModification c [Task_Delete t])"
  by (simp_all add: NewModification_def Task_Delete_def TaskID_Delete_def zero_Modification_def no_docs_def)

lemma delete_held_task:
  assumes "wf_mem s" "store s (t_ID t) = Some t" "t_Claimant t = c"
    "Modify T now (NewModification c [Task_Delete t]) s = (s', r)"
  shows "wf_mem s'" "case r of Inl e \<Rightarrow> store s' = store s \<and> \<not> IsDependency e | Inr _ \<Rightarrow> store s' = (store s)(t_ID t := None)"
proof -
  let ?md = "NewModification c [Task_Delete t]"
  note d = delete_mod_sel[of c t]
  have o: "wf_mem s'" "task_outcome ?md now (store s) (store s') r" using Modify_tasks[OF assms(1,4)] by simp_all
  show "wf_mem s'" by (rule o(1))
  have ok: "task_deps_ok ?md now (store s)"
    using assms(2,3) by (simp add: task_deps_ok_def d task_op_ok_def in_queue_def IDVersion_def NewTaskID_def otherwiseClaimed_def)
  have ids: "missing_ids ?md = None" by (simp add: missing_ids_def d no_docs_def[THEN iffD1, OF d(7)])
  show "case r of Inl e \<Rightarrow> store s' = store s \<and> \<not> IsDependency e | Inr _ \<Rightarrow> store s' = (store s)(t_ID t := None)"
  proof (cases r)
    case (Inl e)
    have "validate_Modification ?md = Some e"
      using assms(4) Inl modifyLocked_no_docs[OF assms(1) valid_tasks_intro[OF _ ids] d(7), of now T] ok ids
      by (cases "validate_Modification ?md") (auto simp: Modify_def modifyImpl_def)
    then have "IsInvalidArgument e" using validate_invalid(1) by (auto simp: only_invalid_def)
    with Inl o(2) show ?thesis by (cases e) (auto simp: task_outcome_def)
  next
    case (Inr x)
    obtain resp notified where x: "x = (resp, notified)" by (cases x)
    from o(2) Inr x have "store s' = commit_tasks (arrival_Changes ?md (store s)) now (store s)" by (simp add: task_outcome_def)
    then show ?thesis
      using Inr by (simp add: commit_tasks_def d IDVersion_def NewTaskID_def restrict_map_def fun_eq_iff)
  qed
qed

lemma mem_TryClaim_law:
  assumes "mem_ok W m" "mem_TryClaim W cq m = (m', r)"
  shows "mem_ok W m' \<and> mem_clock W m \<le> mem_clock W m' \<and>
      (case r of
         Inl e \<Rightarrow> mem_tasks m' = mem_tasks m
       | Inr None \<Rightarrow> mem_tasks m' = mem_tasks m \<and>
           (\<forall>i t. mem_tasks m i = Some t \<and> t_Queue t \<in> set (cq_Queues cq) \<longrightarrow> mem_clock W m (t_Queue t) < t_At t)
       | Inr (Some t') \<Rightarrow> \<exists>t. mem_tasks m (t_ID t') = Some t \<and> t_At t \<le> mem_clock W m (t_Queue t) \<and> t_Queue t \<in> set (cq_Queues cq) \<and>
           t_Queue t' = t_Queue t \<and> t_Claimant t' = cq_Claimant cq \<and> mem_tasks m' = (mem_tasks m)(t_ID t' \<mapsto> t'))"
proof -
  obtain s k where m: "m = (s, k)" by (cases m)
  have wf: "wf_mem s" "world_ok W" using assms(1) m by (simp_all add: mem_ok_def)
  note c = clock_Suc[OF wf(2), of k]
  have sh: "set (w_shuffle W k (cq_Queues cq)) = set (cq_Queues cq)" using wf(2) by (metis world_ok_def mset_eq_setD)
  show ?thesis
  proof (cases "validate_Claim cq")
    case (Some e)
    then have "m' = (s, Suc k)" "r = Inl e" using assms(2) m by (auto simp: mem_TryClaim_def TryClaim_def)
    with m wf c show ?thesis by (simp add: mem_ok_def)
  next
    case None
    obtain t' s' where t: "TryClaim (w_shuffle W k) (w_draw W k) (w_clock W k) cq s = Inr (t', s')" "wf_mem s'"
      "claim_result cq (w_clock W k) (set (w_shuffle W k (cq_Queues cq))) s t' s'"
      by (rule TryClaim_Inr[OF wf(1) None, of "w_shuffle W k" "w_draw W k" "w_clock W k"])
    have m': "m' = (s', Suc k)" "r = Inr t'" using assms(2) m t(1) by (auto simp: mem_TryClaim_def)
    show ?thesis
    proof (cases t')
      case None
      with t(3) sh have a: "tasks_at s' = tasks_at s" "\<forall>q \<in> set (cq_Queues cq). available s q (w_clock W k q) = {}"
        by (simp_all add: claim_result_def)
      have st: "store s' = store s" using store_cong[OF wf(1) t(2) a(1)] by simp
      have "w_clock W k (t_Queue u) < t_At u" if "store s i = Some u" "t_Queue u \<in> set (cq_Queues cq)" for i u
        using a(2) that available_store[OF wf(1), of i "t_Queue u" "w_clock W k (t_Queue u)"] by fastforce
      with m m' None st t(2) wf c show ?thesis by (auto simp: mem_ok_def)
    next
      case (Some u)
      with t(3) sh obtain v where "store s (t_ID u) = Some v" "t_Queue v \<in> set (cq_Queues cq)" "t_At v \<le> w_clock W k (t_Queue v)"
        "u = claim_task cq (w_clock W k (t_Queue v)) v" "store s' = (store s)(t_ID u \<mapsto> u)" by (auto simp: claim_result_def)
      moreover from this have "t_Queue u = t_Queue v" "t_Claimant u = cq_Claimant cq" by (simp_all add: claim_task_def Task_Copy_def)
      ultimately show ?thesis using m m' Some t(2) wf c by (simp add: mem_ok_def)
    qed
  qed
qed

interpretation mem_gc: task_backend "eqmem_backend T W" "mem_ok W" mem_tasks "mem_clock W"
  for T :: "('dt, 'lt) trees" and W
proof
  fix m m' :: "('dt, 'lt) mem_state" and rt
  assume h: "mem_ok W m" "be_Time (eqmem_backend T W) m = (m', rt)"
  then have "m' = (fst m, Suc (snd m))" "rt = Inr (mem_clock W m [])"
    by (auto simp: eqmem_backend_def pure_call_def split: prod.splits)
  with h(1) show "mem_ok W m' \<and> mem_tasks m' = mem_tasks m \<and> mem_clock W m \<le> mem_clock W m' \<and> (\<forall>now. rt = Inr now \<longrightarrow> now = mem_clock W m [])"
    by (simp add: mem_ok_def clock_Suc)
next
  fix m m' :: "('dt, 'lt) mem_state" and rq
  assume h: "mem_ok W m" "be_Queues (eqmem_backend T W) all_names m = (m', rq)"
  then have "m' = (fst m, Suc (snd m))"
    "rq = EQMem_Queues (w_qlocks W (snd m)) (w_tasks W (snd m)) (w_clock W (snd m) []) all_names (fst m)"
    by (auto simp: eqmem_backend_def pure_call_def split: prod.splits)
  moreover obtain names where
    "EQMem_Queues (w_qlocks W (snd m)) (w_tasks W (snd m)) (w_clock W (snd m) []) all_names (fst m) = Inr names"
    "fst ` set names = t_Queue ` ran (mem_tasks m)"
    using mem_queues[of "fst m" "w_qlocks W (snd m)" "w_tasks W (snd m)" "w_clock W (snd m) []"] h(1) by (auto simp: mem_ok_def world_ok_def)
  ultimately show "mem_ok W m' \<and> mem_tasks m' = mem_tasks m \<and> mem_clock W m \<le> mem_clock W m' \<and>
      (\<forall>names. rq = Inr names \<longrightarrow> fst ` set names = t_Queue ` ran (mem_tasks m))"
    using h(1) by (simp add: mem_ok_def clock_Suc)
next
  fix m m' :: "('dt, 'lt) mem_state" and cq r
  assume "mem_ok W m" "be_TryClaim (eqmem_backend T W) cq m = (m', r)"
  then show "mem_ok W m' \<and> mem_clock W m \<le> mem_clock W m' \<and>
      (case r of
         Inl e \<Rightarrow> mem_tasks m' = mem_tasks m
       | Inr None \<Rightarrow> mem_tasks m' = mem_tasks m \<and>
           (\<forall>i t. mem_tasks m i = Some t \<and> t_Queue t \<in> set (cq_Queues cq) \<longrightarrow> mem_clock W m (t_Queue t) < t_At t)
       | Inr (Some t') \<Rightarrow> \<exists>t. mem_tasks m (t_ID t') = Some t \<and> t_At t \<le> mem_clock W m (t_Queue t) \<and> t_Queue t \<in> set (cq_Queues cq) \<and>
           t_Queue t' = t_Queue t \<and> t_Claimant t' = cq_Claimant cq \<and> mem_tasks m' = (mem_tasks m)(t_ID t' \<mapsto> t'))"
    by (intro mem_TryClaim_law) (simp_all add: eqmem_backend_def)
next
  fix m m' :: "('dt, 'lt) mem_state" and t c rd
  assume h: "mem_ok W m" "mem_tasks m (t_ID t) = Some t" "t_Claimant t = c"
    "be_Modify (eqmem_backend T W) (NewModification c [Task_Delete t]) m = (m', rd)"
  let ?md = "NewModification c [Task_Delete t]"
  obtain s k where m: "m = (s, k)" by (cases m)
  obtain s' r where r: "Modify T (w_clock W k []) ?md s = (s', r)" by (cases "Modify T (w_clock W k []) ?md s")
  have m': "m' = (s', Suc k)" "rd = (case r of Inl e \<Rightarrow> Inl e | Inr (resp, notified) \<Rightarrow> Inr resp)"
    using h(4) m r by (auto simp: eqmem_backend_def mem_Modify_def)
  have "wf_mem s" "store s (t_ID t) = Some t" using h(1,2) m by (simp_all add: mem_ok_def)
  note d = delete_held_task[OF this h(3) r]
  from d m m' h(1) show "mem_ok W m' \<and> mem_clock W m \<le> mem_clock W m' \<and>
      (case rd of Inl e \<Rightarrow> mem_tasks m' = mem_tasks m \<and> \<not> IsDependency e | Inr _ \<Rightarrow> mem_tasks m' = (mem_tasks m)(t_ID t := None))"
    by (cases r) (auto simp: mem_ok_def clock_Suc)
qed

text \<open>
  C32: a pass of the task collector of the in-memory backend ends, with fuel for one more round than the
  batch. It removes at most a batch of tasks, each from a queue whose name switches collection on by then
  and each arrived by then; every other task stays exactly as it was, but for one that a failing pass may
  leave claimed by the collector. If it ends without an error below the batch, no task that had arrived
  when it began is left in such a queue.
\<close>

theorem collectOnce_spec:
  assumes "wf_mem s" "world_ok W" "0 \<le> batch" "nat batch < fuel" "\<forall>names. set (ord names) = set names"
  shows "\<exists>n reports s' k' err. collectOnce fuel ord T W batch (s, k) = Some ((n, reports, s', k'), err) \<and> wf_mem s' \<and> 0 \<le> n \<and> n \<le> batch \<and>
    gc_moves {q. due_at (w_clock W k []) q} (w_clock W k') (err \<noteq> None) n (store s) (store s') \<and>
    (err = None \<and> n < batch \<longrightarrow> swept {q. due_at (w_clock W k []) q} (w_clock W k) (store s'))"
  using mem_gc.collect_tasks_ok[of W "(s, k)" batch fuel ord T] assms
  by (auto simp: collectOnce_def mem_ok_def)

text \<open>A backend with a task in a queue that is switched on and one in another queue.\<close>

definition ex_gc :: "(docKeyEntry list, lockEntry list) EQMem" where
  "ex_gc = fst (Modify list_trees 10 (NewModification ''me''
     [InsertingInto ''/a/gc='' [WithID ''x''], InsertingInto ''/b'' [WithID ''y'']]) (new_EQMem False))"

definition ex_world :: world where
  "ex_world = \<lparr>w_clock = (\<lambda>k q. 20), w_shuffle = (\<lambda>_ qs. qs), w_draw = (\<lambda>_ _ _. (True, True)), w_qlocks = (\<lambda>_ m. m),
     w_tasks = (\<lambda>_ m. m), w_nslocks = (\<lambda>_ m. m)\<rparr>"

theorem collectOnce_spec_witness:
  "\<exists>reports s' k'. collectOnce 3 (\<lambda>qs. qs) list_trees ex_world 2 (ex_gc, 0) = Some ((1, reports, s', k'), None) \<and>
     store s' ''x'' = None \<and> store s' ''y'' = store ex_gc ''y''"
proof -
  have wf: "wf_mem ex_gc"
    using Modify_tasks[OF new_docs(1)] unfolding ex_gc_def by (metis prod.collapse)
  have w: "world_ok ex_world" by (simp add: world_ok_def ex_world_def permutes_entries_def)
  obtain n r s' k' err where c: "collectOnce 3 (\<lambda>qs. qs) list_trees ex_world 2 (ex_gc, 0) = Some ((n, r, s', k'), err)"
    "gc_moves {q. due_at (w_clock ex_world 0 []) q} (w_clock ex_world k') (err \<noteq> None) n (store ex_gc) (store s')"
    using collectOnce_spec[OF wf w, of 2 3 "\<lambda>qs. qs" list_trees 0] by auto
  have e: "map_option (\<lambda>((n, r, s', k'), err). (n, err, store s' ''x'' = None)) (collectOnce 3 (\<lambda>qs. qs) list_trees ex_world 2 (ex_gc, 0)) =
      Some (1, None, True)" by code_simp
  have "map_option t_Queue (store ex_gc ''y'') = Some ''/b''" "GCActivation ''/b'' = Inr (0, False)" by code_simp+
  then obtain z where z: "store ex_gc ''y'' = Some z" "t_Queue z = ''/b''" "\<not> due_at (w_clock ex_world 0 []) (t_Queue z)"
    by (auto simp: due_at_def)
  have "store s' ''y'' = Some z \<or> due_at (w_clock ex_world 0 []) (t_Queue z)"
    using c(2) z(1) unfolding gc_moves_def by blast
  with z have "store s' ''y'' = store ex_gc ''y''" by simp
  with c(1) e show ?thesis by auto
qed

end
