(* ===== verification/ClientFacts.thy ===== *)
theory ClientFacts
  imports Client CollectorFacts
begin

text \<open>
  Properties of the client: the loops of the blocking claims return what the first deciding try gives,
  and a client of its own claimant acts as that claimant, so that what one holds is safe from another.
\<close>

section \<open>Blocking claims\<close>

text \<open>The wait before try \<open>n + 1\<close>, and the state in which try \<open>n\<close> is made.\<close>

definition poll_wait :: "nat \<Rightarrow> duration" where
  "poll_wait n = min (2 ^ n * startInterval) maxCheckInterval"

fun polled :: "(duration \<Rightarrow> 's \<Rightarrow> 's \<times> goerror option) \<Rightarrow> ('s \<Rightarrow> 's \<times> (goerror + Task option)) \<Rightarrow> nat \<Rightarrow> 's \<Rightarrow> 's" where
  "polled sleep tc 0 s = s"
| "polled sleep tc (Suc n) s = fst (sleep (poll_wait n) (fst (tc (polled sleep tc n s))))"

lemma poll_wait_Suc: "(let w = poll_wait n * 2 in if w > maxCheckInterval then maxCheckInterval else w) = poll_wait (Suc n)"
  by (auto simp: poll_wait_def Let_def min_def maxCheckInterval_def startInterval_def time_Second_def)

text \<open>What a try and the sleep after it decide, if they do.\<close>

definition poll_outcome :: "(duration \<Rightarrow> 's \<Rightarrow> 's \<times> goerror option) \<Rightarrow> ('s \<Rightarrow> 's \<times> (goerror + Task option)) \<Rightarrow> nat \<Rightarrow> 's \<Rightarrow>
    ('s \<times> (goerror + Task option)) option" where
  "poll_outcome sleep tc n s =
     (case tc s of
        (s, Inr None) \<Rightarrow> (case sleep (poll_wait n) s of (s, Some e) \<Rightarrow> Some (s, Inl e) | (s, None) \<Rightarrow> None)
      | r \<Rightarrow> Some r)"

lemma poll_loop_step:
  "poll_loop (Suc fuel) sleep tc (poll_wait n) s =
     (case poll_outcome sleep tc n s of
        Some r \<Rightarrow> Some r
      | None \<Rightarrow> poll_loop fuel sleep tc (poll_wait (Suc n)) (fst (sleep (poll_wait n) (fst (tc s)))))"
  using poll_wait_Suc[of n] by (auto simp: poll_outcome_def Let_def split: prod.splits sum.splits option.splits)

lemma poll_loop_decides:
  assumes "\<forall>m < n. poll_outcome sleep tc m (polled sleep tc m s) = None" "poll_outcome sleep tc n (polled sleep tc n s) = Some r"
    "k \<le> n" "n - k < fuel"
  shows "poll_loop fuel sleep tc (poll_wait k) (polled sleep tc k s) = Some r"
  using assms(3,4)
proof (induction "n - k" arbitrary: k fuel)
  case 0
  then obtain f where "fuel = Suc f" "k = n" by (cases fuel) auto
  then show ?case using assms(2) by (simp add: poll_loop_step del: poll_loop.simps)
next
  case (Suc d)
  then obtain f where f: "fuel = Suc f" by (cases fuel) auto
  have "k < n" using Suc by simp
  moreover have "poll_loop f sleep tc (poll_wait (Suc k)) (polled sleep tc (Suc k) s) = Some r"
    by (rule Suc.hyps(1)) (use Suc f in auto)
  ultimately show ?case using assms(1) f by (simp add: poll_loop_step del: poll_loop.simps)
qed

text \<open>
  C34: the polling claim tries again and again, sleeping one second after the first try, twice as long after
  each next one and never longer than thirty seconds, until a try returns a task or fails or the context
  ends; then it returns exactly that, a task or an error and never neither, whatever the others did to the
  queues in between. With fuel for the tries up to that one the loop ends.
\<close>

theorem PollTryClaim_returns:
  assumes "\<forall>m < n. poll_outcome sleep (tc eq) m (polled sleep (tc eq) m s) = None"
    "poll_outcome sleep (tc eq) n (polled sleep (tc eq) n s) = Some r" "n < fuel"
  shows "PollTryClaim fuel sleep eq tc s = Some r \<and> snd r \<noteq> Inr None \<and>
    startInterval \<le> poll_wait n \<and> poll_wait n \<le> maxCheckInterval"
proof -
  have w: "poll_wait 0 = startInterval" by (simp add: poll_wait_def startInterval_def maxCheckInterval_def time_Second_def)
  have "PollTryClaim fuel sleep eq tc s = Some r"
    using poll_loop_decides[OF assms(1,2), of 0 fuel] assms(3) w by (simp add: PollTryClaim_def)
  moreover have "snd r \<noteq> Inr None"
  proof -
    obtain a x where e: "tc eq (polled sleep (tc eq) n s) = (a, x)" by (cases "tc eq (polled sleep (tc eq) n s)")
    show ?thesis using assms(2) unfolding poll_outcome_def e by (auto split: prod.splits sum.splits option.splits)
  qed
  moreover have "startInterval \<le> poll_wait n \<and> poll_wait n \<le> maxCheckInterval"
    by (simp add: poll_wait_def startInterval_def maxCheckInterval_def time_Second_def)
  ultimately show ?thesis by blast
qed

theorem PollTryClaim_returns_witness:
  "PollTryClaim 4 (\<lambda>d s. (s + 1, None)) (NewClaimQuery []) (\<lambda>q s. (s, if s < 2 then Inr None else Inl (PlainError ''x''))) (0 :: nat) =
     Some (2, Inl (PlainError ''x'')) \<and> poll_wait 7 = 30000000000"
proof -
  let ?sl = "\<lambda>d s :: nat. (s + 1, None :: goerror option)"
  let ?tc = "\<lambda>(q :: ClaimQuery) s :: nat. (s, if s < 2 then Inr (None :: Task option) else Inl (PlainError ''x''))"
  have "\<forall>m < 2. poll_outcome ?sl (?tc (NewClaimQuery [])) m (polled ?sl (?tc (NewClaimQuery [])) m 0) = None"
    by (simp add: poll_outcome_def numeral_2_eq_2 less_Suc_eq all_conj_distrib)
  moreover have "poll_outcome ?sl (?tc (NewClaimQuery [])) 2 (polled ?sl (?tc (NewClaimQuery [])) 2 0) = Some (2, Inl (PlainError ''x''))"
    by (simp add: poll_outcome_def numeral_2_eq_2)
  ultimately show ?thesis
    using PollTryClaim_returns[of 2 ?sl ?tc "NewClaimQuery []" 0 "(2, Inl (PlainError ''x''))" 4]
    by (simp add: poll_wait_def startInterval_def maxCheckInterval_def time_Second_def)
qed

section \<open>Clients of a claimant of their own\<close>

lemma scoped_TryClaim_as:
  "scoped_TryClaim B c opts s = (s, snd (scoped_TryClaim B c opts s)) \<and> isl (snd (scoped_TryClaim B c opts s)) \<or>
   (\<exists>q. cq_Claimant q = sc_claimant c \<and> scoped_TryClaim B c opts s = be_TryClaim B q s)"
proof -
  let ?q = "claimQueryFromOpts (eq_clientID (sc_eq c)) (opts @ [WithClaimant (sc_claimant c)])"
  have "cq_Claimant ?q = sc_claimant c" by (simp add: claimQueryFromOpts_def WithClaimant_def Let_def)
  then show ?thesis
    by (cases "ClaimQuery_Validate ?q") (auto simp: scoped_TryClaim_def EntroQ_TryClaim_def Let_def)
qed

text \<open>What a client sends for a modification, and what it makes of the answer.\<close>

definition sent_mod :: "string \<Rightarrow> ModifyArg list \<Rightarrow> EntroQ \<Rightarrow> Modification" where
  "sent_mod claimant args c =
     (let mod0 = NewModification claimant args;
          (inserts, c) = name_inserts td_ID (\<lambda>i ins. ins\<lparr>td_ID := i\<rparr>) (m_Inserts mod0) c
      in mod0\<lparr>m_Inserts := inserts, m_DocInserts := fst (name_inserts dd_ID (\<lambda>i ins. ins\<lparr>dd_ID := i\<rparr>) (m_DocInserts mod0) c)\<rparr>)"

lemma EntroQ_Modify_sent:
  "snd (fst (EntroQ_Modify B args (c, s))) = s \<and> isl (snd (EntroQ_Modify B args (c, s))) \<or>
   snd (fst (EntroQ_Modify B args (c, s))) = fst (be_Modify B (sent_mod (eq_clientID c) args c) s) \<and>
   isl (snd (EntroQ_Modify B args (c, s))) = isl (snd (be_Modify B (sent_mod (eq_clientID c) args c) s))"
proof -
  let ?m = "sent_mod (eq_clientID c) args c"
  obtain s' r where b: "be_Modify B ?m s = (s', r)" by (cases "be_Modify B ?m s")
  show ?thesis
    using b by (cases r; cases "projl r") (auto simp: EntroQ_Modify_def sent_mod_def Let_def case_prod_beta)
qed

lemma sent_mod_claimant: "m_Claimant (sent_mod claimant (args @ [ModifyAs a]) c) = a"
  by (simp add: sent_mod_def NewModification_def ModifyAs_def Let_def case_prod_beta)

lemma scoped_Modify_as:
  "\<exists>md. m_Claimant md = sc_claimant c \<and>
     (snd (fst (scoped_Modify B args (c, s))) = s \<or> snd (fst (scoped_Modify B args (c, s))) = fst (be_Modify B md s)) \<and>
     sc_claimant (fst (fst (scoped_Modify B args (c, s)))) = sc_claimant c"
proof (intro exI conjI)
  let ?m = "sent_mod (eq_clientID (sc_eq c)) (args @ [ModifyAs (sc_claimant c)]) (sc_eq c)"
  show "m_Claimant ?m = sc_claimant c" by (rule sent_mod_claimant)
  have "snd (fst (scoped_Modify B args (c, s))) = snd (fst (EntroQ_Modify B (args @ [ModifyAs (sc_claimant c)]) (sc_eq c, s)))"
    by (simp add: scoped_Modify_def Let_def case_prod_beta)
  then show "snd (fst (scoped_Modify B args (c, s))) = s \<or> snd (fst (scoped_Modify B args (c, s))) = fst (be_Modify B ?m s)"
    using EntroQ_Modify_sent[of B "args @ [ModifyAs (sc_claimant c)]" "sc_eq c" s] by auto
  show "sc_claimant (fst (fst (scoped_Modify B args (c, s)))) = sc_claimant c"
    by (simp add: scoped_Modify_def Let_def case_prod_beta)
qed

text \<open>A task that someone else holds stays as it is.\<close>

lemma mem_Modify_held:
  assumes "wf_mem s" "store s i = Some t" "t_Claimant t \<noteq> []" "t_Claimant t \<noteq> m_Claimant md" "w_clock W k [] < t_At t"
    "mem_Modify T W md (s, k) = ((s', k'), r)"
  shows "wf_mem s' \<and> store s' i = Some t"
proof -
  obtain s1 r1 where m: "Modify T (w_clock W k []) md s = (s1, r1)" by (cases "Modify T (w_clock W k []) md s")
  then have s1: "s1 = s'" using assms(6) by (auto simp: mem_Modify_def)
  from Modify_tasks[OF assms(1) m] have o: "wf_mem s'" "task_outcome md (w_clock W k []) (store s) (store s') r1" by (simp_all add: s1)
  have held: "otherwiseClaimed md t (w_clock W k [])" using assms(3-5) by (simp add: otherwiseClaimed_def)
  have "store s' i = Some t"
  proof (cases r1)
    case (Inl e)
    with o(2) assms(2) show ?thesis by (simp add: task_outcome_def)
  next
    case (Inr x)
    then have "task_deps_ok md (w_clock W k []) (store s)" "store s' = commit_tasks (arrival_Changes md (store s)) (w_clock W k []) (store s)"
      using o(2) by (auto simp: task_outcome_def split: prod.splits)
    with held_untouched[OF typed_store[OF assms(1)] _ assms(2) held] commit_untouched[OF typed_store[OF assms(1)]] assms(2)
    show ?thesis by simp
  qed
  with o(1) show ?thesis by simp
qed

lemma mem_TryClaim_held:
  assumes "wf_mem s" "store s i = Some t" "\<forall>q. w_clock W k q < t_At t" "mem_TryClaim W cq (s, k) = ((s', k'), r)"
  shows "wf_mem s' \<and> store s' i = Some t"
proof (cases rule: TryClaim_cases[OF assms(1), of "w_shuffle W k" "w_draw W k" "w_clock W k" cq])
  case (3 u t' s1)
  then have "i \<noteq> t_ID t'" using assms(2,3) by (metis leD option.inject)
  with 3 assms(2,4) show ?thesis by (auto simp: mem_TryClaim_def)
qed (use assms in \<open>auto simp: mem_TryClaim_def\<close>)

text \<open>
  C31: two clients on one connection, each with a claimant of its own, do not reach each other's tasks. A
  client sends its own claimant whatever options it is given; so once one has claimed a task of the
  in-memory backend, nothing that the other claims or modifies before the lease ends, with any arguments
  at all, changes that task.
\<close>

theorem scoped_exclusion:
  assumes "wf_mem s" "world_ok W" "sc_claimant a \<noteq> sc_claimant b" "sc_claimant a \<noteq> []"
    "scoped_TryClaim (eqmem_backend T W) a opts (s, k) = ((s1, k1), Inr (Some t))" "\<forall>q. w_clock W k1 q < t_At t"
  shows "t_Claimant t = sc_claimant a \<and> store s1 (t_ID t) = Some t \<and>
    store (fst (fst (scoped_TryClaim (eqmem_backend T W) b opts' (s1, k1)))) (t_ID t) = Some t \<and>
    store (fst (snd (fst (scoped_Modify (eqmem_backend T W) args (b, (s1, k1)))))) (t_ID t) = Some t"
proof -
  let ?B = "eqmem_backend T W"
  from scoped_TryClaim_as[of ?B a opts "(s, k)"] assms(5) obtain cq where
    cq: "cq_Claimant cq = sc_claimant a" "mem_TryClaim W cq (s, k) = ((s1, k1), Inr (Some t))"
    by (auto simp: eqmem_backend_def)
  have "mem_ok W (s, k)" using assms(1,2) by (simp add: mem_ok_def)
  from mem_TryClaim_law[OF this cq(2)] cq(1) have
    t: "t_Claimant t = sc_claimant a" "store s1 (t_ID t) = Some t" "wf_mem s1" by (auto simp: mem_ok_def)
  have c: "store (fst (fst (scoped_TryClaim ?B b opts' (s1, k1)))) (t_ID t) = Some t"
    using scoped_TryClaim_as[of ?B b opts' "(s1, k1)"]
  proof
    assume "\<exists>q. cq_Claimant q = sc_claimant b \<and> scoped_TryClaim ?B b opts' (s1, k1) = be_TryClaim ?B q (s1, k1)"
    then obtain q where q: "scoped_TryClaim ?B b opts' (s1, k1) = mem_TryClaim W q (s1, k1)" by (auto simp: eqmem_backend_def)
    obtain s2 k2 r where m: "mem_TryClaim W q (s1, k1) = ((s2, k2), r)" by (metis prod.exhaust)
    from mem_TryClaim_held[OF t(3,2) assms(6) m] q m show ?thesis by simp
  qed (use t(2) in \<open>metis fst_conv\<close>)
  have "store (fst (snd (fst (scoped_Modify ?B args (b, (s1, k1)))))) (t_ID t) = Some t"
  proof -
    obtain md where md: "m_Claimant md = sc_claimant b"
      "snd (fst (scoped_Modify ?B args (b, (s1, k1)))) = (s1, k1) \<or>
       snd (fst (scoped_Modify ?B args (b, (s1, k1)))) = fst (mem_Modify T W md (s1, k1))"
      using scoped_Modify_as[of b ?B args "(s1, k1)"] by (auto simp: eqmem_backend_def)
    obtain s2 k2 r where m: "mem_Modify T W md (s1, k1) = ((s2, k2), r)" by (metis prod.exhaust)
    have h: "t_Claimant t \<noteq> []" "t_Claimant t \<noteq> m_Claimant md" "w_clock W k1 [] < t_At t" using assms(3,4,6) t(1) md(1) by simp_all
    from mem_Modify_held[OF t(3,2) h m] md(2) m t(2) show ?thesis by auto
  qed
  with t c show ?thesis by blast
qed

definition ex_client :: "string \<Rightarrow> scopedClient" where
  "ex_client i = \<lparr>sc_eq = \<lparr>eq_clientID = ''c'', eq_subject = [], eq_gen = (\<lambda>_. ''g''), eq_used = 0\<rparr>, sc_claimant = i\<rparr>"

theorem scoped_exclusion_witness:
  "\<exists>s1 k1 t. scoped_TryClaim (eqmem_backend list_trees ex_world) (ex_client ''me'') [From (\<lambda>qs. qs) [''/b''], WithClaimant ''you''] (ex_gc, 0) =
       ((s1, k1), Inr (Some t)) \<and> t_Claimant t = ''me'' \<and>
     store (fst (snd (fst (scoped_Modify (eqmem_backend list_trees ex_world) [ModifyAs ''me'', Task_Delete t] (ex_client ''you'', (s1, k1)))))) (t_ID t) = Some t"
proof -
  let ?B = "eqmem_backend list_trees ex_world"
  let ?c = "scoped_TryClaim ?B (ex_client ''me'') [From (\<lambda>qs. qs) [''/b''], WithClaimant ''you''] (ex_gc, 0)"
  have "(case snd ?c of Inr (Some t) \<Rightarrow> t_At t > 20 | _ \<Rightarrow> False)" by code_simp
  then obtain s1 k1 t where c: "?c = ((s1, k1), Inr (Some t))" "t_At t > 20"
    by (cases ?c) (auto split: sum.splits option.splits)
  have wf: "wf_mem ex_gc"
    using Modify_tasks[OF new_docs(1)] unfolding ex_gc_def by (metis prod.collapse)
  have w: "world_ok ex_world" by (simp add: world_ok_def ex_world_def permutes_entries_def)
  have cl: "\<forall>q. w_clock ex_world k1 q < t_At t" using c(2) by (simp add: ex_world_def)
  have n: "sc_claimant (ex_client ''me'') \<noteq> sc_claimant (ex_client ''you'')" "sc_claimant (ex_client ''me'') \<noteq> []"
    by (simp_all add: ex_client_def)
  from scoped_exclusion[OF wf w n c(1) cl, of "[]" "[ModifyAs ''me'', Task_Delete t]"] c(1) show ?thesis
    by (auto simp: ex_client_def)
qed

end
