(* ===== verification/WorkerHold.thy ===== *)
theory WorkerHold
  imports Worker ClientFacts
begin

text \<open>
  What a worker holds on the in-memory backend, and the modifications that decide what is held: they
  succeed while the hold is as stored. Renewing keeps the hold and says so truly, and a worker that has lost
  its claim commits nothing.
\<close>

section \<open>What a worker holds\<close>

abbreviation gset :: "DocSet \<Rightarrow> DSet" where
  "gset g \<equiv> \<lparr>g_Namespace = ds_Namespace g, g_Key = ds_Key g\<rparr>"

text \<open>
  The task is stored as held, by the holder \<open>me\<close>, and so is every set's lock. The names are such as a
  request may have.
\<close>

definition holds :: "string \<Rightarrow> held \<Rightarrow> (string \<rightharpoonup> Task) \<Rightarrow> (DSet \<Rightarrow> Lock) \<Rightarrow> bool" where
  "holds me h S L \<longleftrightarrow> me \<noteq> [] \<and> length me \<le> MaxClaimantBytes \<and>
     S (t_ID (hl_task h)) = Some (hl_task h) \<and> t_Claimant (hl_task h) = me \<and> length (t_ID (hl_task h)) \<le> MaxIDBytes \<and>
     distinct (map gset (hl_sets h)) \<and>
     (\<forall>g \<in> set (hl_sets h). ds_Namespace g \<noteq> [] \<and> ds_Key g \<noteq> [] \<and> lk_Stored (L (gset g)) \<and>
        lk_Version (L (gset g)) = ds_Version g \<and> lk_Claimant (L (gset g)) = me)"

text \<open>
  A modification that decides what is held: one operation on the task, by its version, and the arrival of
  every set.
\<close>

definition on_task :: "Task \<Rightarrow> Modification \<Rightarrow> bool" where
  "on_task t md \<longleftrightarrow>
     m_Changes md = [] \<and> m_Deletes md = [] \<and> (\<exists>b. m_Arrives md = [\<lparr>ta_TaskID = IDVersion t, ta_By = b\<rparr>]) \<or>
     m_Changes md = [] \<and> m_Deletes md = [IDVersion t] \<and> m_Arrives md = [] \<or>
     (\<exists>c. m_Changes md = [c] \<and> t_ID c = t_ID t \<and> t_Version c = t_Version t \<and> t_FromQueue c = t_Queue t \<and> t_Queue c \<noteq> [] \<and>
        m_Deletes md = [] \<and> m_Arrives md = [])"

definition settles :: "string \<Rightarrow> held \<Rightarrow> duration \<Rightarrow> Modification \<Rightarrow> bool" where
  "settles me h b md \<longleftrightarrow> m_Claimant md = me \<and> m_Inserts md = [] \<and> m_Depends md = [] \<and> m_DocInserts md = [] \<and>
     m_DocChanges md = [] \<and> m_DocDeletes md = [] \<and> m_DocDepends md = [] \<and>
     m_DocArrives md = map (\<lambda>g. \<lparr>da_DocID = DocSet_Ref g, da_By = b\<rparr>) (hl_sets h) \<and> on_task (hl_task h) md"

lemma settles_valid:
  assumes "settles me h b md" "holds me h S L" "typed S"
  shows "validate_Modification md = None" "missing_ids md = None" "docs_named md" "task_deps_ok md now S" "doc_deps_ok md now D L"
proof -
  have q: "t_Queue (hl_task h) \<noteq> []" using assms(2,3) by (auto simp: holds_def typed_def)
  have d: "distinct (map (\<lambda>a. (did_Namespace (da_DocID a), did_Key (da_DocID a))) (m_DocArrives md))"
  proof -
    have "distinct (map (\<lambda>g. (ds_Namespace g, ds_Key g)) (hl_sets h))"
      using assms(2) by (simp add: holds_def distinct_map inj_on_def)
    then show ?thesis using assms(1) by (simp add: settles_def DocSet_Ref_def NewDocSetRef_def comp_def)
  qed
  have e: "EnsureModifyKeys md = None"
    unfolding EnsureModifyKeys_None
    using assms q d by (auto simp: settles_def on_task_def holds_def IsEmpty_def DocSet_Ref_def NewDocSetRef_def IsSetRef_def IDVersion_def NewTaskID_def)
  have a: "\<exists>x. AllDependencies md = Inr x"
    using assms(1) by (auto simp: settles_def on_task_def AllDependencies_def modDependencies_def addTaskDep_def)
  then show "validate_Modification md = None"
    using e assms(1,2) by (auto simp: validate_Modification_def docRefs_def docPlaces_def lengths_def settles_def on_task_def holds_def
        validate_Claimant_def Let_def)
  show "missing_ids md = None" "docs_named md" using assms(1) by (auto simp: settles_def missing_ids_def docs_named_def)
  show "task_deps_ok md now S"
    using assms(1,2) by (auto simp: settles_def on_task_def holds_def task_deps_ok_def task_op_ok_def in_queue_def otherwiseClaimed_def
        IDVersion_def NewTaskID_def)
  show "doc_deps_ok md now D L"
    using assms(1,2) by (auto simp: settles_def holds_def doc_deps_ok_def arr_ok_def set_of_arrival_def DocSet_Ref_def NewDocSetRef_def
        HeldByOther_def)
qed

text \<open>The lock of a held set after such a modification, and that of any other set.\<close>

definition arrived_lock :: "string \<Rightarrow> time \<Rightarrow> duration \<Rightarrow> Lock \<Rightarrow> Lock" where
  "arrived_lock me now b l = \<lparr>lk_Stored = True, lk_Version = lk_Version l + 1, lk_Claimant = (if b > 0 then me else []),
     lk_At = (if b > 0 then now + b else now), lk_NumDocs = lk_NumDocs l\<rparr>"

lemma settles_locks:
  assumes "settles me h b md" "holds me h S L" "0 \<le> now"
  shows "next_locks md now D L g = (if g \<in> gset ` set (hl_sets h) then arrived_lock me now b (L g) else L g)"
proof -
  let ?ws = "map (\<lambda>g. (gset g, b, 0 :: int)) (hl_sets h)"
  have ws: "doc_writes md (member_in D) = ?ws"
    using assms(1) by (simp add: settles_def doc_writes_def set_of_arrival_def DocSet_Ref_def NewDocSetRef_def comp_def)
  have d: "distinct (map gset (hl_sets h))" using assms(2) by (simp add: holds_def)
  have one: "bys_of (map (\<lambda>g. (gset g, b, 0 :: int)) gs) k = (if k \<in> gset ` set gs then [b] else [])"
    "added_to (map (\<lambda>g. (gset g, b, 0 :: int)) gs) k = 0" if "distinct (map gset gs)" for gs k
    using that by (induction gs) (auto simp: bys_of_def added_to_def)
  have img: "fst ` set ?ws = gset ` set (hl_sets h)" by (auto simp: image_iff)
  show ?thesis
    unfolding next_locks_def new_locks_def ws img
    using new_lock_hold[OF assms(3), of "[b]" me "L g" 0] one[OF d] assms(1,2)
    by (auto simp: arrived_lock_def settles_def holds_def written_def Let_def intro: Lock.equality)
qed

text \<open>Such a modification of what is held succeeds.\<close>

lemma settles_lands:
  assumes "trees_ok T okd okl" "wf_mem s" "wf_docs T okd okl s" "holds me h (store s) (lock_of T s)" "settles me h b md"
  obtains s' resp n where "Modify T now md s = (s', Inr (resp, n))" "wf_mem s'" "wf_docs T okd okl s'"
    "task_outcome md now (store s) (store s') (Inr (resp, n))" "lock_of T s' = next_locks md now (doc_store s) (lock_of T s)"
    "doc_store s' = doc_store s"
    "mr_ChangedSets resp = map (\<lambda>g. Current (gset g) (lock_of T s' (gset g))) (hl_sets h)"
proof -
  note v = settles_valid[OF assms(5,4) typed_store[OF assms(2)]]
  obtain s' r where m: "Modify T now md s = (s', r)" by (cases "Modify T now md s")
  from Modify_docs[OF assms(1-3) v(3,1,2), of now] have
    d: "doc_result T okd okl md now (task_deps_ok md now (store s)) s (s', r)" by (simp add: m)
  obtain resp n where r: "r = Inr (resp, n)" using d v(4,5) by (cases r) (auto simp: doc_result_def)
  have o: "wf_docs T okd okl s'" "doc_outcome md now (doc_store s) (lock_of T s) (doc_store s') (lock_of T s') resp"
    using d by (simp_all add: r doc_result_def)
  have "doc_store s' = doc_store s"
    using o(2) assms(5) by (simp add: doc_outcome_def settles_def commit_docs_def restrict_map_def)
  moreover have "mr_ChangedSets resp = map (\<lambda>g. Current (gset g) (lock_of T s' (gset g))) (hl_sets h)"
    using o(2) assms(5) by (simp add: doc_outcome_def settles_def set_of_arrival_def DocSet_Ref_def NewDocSetRef_def)
  ultimately show thesis
    using that[of s' resp n] m r o Modify_tasks[OF assms(2) m] by (simp add: doc_outcome_def)
qed

section \<open>The same through a client\<close>

abbreviation mem_client :: "('dt, 'lt) trees \<Rightarrow> world \<Rightarrow> (('dt, 'lt) mem_state \<Rightarrow> time) \<Rightarrow>
    (ClaimQuery \<Rightarrow> ('dt, 'lt) mem_state \<Rightarrow> (('dt, 'lt) mem_state \<times> (goerror + Task option)) option) \<Rightarrow> (scopedClient \<times> ('dt, 'lt) mem_state) Client" where
  "mem_client T W now claim \<equiv> scoped_client claim (eqmem_backend T W) now"

definition sends :: "scopedClient \<Rightarrow> ModifyArg list \<Rightarrow> Modification" where
  "sends c args = NewModification (eq_clientID (sc_eq c)) (args @ [ModifyAs (sc_claimant c)])"

lemma scoped_Modify_no_inserts:
  assumes "m_Inserts (sends c args) = []" "m_DocInserts (sends c args) = []" "\<forall>x \<in> set (m_Changes (sends c args)). \<not> bad_json (t_Value x)"
    "be_Modify B (sends c args) s = (s', r)"
  shows "scoped_Modify B args (c, s) = ((c, s'), case r of Inl (DependencyErr e) \<Rightarrow> Inl (DependencyErr (nameArrivals (sends c args) e)) | _ \<Rightarrow> r)"
proof -
  let ?m = "NewModification (eq_clientID (sc_eq c)) (args @ [ModifyAs (sc_claimant c)])"
  have m: "?m\<lparr>m_Inserts := [], m_DocInserts := []\<rparr> = ?m" using assms(1,2) by (simp add: sends_def)
  have "\<not> list_ex (\<lambda>chg. bad_json (t_Value chg)) (m_Changes ?m)" using assms(3) by (simp add: sends_def list_ex_iff)
  then have "EntroQ_Modify B (args @ [ModifyAs (sc_claimant c)]) (sc_eq c, s) =
      ((sc_eq c, s'), case r of Inl (DependencyErr e) \<Rightarrow> Inl (DependencyErr (nameArrivals ?m e)) | _ \<Rightarrow> r)"
    using assms(1,2,4)
    by (auto simp: EntroQ_Modify_def sends_def Let_def m split: sum.splits goerror.splits)
  then show ?thesis unfolding sends_def by (simp add: scoped_Modify_def)
qed

lemma scoped_lands:
  assumes "trees_ok T okd okl" "wf_mem s" "wf_docs T okd okl s" "holds (sc_claimant c) h (store s) (lock_of T s)"
    "settles (sc_claimant c) h b (sends c args)" "\<forall>x \<in> set (m_Changes (sends c args)). \<not> bad_json (t_Value x)" "0 \<le> w_clock W k []"
  obtains s' resp where "scoped_Modify (eqmem_backend T W) args (c, (s, k)) = ((c, (s', Suc k)), Inr resp)" "wf_mem s'" "wf_docs T okd okl s'"
    "store s' = commit_tasks (arrival_Changes (sends c args) (store s)) (w_clock W k []) (store s)"
    "mr_ChangedTasks resp = map (\<lambda>x. changed_to (sends c args) (w_clock W k []) (the (store s (t_ID x))) x) (m_Changes (arrival_Changes (sends c args) (store s)))"
    "\<forall>g. lock_of T s' g = (if g \<in> gset ` set (hl_sets h) then arrived_lock (sc_claimant c) (w_clock W k []) b (lock_of T s g) else lock_of T s g)"
    "doc_store s' = doc_store s" "mr_ChangedSets resp = map (\<lambda>g. Current (gset g) (lock_of T s' (gset g))) (hl_sets h)"
proof -
  let ?md = "sends c args" and ?now = "w_clock W k []"
  obtain s' resp n where m: "Modify T ?now ?md s = (s', Inr (resp, n))" "wf_mem s'" "wf_docs T okd okl s'"
    "task_outcome ?md ?now (store s) (store s') (Inr (resp, n))" "lock_of T s' = next_locks ?md ?now (doc_store s) (lock_of T s)"
    "doc_store s' = doc_store s" "mr_ChangedSets resp = map (\<lambda>g. Current (gset g) (lock_of T s' (gset g))) (hl_sets h)"
    by (rule settles_lands[OF assms(1-5)])
  have "be_Modify (eqmem_backend T W) ?md (s, k) = ((s', Suc k), Inr resp)" by (simp add: eqmem_backend_def mem_Modify_def m(1))
  from scoped_Modify_no_inserts[OF _ _ assms(6) this] assms(5)
  have "scoped_Modify (eqmem_backend T W) args (c, (s, k)) = ((c, (s', Suc k)), Inr resp)" by (simp add: settles_def)
  then show thesis
    using that[of s' resp] m settles_locks[OF assms(5,4,7)] by (simp add: task_outcome_def)
qed

section \<open>Renewing\<close>

abbreviation renewal_of :: "duration \<Rightarrow> held \<Rightarrow> ArrivalEntry list" where
  "renewal_of granted h \<equiv> [ArrivalEntry_Docs (ArrivalEntry_Tasks (ReadyIn granted) [hl_task h]) (hl_sets h)]"

lemma renewal_sends:
  "sends c [Arriving (renewal_of granted h) now] = zero_Modification\<lparr>m_Claimant := sc_claimant c,
     m_Arrives := [\<lparr>ta_TaskID = IDVersion (hl_task h), ta_By = granted\<rparr>],
     m_DocArrives := map (\<lambda>g. \<lparr>da_DocID = DocSet_Ref g, da_By = granted\<rparr>) (hl_sets h)\<rparr>"
  by (simp add: sends_def NewModification_def ModifyAs_def Arriving_def ArrivalEntry_Docs_def ArrivalEntry_Tasks_def ReadyIn_def
      ReadyNow_def ArrivalEntry_By_def zero_Modification_def Let_def)

lemma renewal_settles: "settles (sc_claimant c) h granted (sends c [Arriving (renewal_of granted h) now])"
  unfolding renewal_sends by (simp add: settles_def on_task_def zero_Modification_def)

lemma renewal_call:
  "cl_UpdateArrival (mem_client T W now claim) (renewal_of granted h) (c, s) =
     scoped_Modify (eqmem_backend T W) [Arriving (renewal_of granted h) (now s)] (c, s)"
  by (simp add: scoped_client_def scoped_UpdateArrival_def nothing_arrives_def Arriving_def ArrivalEntry_Docs_def
      ArrivalEntry_Tasks_def Let_def zero_Modification_def)

text \<open>The response of a renewal gives the worker its new hold.\<close>

lemma relock_all_map:
  assumes "\<forall>g \<in> set gs. locks (ds_Namespace g, ds_Key g) = Some (f g)"
  shows "relock_all locks gs = Some (map (\<lambda>g. relocked g (f g)) gs)"
  using assms by (induction gs) auto

lemma renewed_response:
  assumes "mr_ChangedTasks resp = [t]" "t_ID t = t_ID (hl_task h)" "distinct (map gset (hl_sets h))"
    "mr_ChangedSets resp = map (\<lambda>g. Current (gset g) (L (gset g))) (hl_sets h)"
  shows "renewed h resp = Inr \<lparr>hl_task = t, hl_sets = map (\<lambda>g. relocked g (Current (gset g) (L (gset g)))) (hl_sets h)\<rparr>"
proof -
  let ?m = "map (\<lambda>l. ((ds_Namespace l, ds_Key l), l)) (mr_ChangedSets resp)"
  have d: "distinct (map fst ?m)"
    using assms(3) by (simp add: assms(4) distinct_map inj_on_def Current_def comp_def)
  then have d': "distinct (map fst (rev ?m))" by (simp only: rev_map[symmetric] distinct_rev)
  have "\<forall>g \<in> set (hl_sets h). map_of (rev ?m) (ds_Namespace g, ds_Key g) = Some (Current (gset g) (L (gset g)))"
  proof
    fix g assume "g \<in> set (hl_sets h)"
    then have "((ds_Namespace g, ds_Key g), Current (gset g) (L (gset g))) \<in> set (rev ?m)"
      by (force simp: assms(4) Current_def)
    then show "map_of (rev ?m) (ds_Namespace g, ds_Key g) = Some (Current (gset g) (L (gset g)))"
      by (rule map_of_is_SomeI[OF d'])
  qed
  from relock_all_map[OF this] show ?thesis using assms(1,2) by (simp add: renewed_def)
qed

text \<open>The task a renewal at \<open>now\<close> stores.\<close>

definition renewed_task :: "string \<Rightarrow> duration \<Rightarrow> time \<Rightarrow> Task \<Rightarrow> Task" where
  "renewed_task me granted now t = t\<lparr>t_Value := copy_bytes (t_Value t), t_Version := t_Version t + 1, t_FromQueue := t_Queue t,
     t_At := now + granted, t_by := granted, t_Claimant := me, t_Modified := now\<rparr>"

lemma TaskArrival_Change_ID: "t_ID (TaskArrival_Change a (Some t)) = t_ID t"
  by (simp add: TaskArrival_Change_def Task_Copy_def Let_def)

lemma renewal_changed:
  assumes "0 < granted" "S (t_ID t) = Some t" "hl_task h = t" "md = sends c [Arriving (renewal_of granted h) nw]"
  shows "m_Changes (arrival_Changes md S) = [TaskArrival_Change \<lparr>ta_TaskID = IDVersion t, ta_By = granted\<rparr> (Some t)]"
    "changed_to md now t (TaskArrival_Change \<lparr>ta_TaskID = IDVersion t, ta_By = granted\<rparr> (Some t)) = renewed_task (sc_claimant c) granted now t"
    "commit_tasks (arrival_Changes md S) now S = S(t_ID t \<mapsto> renewed_task (sc_claimant c) granted now t)"
proof -
  show ch: "m_Changes (arrival_Changes md S) = [TaskArrival_Change \<lparr>ta_TaskID = IDVersion t, ta_By = granted\<rparr> (Some t)]"
    unfolding assms(4) renewal_sends using assms(2,3) by (simp add: arrival_Changes_def zero_Modification_def IDVersion_def NewTaskID_def)
  have c: "copy_bytes (copy_bytes v) = copy_bytes v" for v by (simp add: copy_bytes_def)
  have eq: "changed_to md' now t (TaskArrival_Change \<lparr>ta_TaskID = IDVersion t, ta_By = granted\<rparr> (Some t)) = renewed_task (sc_claimant c) granted now t"
    if "m_resetClaims md' = {}" "m_Claimant md' = sc_claimant c" for md'
    using assms(1) that by (auto simp: changed_to_def renewed_task_def TaskArrival_Change_def IDVersion_def NewTaskID_def Task_Copy_def
        NormalizeArrival_def ArrivalPastWindow_def duration_defs holder_def ResetsClaims_def c Let_def intro: Task.equality)
  have md: "m_resetClaims md = {}" "m_Claimant md = sc_claimant c" "m_Deletes md = []" "m_Inserts md = []"
    unfolding assms(4) renewal_sends by (simp_all add: zero_Modification_def)
  then show "changed_to md now t (TaskArrival_Change \<lparr>ta_TaskID = IDVersion t, ta_By = granted\<rparr> (Some t)) = renewed_task (sc_claimant c) granted now t"
    by (intro eq)
  have "m_resetClaims (arrival_Changes md S) = {}" "m_Claimant (arrival_Changes md S) = sc_claimant c" "m_Deletes (arrival_Changes md S) = []"
    "m_Inserts (arrival_Changes md S) = []" using md by (simp_all add: arrival_Changes_def)
  then show "commit_tasks (arrival_Changes md S) now S = S(t_ID t \<mapsto> renewed_task (sc_claimant c) granted now t)"
    unfolding commit_tasks_def ch using eq[of "arrival_Changes md S"] assms(2)
    by (simp add: restrict_map_def TaskArrival_Change_ID)
qed

text \<open>What is held after a renewal.\<close>

definition renewed_hold :: "string \<Rightarrow> duration \<Rightarrow> time \<Rightarrow> (DSet \<Rightarrow> Lock) \<Rightarrow> held \<Rightarrow> held" where
  "renewed_hold me granted now L h = \<lparr>hl_task = renewed_task me granted now (hl_task h),
     hl_sets = map (\<lambda>g. relocked g (Current (gset g) (arrived_lock me now granted (L (gset g))))) (hl_sets h)\<rparr>"

lemma renewed_hold_names:
  "t_ID (hl_task (renewed_hold me granted now L h)) = t_ID (hl_task h)"
  "map gset (hl_sets (renewed_hold me granted now L h)) = map gset (hl_sets h)"
  by (simp_all add: renewed_hold_def renewed_task_def relocked_def comp_def)

lemma renew_tick_holds:
  assumes "trees_ok T okd okl" "wf_mem s" "wf_docs T okd okl s" "holds (sc_claimant c) h (store s) (lock_of T s)" "0 < granted"
    "0 \<le> w_clock W k []" "rn_cur rn = h" "rn_stopErr rn = None"
  obtains s' where "renew_tick (mem_client T W now claim) granted interval margin rnd (rn, (c, (s, k))) =
      (rn\<lparr>rn_next := interval, rn_cur := renewed_hold (sc_claimant c) granted (w_clock W k []) (lock_of T s) h, rn_retryDelay := 0\<rparr>, (c, (s', Suc k)))"
    "wf_mem s'" "wf_docs T okd okl s'" "doc_store s' = doc_store s"
    "store s' = (store s)(t_ID (hl_task h) \<mapsto> renewed_task (sc_claimant c) granted (w_clock W k []) (hl_task h))"
    "\<forall>g. lock_of T s' g = (if g \<in> gset ` set (hl_sets h) then arrived_lock (sc_claimant c) (w_clock W k []) granted (lock_of T s g) else lock_of T s g)"
proof -
  let ?args = "[Arriving (renewal_of granted h) (now (s, k))]" and ?now = "w_clock W k []"
  have h: "store s (t_ID (hl_task h)) = Some (hl_task h)" "distinct (map gset (hl_sets h))" using assms(4) by (simp_all add: holds_def)
  have nc: "\<forall>x \<in> set (m_Changes (sends c ?args)). \<not> bad_json (t_Value x)" unfolding renewal_sends by (simp add: zero_Modification_def)
  note ren = renewal_changed[where S = "store s" and h = h and c = c and nw = "now (s, k)", OF assms(5) h(1) refl refl]
  obtain s' resp where l: "scoped_Modify (eqmem_backend T W) ?args (c, (s, k)) = ((c, (s', Suc k)), Inr resp)" "wf_mem s'" "wf_docs T okd okl s'"
    "store s' = commit_tasks (arrival_Changes (sends c ?args) (store s)) ?now (store s)"
    "mr_ChangedTasks resp = map (\<lambda>x. changed_to (sends c ?args) ?now (the (store s (t_ID x))) x) (m_Changes (arrival_Changes (sends c ?args) (store s)))"
    "\<forall>g. lock_of T s' g = (if g \<in> gset ` set (hl_sets h) then arrived_lock (sc_claimant c) ?now granted (lock_of T s g) else lock_of T s g)"
    "doc_store s' = doc_store s" "mr_ChangedSets resp = map (\<lambda>g. Current (gset g) (lock_of T s' (gset g))) (hl_sets h)"
    by (rule scoped_lands[OF assms(1-4) renewal_settles nc assms(6)])
  have r: "renewed h resp = Inr (renewed_hold (sc_claimant c) granted ?now (lock_of T s) h)"
  proof -
    have "mr_ChangedTasks resp = [renewed_task (sc_claimant c) granted ?now (hl_task h)]"
      unfolding l(5) ren(1) using h(1) by (simp add: ren(2) TaskArrival_Change_ID)
    from renewed_response[OF this _ h(2) l(8)] show ?thesis
      using l(6) by (simp add: renewed_hold_def renewed_task_def)
  qed
  have "renew_tick (mem_client T W now claim) granted interval margin rnd (rn, (c, (s, k))) =
      (rn\<lparr>rn_next := interval, rn_cur := renewed_hold (sc_claimant c) granted ?now (lock_of T s) h, rn_retryDelay := 0\<rparr>, (c, (s', Suc k)))"
    using assms(7,8) l(1) r by (simp add: renew_tick_def renewal_call)
  then show thesis using that[of s'] l ren(3) by simp
qed

lemma renewed_hold_holds:
  assumes "holds me h S L" "0 < granted" "S' (t_ID (hl_task h)) = Some (renewed_task me granted now (hl_task h))"
    "\<forall>g \<in> gset ` set (hl_sets h). L' g = arrived_lock me now granted (L g)"
  shows "holds me (renewed_hold me granted now L h) S' L'"
proof -
  let ?h = "renewed_hold me granted now L h"
  have t: "hl_task ?h = renewed_task me granted now (hl_task h)" by (simp add: renewed_hold_def)
  have d: "distinct (map gset (hl_sets ?h))" using assms(1) unfolding renewed_hold_names by (simp add: holds_def)
  have "\<forall>g \<in> set (hl_sets ?h). ds_Namespace g \<noteq> [] \<and> ds_Key g \<noteq> [] \<and> lk_Stored (L' (gset g)) \<and>
        lk_Version (L' (gset g)) = ds_Version g \<and> lk_Claimant (L' (gset g)) = me"
    using assms(1,2,4) by (auto simp: renewed_hold_def relocked_def Current_def arrived_lock_def holds_def)
  with d t assms(1,3) show ?thesis by (simp add: holds_def renewed_task_def)
qed

text \<open>What others may do between two ticks: anything that leaves the held task and the held sets alone.\<close>

definition keeps_held :: "('dt, 'lt) trees \<Rightarrow> ('dt \<Rightarrow> bool) \<Rightarrow> ('lt \<Rightarrow> bool) \<Rightarrow> scopedClient \<Rightarrow> string \<Rightarrow> DSet set \<Rightarrow>
    (scopedClient \<times> ('dt, 'lt) mem_state \<Rightarrow> scopedClient \<times> ('dt, 'lt) mem_state) \<Rightarrow> bool" where
  "keeps_held T okd okl c i G f \<longleftrightarrow> (\<forall>s k. wf_mem s \<longrightarrow> wf_docs T okd okl s \<longrightarrow>
     (\<exists>s' k'. f (c, (s, k)) = (c, (s', k')) \<and> wf_mem s' \<and> wf_docs T okd okl s' \<and> store s' i = store s i \<and>
        (\<forall>g \<in> G. lock_of T s' g = lock_of T s g)))"

lemma holds_kept:
  assumes "holds me h S L" "S' (t_ID (hl_task h)) = S (t_ID (hl_task h))" "\<forall>g \<in> gset ` set (hl_sets h). L' g = L g"
  shows "holds me h S' L'"
  using assms by (auto simp: holds_def)

text \<open>The hold, and the lease it was granted: what every tick keeps.\<close>

definition renewing :: "('dt, 'lt) trees \<Rightarrow> ('dt \<Rightarrow> bool) \<Rightarrow> ('lt \<Rightarrow> bool) \<Rightarrow> scopedClient \<Rightarrow> duration \<Rightarrow> held \<Rightarrow> renewer \<Rightarrow>
    ('dt, 'lt) EQMem \<Rightarrow> bool" where
  "renewing T okd okl c granted h rn s \<longleftrightarrow> wf_mem s \<and> wf_docs T okd okl s \<and> rn_stopErr rn = None \<and>
     holds (sc_claimant c) (rn_cur rn) (store s) (lock_of T s) \<and> grantedLease (hl_task (rn_cur rn)) = granted \<and>
     t_ID (hl_task (rn_cur rn)) = t_ID (hl_task h) \<and> t_Queue (hl_task (rn_cur rn)) = t_Queue (hl_task h) \<and>
     t_Claims (hl_task (rn_cur rn)) = t_Claims (hl_task h) \<and> map gset (hl_sets (rn_cur rn)) = map gset (hl_sets h)"

lemma renewed_task_sel [simp]:
  "t_ID (renewed_task me granted now t) = t_ID t" "t_Queue (renewed_task me granted now t) = t_Queue t"
  "t_Claims (renewed_task me granted now t) = t_Claims t" "t_Version (renewed_task me granted now t) = t_Version t + 1"
  by (simp_all add: renewed_task_def)

lemma renew_tick_step:
  assumes "trees_ok T okd okl" "0 < granted" "0 \<le> w_clock W k []" "renewing T okd okl c granted h rn s"
  obtains s' rn' where "renew_tick (mem_client T W now claim) granted interval margin rnd (rn, (c, (s, k))) = (rn', (c, (s', Suc k)))"
    "renewing T okd okl c granted h rn' s'" "rn_next rn' = interval" "t_Version (hl_task (rn_cur rn')) = t_Version (hl_task (rn_cur rn)) + 1"
proof -
  let ?now = "w_clock W k []" and ?h = "rn_cur rn"
  let ?h' = "renewed_hold (sc_claimant c) granted ?now (lock_of T s) ?h"
  let ?rn = "rn\<lparr>rn_next := interval, rn_cur := ?h', rn_retryDelay := 0\<rparr>"
  have r: "wf_mem s" "wf_docs T okd okl s" "holds (sc_claimant c) ?h (store s) (lock_of T s)" "rn_stopErr rn = None"
    using assms(4) by (simp_all add: renewing_def)
  obtain s' where t: "renew_tick (mem_client T W now claim) granted interval margin rnd (rn, (c, (s, k))) = (?rn, (c, (s', Suc k)))"
    "wf_mem s'" "wf_docs T okd okl s'" "doc_store s' = doc_store s"
    "store s' = (store s)(t_ID (hl_task ?h) \<mapsto> renewed_task (sc_claimant c) granted ?now (hl_task ?h))"
    "\<forall>g. lock_of T s' g = (if g \<in> gset ` set (hl_sets ?h) then arrived_lock (sc_claimant c) ?now granted (lock_of T s g) else lock_of T s g)"
    by (rule renew_tick_holds[OF assms(1) r(1-3) assms(2,3) refl r(4)])
  have "holds (sc_claimant c) ?h' (store s') (lock_of T s')"
    by (rule renewed_hold_holds[OF r(3) assms(2)]) (simp_all add: t)
  moreover have "grantedLease (hl_task ?h') = granted"
    using assms(2,4) by (auto simp: renewing_def renewed_hold_def renewed_task_def grantedLease_def time_Sub_def)
  ultimately have "renewing T okd okl c granted h ?rn s'"
    using assms(4) t(2,3) renewed_hold_names(2)[of "sc_claimant c" granted ?now "lock_of T s" ?h]
    by (simp add: renewing_def renewed_hold_def)
  then show thesis using that[OF t(1)] by (simp add: renewed_hold_def)
qed

lemma renew_ticks_hold:
  assumes "trees_ok T okd okl" "0 < granted" "\<forall>k. 0 \<le> w_clock W k []"
    "\<forall>(f, x) \<in> set ticks. keeps_held T okd okl c (t_ID (hl_task h)) (gset ` set (hl_sets h)) f" "renewing T okd okl c granted h rn s"
  shows "\<exists>rn' s' k'. renew_ticks (mem_client T W now claim) granted interval margin ticks (rn, (c, (s, k))) = (rn', (c, (s', k'))) \<and>
    renewing T okd okl c granted h rn' s' \<and>
    t_Version (hl_task (rn_cur rn')) = t_Version (hl_task (rn_cur rn)) + of_nat (length ticks)"
  using assms(4,5)
proof (induction ticks arbitrary: rn s k)
  case (Cons tk ticks)
  obtain f x where tk: "tk = (f, x)" by (cases tk)
  have r: "wf_mem s" "wf_docs T okd okl s" using Cons.prems(2) by (simp_all add: renewing_def)
  have "keeps_held T okd okl c (t_ID (hl_task h)) (gset ` set (hl_sets h)) f" using Cons.prems(1) tk by simp
  then obtain s1 k1 where f: "f (c, (s, k)) = (c, (s1, k1))" "wf_mem s1" "wf_docs T okd okl s1"
    "store s1 (t_ID (hl_task h)) = store s (t_ID (hl_task h))" "\<forall>g \<in> gset ` set (hl_sets h). lock_of T s1 g = lock_of T s g"
    using r unfolding keeps_held_def by meson
  have n: "t_ID (hl_task (rn_cur rn)) = t_ID (hl_task h)" "gset ` set (hl_sets (rn_cur rn)) = gset ` set (hl_sets h)"
    using Cons.prems(2) by (simp_all add: renewing_def) (metis list.set_map)
  have "renewing T okd okl c granted h rn s1"
    using Cons.prems(2) f holds_kept[of "sc_claimant c" "rn_cur rn" "store s" "lock_of T s" "store s1" "lock_of T s1"] n
    by (simp add: renewing_def)
  then obtain s2 rn2 where t: "renew_tick (mem_client T W now claim) granted interval margin x (rn, (c, (s1, k1))) = (rn2, (c, (s2, Suc k1)))"
    "renewing T okd okl c granted h rn2 s2" "t_Version (hl_task (rn_cur rn2)) = t_Version (hl_task (rn_cur rn)) + 1"
    using renew_tick_step[OF assms(1,2) spec[OF assms(3)]] by metis
  from Cons.IH[OF _ t(2), of "Suc k1"] Cons.prems(1) t(1,3) f(1) tk show ?case by (auto simp: add.assoc)
qed simp

lemma interval_positive: "0 < renewInterval t \<Longrightarrow> 0 < grantedLease t"
proof -
  assume i: "0 < renewInterval t"
  have "renewInterval t = 0" if "grantedLease t = 0" using that by (simp add: renewInterval_def RenewalDurationFor_def wrap64_def)
  moreover have "0 \<le> grantedLease t" by (simp add: grantedLease_def)
  ultimately show "0 < grantedLease t" using i by fastforce
qed

text \<open>
  C6: a worker that renews keeps what it holds and knows it. Whatever others do between the ticks of its
  timer, so long as they leave the held task and the held sets alone, every renewal on the in-memory backend
  succeeds: the body is never canceled for a lost claim, and when it ends the worker's task and the versions
  of its sets are exactly the stored ones, held by the worker, under a lease as long as the claim was
  granted, with the task's version moved once for every renewal and its claim count untouched.
\<close>

theorem renewal_keeps_hold:
  assumes "trees_ok T okd okl" "\<forall>k. 0 \<le> w_clock W k []" "wf_mem s" "wf_docs T okd okl s" "holds (sc_claimant c) h (store s) (lock_of T s)"
    "\<forall>(f, x) \<in> set ticks. keeps_held T okd okl c (t_ID (hl_task h)) (gset ` set (hl_sets h)) f"
  shows "\<exists>s1 k1 h'. doWhileRenewing (mem_client T W now claim) since h ticks ctxErr body (c, (s, k)) =
      (case body ctxErr (c, (s1, k1)) of
         (s2, err, assigned) \<Rightarrow> (s2, None, case err of Some (WErr Canceled) \<Rightarrow> map_option WErr ctxErr | _ \<Rightarrow> err, h', assigned)) \<and>
    wf_mem s1 \<and> wf_docs T okd okl s1 \<and> holds (sc_claimant c) h' (store s1) (lock_of T s1) \<and>
    grantedLease (hl_task h') = grantedLease (hl_task h) \<and> t_ID (hl_task h') = t_ID (hl_task h) \<and>
    t_Queue (hl_task h') = t_Queue (hl_task h) \<and> t_Claims (hl_task h') = t_Claims (hl_task h) \<and>
    map gset (hl_sets h') = map gset (hl_sets h) \<and>
    t_Version (hl_task h') = t_Version (hl_task h) + of_nat (if 0 < renewInterval (hl_task h) then length ticks else 0)"
proof -
  let ?g = "grantedLease (hl_task h)" and ?i = "renewInterval (hl_task h)" and ?m = "renewalMargin (hl_task h)"
  let ?rn = "\<lparr>rn_cur = h, rn_next = max 0 (wrap64 (?i - since)), rn_retryDelay = 0, rn_stopErr = None\<rparr>"
  have r: "renewing T okd okl c ?g h ?rn s" using assms(3-5) by (simp add: renewing_def)
  obtain rn s1 k1 where t: "(if ?i > 0 then renew_ticks (mem_client T W now claim) ?g ?i ?m ticks (?rn, (c, (s, k))) else (?rn, (c, (s, k)))) =
      (rn, (c, (s1, k1)))" "renewing T okd okl c ?g h rn s1"
    "t_Version (hl_task (rn_cur rn)) = t_Version (hl_task h) + of_nat (if 0 < ?i then length ticks else 0)"
  proof (cases "?i > 0")
    case True
    with that renew_ticks_hold[OF assms(1) interval_positive[OF True] assms(2,6) r, where now = now and claim = claim and interval = ?i and margin = ?m and k = k] show thesis by auto
  next
    case False
    with that[of ?rn s k] r show thesis by simp
  qed
  have "doWhileRenewing (mem_client T W now claim) since h ticks ctxErr body (c, (s, k)) =
      (case body ctxErr (c, (s1, k1)) of
         (s2, err, assigned) \<Rightarrow> (s2, None, case err of Some (WErr Canceled) \<Rightarrow> map_option WErr ctxErr | _ \<Rightarrow> err, rn_cur rn, assigned))"
    using t(1,2) unfolding doWhileRenewing_def Let_def renewing_def by simp
  with t(2,3) show ?thesis by (intro exI[of _ s1] exI[of _ k1] exI[of _ "rn_cur rn"]) (simp add: renewing_def)
qed

text \<open>A backend in which \<open>me\<close> holds a task and a set of one doc, and what it holds.\<close>

definition ex_held_mod :: Modification where
  "ex_held_mod = NewModification ''me'' [InsertingInto ''/q'' [WithID ''t1'', WithArrivalTimeIn 30],
     PuttingDocInto ''ns'' [WithIDKeys ''d1'' ''k'' ''s1'', WithDocArrivalTimeBy 30]]"

definition ex_held :: "(docKeyEntry list, lockEntry list) EQMem" where
  "ex_held = fst (Modify list_trees 10 ex_held_mod (new_EQMem False))"

definition ex_hold :: held where
  "ex_hold = \<lparr>hl_task = the (store ex_held ''t1''), hl_sets = [Current \<lparr>g_Namespace = ''ns'', g_Key = ''k''\<rparr> (lock_of list_trees ex_held \<lparr>g_Namespace = ''ns'', g_Key = ''k''\<rparr>)]\<rparr>"

lemma ex_held_facts:
  "wf_mem ex_held" "wf_docs list_trees (sorted_wrt docKeyLess) (sorted_wrt lockKeyLess) ex_held"
  "holds ''me'' ex_hold (store ex_held) (lock_of list_trees ex_held)" "renewInterval (hl_task ex_hold) = 20"
proof -
  have e: "fst (Modify list_trees 10 ex_held_mod (new_EQMem False)) = ex_held" by (simp add: ex_held_def)
  show "wf_mem ex_held" using Modify_tasks[OF new_docs(1)] e by (metis prod.collapse)
  have "docs_named ex_held_mod" "validate_Modification ex_held_mod = None" "missing_ids ex_held_mod = None" by code_simp+
  from Modify_docs[OF list_trees_ok new_docs(1) new_docs(3)[OF list_trees_ok] this, of 10]
  show "wf_docs list_trees (sorted_wrt docKeyLess) (sorted_wrt lockKeyLess) ex_held"
    unfolding ex_held_def doc_result_def by (simp add: case_prod_beta)
  show "holds ''me'' ex_hold (store ex_held) (lock_of list_trees ex_held)" by code_simp
  show "renewInterval (hl_task ex_hold) = 20" by code_simp
qed

theorem renewal_keeps_hold_witness:
  "\<exists>s1 k1 h'. doWhileRenewing (mem_client list_trees ex_world (\<lambda>_. 20) (\<lambda>q s. None)) 0 ex_hold [(id, 0), (id, 0)] None (\<lambda>cause s. (s, None, ()))
       (ex_client ''me'', (ex_held, 0)) = ((ex_client ''me'', (s1, k1)), None, None, h', ()) \<and>
     t_Version (hl_task h') = 2 \<and> store s1 ''t1'' = Some (hl_task h')"
proof -
  have k: "\<forall>(f, x) \<in> set [(id, 0 :: int), (id, 0)]. keeps_held list_trees (sorted_wrt docKeyLess) (sorted_wrt lockKeyLess) (ex_client ''me'')
      (t_ID (hl_task ex_hold)) (gset ` set (hl_sets ex_hold)) f" by (simp add: keeps_held_def)
  have c: "sc_claimant (ex_client ''me'') = ''me''" "\<forall>k. 0 \<le> w_clock ex_world k []" by (simp_all add: ex_client_def ex_world_def)
  have v: "t_Version (hl_task ex_hold) = 0" "t_ID (hl_task ex_hold) = ''t1''" by code_simp+
  from renewal_keeps_hold[OF list_trees_ok c(2) ex_held_facts(1,2) _ k, unfolded c(1), OF ex_held_facts(3),
      where now = "\<lambda>_. 20" and claim = "\<lambda>q s. None" and since = 0 and ctxErr = None and body = "\<lambda>cause s. (s, None, ())" and k = 0] ex_held_facts(4) v
  show ?thesis by (auto simp: holds_def)
qed

section \<open>Losing a claim\<close>

text \<open>A hold that is gone at \<open>now\<close>: the task or a set is not at its version, or someone else holds it.\<close>

definition lost :: "string \<Rightarrow> held \<Rightarrow> time \<Rightarrow> (string \<rightharpoonup> Task) \<Rightarrow> (DSet \<Rightarrow> Lock) \<Rightarrow> bool" where
  "lost me h now S L \<longleftrightarrow>
     (\<forall>t. S (t_ID (hl_task h)) = Some t \<longrightarrow> t_Queue t \<noteq> t_Queue (hl_task h) \<or> t_Version t \<noteq> t_Version (hl_task h) \<or>
        t_At t > now \<and> t_Claimant t \<noteq> [] \<and> t_Claimant t \<noteq> me) \<or>
     (\<exists>g \<in> set (hl_sets h). \<not> lk_Stored (L (gset g)) \<or> lk_Version (L (gset g)) \<noteq> ds_Version g \<or> HeldByOther (L (gset g)) me now)"

lemma renewal_deps:
  "task_deps_ok (sends c [Arriving (renewal_of granted h) nw]) now S \<and> doc_deps_ok (sends c [Arriving (renewal_of granted h) nw]) now D L \<longleftrightarrow>
     \<not> lost (sc_claimant c) h now S L"
proof -
  let ?md = "sends c [Arriving (renewal_of granted h) nw]"
  have "task_deps_ok ?md now S \<longleftrightarrow> (\<exists>t. S (t_ID (hl_task h)) = Some t \<and> t_Queue t = t_Queue (hl_task h) \<and> t_Version t = t_Version (hl_task h) \<and>
      \<not> (t_At t > now \<and> t_Claimant t \<noteq> [] \<and> t_Claimant t \<noteq> sc_claimant c))"
    unfolding renewal_sends
    by (simp add: task_deps_ok_def task_op_ok_def in_queue_def otherwiseClaimed_def zero_Modification_def IDVersion_def NewTaskID_def)
  moreover have "doc_deps_ok ?md now D L \<longleftrightarrow> (\<forall>g \<in> set (hl_sets h). lk_Stored (L (gset g)) \<and> lk_Version (L (gset g)) = ds_Version g \<and>
      \<not> HeldByOther (L (gset g)) (sc_claimant c) now)"
    unfolding renewal_sends
    by (simp add: doc_deps_ok_def arr_ok_def set_of_arrival_def zero_Modification_def DocSet_Ref_def NewDocSetRef_def)
  ultimately show ?thesis unfolding lost_def by blast
qed

lemma renew_tick_lost:
  assumes "trees_ok T okd okl" "holds (sc_claimant c) h S0 L0" "typed S0" "wf_mem s" "wf_docs T okd okl s"
    "lost (sc_claimant c) h (w_clock W k []) (store s) (lock_of T s)" "rn_cur rn = h" "rn_stopErr rn = None"
  obtains s' e where "renew_tick (mem_client T W now claim) granted interval margin rnd (rn, (c, (s, k))) =
      (rn\<lparr>rn_next := interval, rn_stopErr := Some (DependencyErr e)\<rparr>, (c, (s', Suc k)))"
    "store s' = store s" "doc_store s' = doc_store s" "lock_of T s' = lock_of T s"
proof -
  let ?args = "[Arriving (renewal_of granted h) (now (s, k))]" and ?now = "w_clock W k []"
  let ?md = "sends c ?args"
  note v = settles_valid(1-3)[OF renewal_settles assms(2,3), of granted "now (s, k)"]
  obtain s' r where m: "Modify T ?now ?md s = (s', r)" by (cases "Modify T ?now ?md s")
  from Modify_docs[OF assms(1,4,5) v(3,1,2), of ?now] have
    d: "doc_result T okd okl ?md ?now (task_deps_ok ?md ?now (store s)) s (s', r)" by (simp add: m)
  have "\<not> (task_deps_ok ?md ?now (store s) \<and> doc_deps_ok ?md ?now (doc_store s) (lock_of T s))"
    using renewal_deps[of c granted h "now (s, k)" ?now] assms(6) by blast
  then obtain e where r: "r = Inl (DependencyErr e)" "doc_store s' = doc_store s" "lock_of T s' = lock_of T s"
    using d by (cases r) (auto simp: doc_result_def doc_outcome_def split: prod.splits)
  have st: "store s' = store s" using Modify_tasks[OF assms(4) m] by (simp add: r(1) task_outcome_def)
  have "be_Modify (eqmem_backend T W) ?md (s, k) = ((s', Suc k), Inl (DependencyErr e))" by (simp add: eqmem_backend_def mem_Modify_def m r(1))
  from scoped_Modify_no_inserts[OF _ _ _ this]
  have "scoped_Modify (eqmem_backend T W) ?args (c, (s, k)) = ((c, (s', Suc k)), Inl (DependencyErr (nameArrivals ?md e)))"
    unfolding renewal_sends by (simp add: zero_Modification_def)
  then have "renew_tick (mem_client T W now claim) granted interval margin rnd (rn, (c, (s, k))) =
      (rn\<lparr>rn_next := interval, rn_stopErr := Some (DependencyErr (nameArrivals ?md e))\<rparr>, (c, (s', Suc k)))"
    using assms(7,8) by (simp add: renew_tick_def renewal_call IsCanceled_def)
  then show thesis using that st r(2,3) by blast
qed

lemma renew_ticks_stopped:
  assumes "rn_stopErr rn = Some e"
  shows "\<exists>rn'. renew_ticks C granted interval margin ticks (rn, s) = (rn', fold (\<lambda>(f, _). f) ticks s) \<and> rn_stopErr rn' = Some e \<and> rn_cur rn' = rn_cur rn"
  using assms
proof (induction ticks arbitrary: rn s)
  case (Cons tk ticks)
  obtain f x where tk: "tk = (f, x)" by (cases tk)
  from Cons.IH[of "rn\<lparr>rn_next := interval\<rparr>" "f s"] Cons.prems tk show ?case by (simp add: renew_tick_def)
qed simp

text \<open>
  C7: a worker whose claim is lost commits nothing. When a renewal on the in-memory backend finds that the
  task or a doc set is gone, at another version or held by someone else, the renewal changes nothing, the
  body is told so through its context, later ticks do nothing, and runOne then ends the task as lost and
  goes on: after the body it writes nothing, whatever the body returned. Only a fatal error stops the worker.
\<close>

theorem lost_claim_commits_nothing:
  assumes "trees_ok T okd okl" "wf_mem s" "holds (sc_claimant c) \<lparr>hl_task = wk_Task wrk, hl_sets = wk_Sets wrk\<rparr> (store s) (lock_of T s)"
    "rv_ticks env = (f, x) # ticks" "f (c, (s, k)) = (c, (s1, k1))" "wf_mem s1" "wf_docs T okd okl s1"
    "lost (sc_claimant c) \<lparr>hl_task = wk_Task wrk, hl_sets = wk_Sets wrk\<rparr> (w_clock W k1 []) (store s1) (lock_of T s1)"
    "0 < renewInterval (wk_Task wrk)"
  shows "\<exists>e s2. store s2 = store s1 \<and> doc_store s2 = doc_store s1 \<and> lock_of T s2 = lock_of T s1 \<and>
    (case hd_DoWork handler (Some (DependencyErr e)) wrk (fold (\<lambda>(f, _). f) ticks (c, (s2, Suc k1))) of
       (st, r) \<Rightarrow> work_phase env (mem_client T W now claim) opts handler wrk errQ (c, (s, k)) =
         (st, case r of Inl (WFatal m) \<Rightarrow> (OFailed, Some (WFatal m)) | _ \<Rightarrow> (OLost, None)))"
proof -
  let ?C = "mem_client T W now claim" and ?h = "\<lparr>hl_task = wk_Task wrk, hl_sets = wk_Sets wrk\<rparr>"
  let ?g = "grantedLease (wk_Task wrk)" and ?i = "renewInterval (wk_Task wrk)" and ?m = "renewalMargin (wk_Task wrk)"
  let ?rn = "\<lparr>rn_cur = ?h, rn_next = max 0 (wrap64 (?i - rv_since env)), rn_retryDelay = 0, rn_stopErr = None\<rparr>"
  obtain s2 e where t: "renew_tick ?C ?g ?i ?m x (?rn, (c, (s1, k1))) =
      (?rn\<lparr>rn_next := ?i, rn_stopErr := Some (DependencyErr e)\<rparr>, (c, (s2, Suc k1)))"
    "store s2 = store s1" "doc_store s2 = doc_store s1" "lock_of T s2 = lock_of T s1"
    by (rule renew_tick_lost[OF assms(1,3) typed_store[OF assms(2)] assms(6-8), where rn = ?rn]) simp_all
  let ?st = "fold (\<lambda>(f, _). f) ticks (c, (s2, Suc k1))"
  obtain rn where r: "renew_ticks ?C ?g ?i ?m (rv_ticks env) (?rn, (c, (s, k))) = (rn, ?st)" "rn_stopErr rn = Some (DependencyErr e)"
    using renew_ticks_stopped[of "?rn\<lparr>rn_next := ?i, rn_stopErr := Some (DependencyErr e)\<rparr>" "DependencyErr e" ?C ?g ?i ?m ticks "(c, (s2, Suc k1))"]
    by (auto simp: assms(4,5) t(1))
  obtain st q where d: "hd_DoWork handler (Some (DependencyErr e)) wrk ?st = (st, q)" by (metis prod.exhaust)
  have "work_phase env ?C opts handler wrk errQ (c, (s, k)) = (st, case q of Inl (WFatal m) \<Rightarrow> (OFailed, Some (WFatal m)) | _ \<Rightarrow> (OLost, None))"
    by (cases q; cases "projl q") (simp_all add: work_phase_def doWhileRenewing_def Let_def isSentinelError_def assms(9) r d)
  with t d show ?thesis by (intro exI[of _ e] exI[of _ s2]) simp
qed

text \<open>Another claimant deletes the task once its lease has ended; the body gives up when it is told.\<close>

definition ex_steal :: "(docKeyEntry list, lockEntry list) EQMem \<Rightarrow> (docKeyEntry list, lockEntry list) EQMem" where
  "ex_steal s = fst (Modify list_trees 100 (NewModification ''you'' [TaskID_Delete (NewTaskID ''t1'' 0 ''/q'')]) s)"

definition ex_env :: "(('s \<Rightarrow> 's) \<times> int) list \<Rightarrow> goerror option \<Rightarrow> (unit, 'r, 's) runEnv" where
  "ex_env ticks workErr = \<lparr>rv_closed = False, rv_order = (\<lambda>qs. qs), rv_makeHandler = Inl (PlainError ''none''), rv_decode = (\<lambda>_. Inr ()),
     rv_errQMap = None, rv_since = 0, rv_ticks = ticks, rv_workErr = workErr, rv_ctxErr = None, rv_qctxErr = None, rv_rnd = 0,
     rv_sprintf = (\<lambda>_. ''failed'')\<rparr>"

definition ex_work :: "unit Work" where
  "ex_work = \<lparr>wk_Task = hl_task ex_hold, wk_Value = (), wk_Sets = hl_sets ex_hold\<rparr>"

definition ex_canceled :: "(unit, 'r, 's) Handler" where
  "ex_canceled = funcHandler None None (Some (\<lambda>cause w s. (s, Some (WErr Canceled)))) None"

theorem lost_claim_commits_nothing_witness:
  "\<exists>s' k'. work_phase (ex_env [(\<lambda>(c, (s, k)). (c, (ex_steal s, k)), 0)] None) (mem_client list_trees ex_world (\<lambda>_. 20) (\<lambda>q s. None))
       default_runOpt ex_canceled ex_work ''/q/err'' (ex_client ''me'', (ex_held, 0)) = ((ex_client ''me'', (s', k')), OLost, None) \<and>
     store s' ''t1'' = None"
proof -
  let ?h = "\<lparr>hl_task = wk_Task ex_work, hl_sets = wk_Sets ex_work\<rparr>" and ?c = "ex_client ''me''"
  have h: "?h = ex_hold" and c: "sc_claimant ?c = ''me''" by (simp_all add: ex_work_def ex_client_def)
  let ?md = "NewModification ''you'' [TaskID_Delete (NewTaskID ''t1'' 0 ''/q'')]"
  have wf: "wf_mem (ex_steal ex_held)" using Modify_tasks[OF ex_held_facts(1)] unfolding ex_steal_def by (metis prod.collapse)
  have "docs_named ?md" "validate_Modification ?md = None" "missing_ids ?md = None" by code_simp+
  from Modify_docs[OF list_trees_ok ex_held_facts(1,2) this, of 100]
  have wd: "wf_docs list_trees (sorted_wrt docKeyLess) (sorted_wrt lockKeyLess) (ex_steal ex_held)"
    unfolding ex_steal_def doc_result_def by (simp add: case_prod_beta)
  have n: "store (ex_steal ex_held) ''t1'' = None" "t_ID (hl_task ex_hold) = ''t1''" by code_simp+
  then have l: "lost ''me'' ex_hold (w_clock ex_world 0 []) (store (ex_steal ex_held)) (lock_of list_trees (ex_steal ex_held))"
    by (simp add: lost_def)
  have i: "0 < renewInterval (wk_Task ex_work)" using ex_held_facts(4) by (simp add: ex_work_def)
  from lost_claim_commits_nothing[OF list_trees_ok ex_held_facts(1), where c = ?c and wrk = ex_work and env = "ex_env [(\<lambda>(c, (s, k)). (c, (ex_steal s, k)), 0)] None"
      and k = 0 and ticks = "[]" and x = 0 and f = "\<lambda>(c, (s, k)). (c, (ex_steal s, k))" and W = ex_world, unfolded h c, OF ex_held_facts(3) _ _ wf wd l i,
      where handler = ex_canceled and now = "\<lambda>_. 20" and claim = "\<lambda>q s. None" and opts = default_runOpt and errQ = "''/q/err''"] n(1)
  show ?thesis by (auto simp: ex_env_def ex_canceled_def funcHandler_def)
qed

end
