(* ===== verification/WorkerFacts.thy ===== *)
theory WorkerFacts
  imports WorkerHold
begin

text \<open>
  What a retry, a move and the commit of a result leave in the store of the in-memory backend, how a body's
  own cancellation ends, the schedule of renewals, and the state that Shutdown shares with the runs.
\<close>

section \<open>Settling a failed task\<close>

text \<open>
  What a retry or a move asks for: whether the task leaves for the queue \<open>q\<close>, the delay, the message and
  whether the sentinel is the last. The task is stored once more, counted as tried again.
\<close>

fun disposition :: "runOpt \<Rightarrow> string \<Rightarrow> Task \<Rightarrow> werror \<Rightarrow> (bool \<times> string \<times> duration \<times> string \<times> bool) option" where
  "disposition opts errQ t (WRetry re) =
     (let q = (if re_moveTo re \<noteq> [] then re_moveTo re else errQ) in
      Some (quarantining t q (ro_maxAttempts opts), q, if re_hasAfter re then re_after re else ro_baseRetryDelay opts, re_msg re, re_stop re))"
| "disposition opts errQ t (WMove e) =
     (let q = (if me_to e \<noteq> [] then me_to e else errQ) in Some (quarantining t q 1, q, 0, me_msg e, me_stop e))"
| "disposition opts errQ t _ = None"

definition settled_task :: "string \<Rightarrow> time \<Rightarrow> bool \<Rightarrow> string \<Rightarrow> duration \<Rightarrow> string \<Rightarrow> Task \<Rightarrow> Task" where
  "settled_task me now quar q delay msg t =
     (let b = (if quar then 0 else delay); at = NormalizeArrival (now + b) now in
      t\<lparr>t_Queue := (if quar then q else t_Queue t), t_FromQueue := t_Queue t, t_Version := t_Version t + 1, t_At := at, t_by := b,
        t_Claimant := holder me at now, t_Claims := 0, t_Value := copy_bytes (t_Value t), t_Modified := now, t_Attempt := t_Attempt t + 1,
        t_Err := strings_Join [CHR 0x0A] (filter (\<lambda>x. x \<noteq> []) [t_Err t, msg])\<rparr>)"

definition asked_change :: "bool \<Rightarrow> string \<Rightarrow> duration \<Rightarrow> string \<Rightarrow> Task \<Rightarrow> Task" where
  "asked_change quar q delay msg t =
     t\<lparr>t_Queue := (if quar then q else t_Queue t), t_FromQueue := t_Queue t, t_At := zero_time, t_by := (if quar then 0 else delay),
       t_Attempt := t_Attempt t + 1, t_Err := strings_Join [CHR 0x0A] (filter (\<lambda>x. x \<noteq> []) [t_Err t, msg])\<rparr>"

abbreviation releases :: "DocSet list \<Rightarrow> ModifyArg" where
  "releases sets \<equiv> Arriving [ArrivalEntry_Docs ReadyNow sets] 0"

lemma retry_sends:
  assumes "quar = quarantining t q maxA" "overrides = [ArrivalTimeBy delay] \<or> overrides = [] \<and> delay = 0"
  shows "sends c [RetryOrQuarantine t msg q maxA overrides, releases sets] = zero_Modification\<lparr>m_Claimant := sc_claimant c,
     m_resetClaims := {t_ID t}, m_Changes := [asked_change quar q delay msg t],
     m_DocArrives := map (\<lambda>g. \<lparr>da_DocID = DocSet_Ref g, da_By = 0\<rparr>) sets\<rparr>"
  using assms
  by (auto simp: sends_def NewModification_def ModifyAs_def Arriving_def ArrivalEntry_Docs_def ReadyNow_def ArrivalEntry_By_def
      zero_Modification_def RetryOrQuarantine_def Task_Change_def change_arg_defs asked_change_def Let_def intro!: Task.equality)

lemma retry_settles_hold:
  assumes "sends c args = zero_Modification\<lparr>m_Claimant := sc_claimant c, m_resetClaims := {t_ID (hl_task h)},
      m_Changes := [asked_change quar q delay msg (hl_task h)], m_DocArrives := map (\<lambda>g. \<lparr>da_DocID = DocSet_Ref g, da_By = 0\<rparr>) (hl_sets h)\<rparr>"
    "quar \<longrightarrow> q \<noteq> []" "t_Queue (hl_task h) \<noteq> []"
  shows "settles (sc_claimant c) h 0 (sends c args)"
    "S (t_ID (hl_task h)) = Some (hl_task h) \<Longrightarrow>
      commit_tasks (arrival_Changes (sends c args) S) now S = S(t_ID (hl_task h) \<mapsto> settled_task (sc_claimant c) now quar q delay msg (hl_task h))"
    "\<forall>x \<in> set (m_Changes (sends c args)). t_Value x = t_Value (hl_task h)"
proof -
  show "settles (sc_claimant c) h 0 (sends c args)"
    using assms(2,3) unfolding assms(1) by (auto simp: settles_def on_task_def zero_Modification_def asked_change_def)
  have "t_ID (asked_change quar q delay msg (hl_task h)) = t_ID (hl_task h)" by (simp add: asked_change_def)
  moreover have "changed_to (sends c args) now (hl_task h) (asked_change quar q delay msg (hl_task h)) =
      settled_task (sc_claimant c) now quar q delay msg (hl_task h)"
    unfolding assms(1) by (simp add: changed_to_def asked_change_def settled_task_def ResetsClaims_def zero_Modification_def Let_def)
  ultimately show "commit_tasks (arrival_Changes (sends c args) S) now S = S(t_ID (hl_task h) \<mapsto> settled_task (sc_claimant c) now quar q delay msg (hl_task h))"
    if "S (t_ID (hl_task h)) = Some (hl_task h)"
    using that unfolding assms(1) by (simp add: arrival_Changes_def commit_tasks_def zero_Modification_def restrict_map_def)
  show "\<forall>x \<in> set (m_Changes (sends c args)). t_Value x = t_Value (hl_task h)"
    unfolding assms(1) by (simp add: asked_change_def)
qed



section \<open>Committing a result\<close>

text \<open>The commit of a result that deletes the task it was given, whatever version the body saw.\<close>

lemma finish_mod_delete:
  assumes "rs_mods r = [Task_Delete t0]" "t_ID t0 = t_ID t" "t_Queue t0 = t_Queue t" "sint (t_Version t0) \<le> sint (t_Version t)"
  shows "finish_mod t0 (Some r) (Some t) sets = Inr (zero_Modification\<lparr>m_Deletes := [IDVersion t],
     m_DocArrives := map (\<lambda>g. \<lparr>da_DocID = DocSet_Ref g, da_By = 0\<rparr>) sets\<rparr>)"
  using assms
  by (auto simp: finish_mod_def NewModification_def Task_Delete_def TaskID_Delete_def fixVersions_def fix_task_ref_def IDVersion_def
      NewTaskID_def releasing_def decided_def Arriving_def ArrivalEntry_Docs_def ReadyNow_def ArrivalEntry_By_def zero_Modification_def Let_def)

text \<open>
  C8: a result that deletes its task is committed at the versions that renewal left. The body names the
  task as it was claimed; on the in-memory backend, while the worker holds the task and its sets as stored
  (renewed any number of times since), Finish deletes the task and releases every set the worker holds in
  one modification that cannot be refused, changes nothing else, and then runs the hook on success, stopping
  the worker only if the result asked for it or the hook failed fatally.
\<close>

theorem Finish_acks:
  assumes "trees_ok T okd okl" "0 \<le> w_clock W k []" "wf_mem s" "wf_docs T okd okl s" "holds (sc_claimant c) h (store s) (lock_of T s)"
    "rs_mods r = [Task_Delete t0]" "t_ID t0 = t_ID (hl_task h)" "t_Queue t0 = t_Queue (hl_task h)"
    "sint (t_Version t0) \<le> sint (t_Version (hl_task h))"
  shows "\<exists>s'. doModify_Finish (mem_client T W now claim) t0 (Some r) (Some (hl_task h)) (hl_sets h) (c, (s, k)) =
      (case after_commit (Some r) (c, (s', Suc k)) of (st, e) \<Rightarrow> (st, e, False)) \<and>
    wf_mem s' \<and> wf_docs T okd okl s' \<and> store s' = (store s)(t_ID t0 := None) \<and> doc_store s' = doc_store s \<and>
    (\<forall>g. lock_of T s' g = (if g \<in> gset ` set (hl_sets h) then arrived_lock (sc_claimant c) (w_clock W k []) 0 (lock_of T s g) else lock_of T s g))"
proof -
  let ?now = "w_clock W k []" and ?t = "hl_task h"
  let ?m = "zero_Modification\<lparr>m_Deletes := [IDVersion ?t], m_DocArrives := map (\<lambda>g. \<lparr>da_DocID = DocSet_Ref g, da_By = 0\<rparr>) (hl_sets h)\<rparr>"
  note fm = finish_mod_delete[OF assms(6-9), of "hl_sets h"]
  have sn: "sends c [WithModification ?m] = ?m\<lparr>m_Claimant := sc_claimant c\<rparr>"
    by (simp add: sends_def NewModification_def ModifyAs_def WithModification_def zero_Modification_def)
  have st: "settles (sc_claimant c) h 0 (sends c [WithModification ?m])"
    unfolding sn by (simp add: settles_def on_task_def zero_Modification_def)
  have js: "\<forall>x \<in> set (m_Changes (sends c [WithModification ?m])). \<not> bad_json (t_Value x)" unfolding sn by (simp add: zero_Modification_def)
  obtain s' resp where l: "scoped_Modify (eqmem_backend T W) [WithModification ?m] (c, (s, k)) = ((c, (s', Suc k)), Inr resp)" "wf_mem s'" "wf_docs T okd okl s'"
    "store s' = commit_tasks (arrival_Changes (sends c [WithModification ?m]) (store s)) ?now (store s)"
    "\<forall>g. lock_of T s' g = (if g \<in> gset ` set (hl_sets h) then arrived_lock (sc_claimant c) ?now 0 (lock_of T s g) else lock_of T s g)"
    "doc_store s' = doc_store s"
    by (rule scoped_lands[OF assms(1,3-5) st js assms(2)])
  have "store s' = (store s)(t_ID t0 := None)"
    unfolding l(4) sn by (simp add: commit_tasks_def arrival_Changes_def zero_Modification_def IDVersion_def NewTaskID_def assms(7) restrict_map_def fun_eq_iff)
  moreover have "\<not> IsEmpty ?m" by (simp add: IsEmpty_def zero_Modification_def)
  moreover have "\<not> onlyArrives ?m (t_ID ?t)" by (simp add: onlyArrives_def arrives_def zero_Modification_def)
  ultimately show ?thesis
    using l by (intro exI[of _ s']) (simp add: doModify_Finish_def fm scoped_client_def Let_def case_prod_beta)
qed

theorem Finish_acks_witness:
  "\<exists>s'. doModify_Finish (mem_client list_trees ex_world (\<lambda>_. 20) (\<lambda>q s. None)) (hl_task ex_hold)
       (Some (worker_Modify [Task_Delete (hl_task ex_hold)])) (Some (hl_task ex_hold)) (hl_sets ex_hold) (ex_client ''me'', (ex_held, 0)) =
       ((ex_client ''me'', (s', 1)), None, False) \<and>
     store s' ''t1'' = None \<and> lk_Claimant (lock_of list_trees s' \<lparr>g_Namespace = ''ns'', g_Key = ''k''\<rparr>) = []"
proof -
  let ?c = "ex_client ''me''" and ?r = "worker_Modify [Task_Delete (hl_task ex_hold)]"
  have c: "sc_claimant ?c = ''me''" "0 \<le> w_clock ex_world 0 []" by (simp_all add: ex_client_def ex_world_def)
  have t: "t_ID (hl_task ex_hold) = ''t1''" by code_simp
  have g: "\<lparr>g_Namespace = ''ns'', g_Key = ''k''\<rparr> \<in> gset ` set (hl_sets ex_hold)" by (simp add: ex_hold_def Current_def)
  have m: "rs_mods ?r = [Task_Delete (hl_task ex_hold)]" by (simp add: worker_Modify_def)
  from Finish_acks[where c = ?c, OF list_trees_ok c(2) ex_held_facts(1,2) _ m refl refl order_refl, unfolded c(1), OF ex_held_facts(3),
      where now = "\<lambda>_. 20" and claim = "\<lambda>q s. None"] t g
  show ?thesis by (auto simp: after_commit_def worker_Modify_def arrived_lock_def)
qed

section \<open>How a body ends\<close>

text \<open>
  C36: a body that returns a cancellation of its own while its context is alive and its claim held is
  taken to have succeeded: runOne goes on to Finish with no result, instead of ending as it does for any
  other error of the body. With a Finish function the worker then commits the work as done.
\<close>

theorem canceled_body_finishes:
  assumes "rv_ticks env = []" "rv_workErr env = None" "hd_DoWork handler None wrk s = (s', Inl (WErr err))"
  shows "work_phase env C opts handler wrk errQ s =
    (if err = Canceled then finish_phase env C opts handler None wrk errQ s'
     else case quarantineAtLimit (rv_sprintf env) (rv_ctxErr env) (rv_qctxErr env) C (wk_Task wrk) (wk_Sets wrk) (WErr err) errQ opts s' of
            (s'', moved) \<Rightarrow> (s'', if moved then OMoved else OFailed, Some (WErr err)))"
  using assms by (cases err) (simp_all add: work_phase_def doWhileRenewing_def isSentinelError_def Let_def)

theorem canceled_body_finishes_witness:
  "work_phase (ex_env [] None) (mem_client list_trees ex_world (\<lambda>_. 20) (\<lambda>q s. None)) default_runOpt ex_canceled ex_work ''/q/err''
     (ex_client ''me'', (ex_held, 0)) = ((ex_client ''me'', (ex_held, 0)), ODone, None)"
  using canceled_body_finishes[of "ex_env [] None" ex_canceled ex_work "(ex_client ''me'', (ex_held, 0))" "(ex_client ''me'', (ex_held, 0))" Canceled
      "mem_client list_trees ex_world (\<lambda>_. 20) (\<lambda>q s. None)" default_runOpt "''/q/err''"]
  by (simp add: ex_env_def ex_canceled_def funcHandler_def finish_phase_def)

section \<open>The schedule of renewals\<close>

lemma schedule_of_lease:
  assumes "0 \<le> grantedLease t" "grantedLease t < 2 ^ 62"
  shows "renewInterval t = 2 * grantedLease t div 3" "renewalMargin t = grantedLease t - 2 * grantedLease t div 3"
proof -
  have "wrap64 (grantedLease t * 2) = grantedLease t * 2" by (rule wrap64_id) (use assms in simp_all)
  then show i: "renewInterval t = 2 * grantedLease t div 3"
    using assms by (cases "grantedLease t = 0") (simp_all add: renewInterval_def RenewalDurationFor_def signed_divide_int_def mult.commute)
  then show "renewalMargin t = grantedLease t - 2 * grantedLease t div 3"
    using assms by (simp add: renewalMargin_def wrap64_id)
qed

lemma jitterLater_range:
  assumes "0 < d" "d < 2 ^ 61"
  shows "d \<le> jitterLater rnd d (d sdiv 4) \<and> jitterLater rnd d (d sdiv 4) \<le> d + d div 4" "jitterLater 0 d (d sdiv 4) = d"
    "jitterLater (d div 4) d (d sdiv 4) = d + d div 4"
proof -
  have q: "d sdiv 4 = d div 4" using assms by (simp add: signed_divide_int_def)
  have j: "0 \<le> jitterSpread r (d div 4) \<and> jitterSpread r (d div 4) \<le> d div 4" for r
  proof (cases "d div 4 \<le> 0")
    case False
    then show ?thesis
      using pos_mod_bound[of "d div 4 + 1" r] pos_mod_sign[of "d div 4 + 1" r] by (simp add: jitterSpread_def)
  qed (use assms in \<open>simp add: jitterSpread_def\<close>)
  have w: "jitterLater r d (d sdiv 4) = d + jitterSpread r (d div 4)" for r
    unfolding jitterLater_def q by (rule wrap64_id) (use assms j[of r] in auto)
  show "d \<le> jitterLater rnd d (d sdiv 4) \<and> jitterLater rnd d (d sdiv 4) \<le> d + d div 4" using j[of rnd] by (simp add: w)
  show "jitterLater 0 d (d sdiv 4) = d" by (simp add: w jitterSpread_def)
  show "jitterLater (d div 4) d (d sdiv 4) = d + d div 4" using assms by (simp add: w jitterSpread_def)
qed

text \<open>A tick on which the server fails transiently.\<close>

lemma renew_tick_transient:
  assumes "rn_stopErr rn = None" "snd (cl_UpdateArrival C (renewal_of g (rn_cur rn)) s) = Inl (UnavailableError e)"
  shows "fst (renew_tick C g i m rnd (rn, s)) =
    rn\<lparr>rn_retryDelay := nextRenewalRetry (rn_retryDelay rn) m i,
       rn_next := jitterLater rnd (nextRenewalRetry (rn_retryDelay rn) m i) (nextRenewalRetry (rn_retryDelay rn) m i sdiv 4)\<rparr>"
  using assms by (cases "cl_UpdateArrival C (renewal_of g (rn_cur rn)) s") (simp add: renew_tick_def IsCanceled_def Let_def)

text \<open>The waits of three consecutive ticks of which each fails transiently.\<close>

definition three_waits :: "'s Client \<Rightarrow> held \<Rightarrow> int \<times> int \<times> int \<Rightarrow> 's \<Rightarrow> duration" where
  "three_waits C h = (\<lambda>(r1, r2, r3) s.
     let g = grantedLease (hl_task h); i = renewInterval (hl_task h); m = renewalMargin (hl_task h);
         st1 = renew_tick C g i m r1 (\<lparr>rn_cur = h, rn_next = i, rn_retryDelay = 0, rn_stopErr = None\<rparr>, s);
         st2 = renew_tick C g i m r2 st1; st3 = renew_tick C g i m r3 st2
     in rn_next (fst st1) + rn_next (fst st2) + rn_next (fst st3))"

lemma three_waits_eq:
  assumes "\<forall>s. \<exists>s'. cl_UpdateArrival C (renewal_of (grantedLease (hl_task h)) h) s = (s', Inl (UnavailableError e))" "32 \<le> renewalMargin (hl_task h)"
    "grantedLease (hl_task h) < 2 ^ 62"
  shows "three_waits C h (r1, r2, r3) s =
    (let d = renewalMargin (hl_task h) div 8 in
     jitterLater r1 d (d sdiv 4) + jitterLater r2 (2 * d) (2 * d sdiv 4) + jitterLater r3 (4 * d) (4 * d sdiv 4))"
proof -
  let ?g = "grantedLease (hl_task h)" and ?i = "renewInterval (hl_task h)" and ?m = "renewalMargin (hl_task h)"
  let ?d = "?m div 8"
  have g: "0 \<le> ?g" by (simp add: grantedLease_def)
  note sc = schedule_of_lease[OF g assms(3)]
  have "(2 :: int) ^ 62 = 2 * 2 ^ 61" "(2 :: int) \<le> 2 ^ 61" by simp_all
  then have "?m < 2 ^ 61" using assms(3) sc g by linarith
  then have d: "4 \<le> ?d" "4 * ?d \<le> ?i" "4 * ?d < 2 ^ 61" using assms(2) sc g by linarith+
  have n: "nextRenewalRetry 0 ?m ?i = ?d" "nextRenewalRetry ?d ?m ?i = 2 * ?d" "nextRenewalRetry (2 * ?d) ?m ?i = 4 * ?d"
    using d assms(2) by (simp_all add: nextRenewalRetry_def signed_divide_int_def wrap64_id Let_def)
  let ?rn = "\<lparr>rn_cur = h, rn_next = ?i, rn_retryDelay = 0, rn_stopErr = None\<rparr>"
  have f: "snd (cl_UpdateArrival C (renewal_of ?g h) s) = Inl (UnavailableError e)" for s using assms(1) by (metis snd_conv)
  obtain rn1 s1 where t1: "renew_tick C ?g ?i ?m r1 (?rn, s) = (rn1, s1)" by (metis prod.exhaust)
  obtain rn2 s2 where t2: "renew_tick C ?g ?i ?m r2 (rn1, s1) = (rn2, s2)" by (metis prod.exhaust)
  obtain rn3 s3 where t3: "renew_tick C ?g ?i ?m r3 (rn2, s2) = (rn3, s3)" by (metis prod.exhaust)
  have r1: "rn1 = ?rn\<lparr>rn_retryDelay := ?d, rn_next := jitterLater r1 ?d (?d sdiv 4)\<rparr>"
    using renew_tick_transient[of ?rn C ?g s e ?i ?m r1] f t1 n by simp
  have r2: "rn2 = rn1\<lparr>rn_retryDelay := 2 * ?d, rn_next := jitterLater r2 (2 * ?d) (2 * ?d sdiv 4)\<rparr>"
    using renew_tick_transient[of rn1 C ?g s1 e ?i ?m r2] f t2 n by (simp add: r1)
  have r3: "rn3 = rn2\<lparr>rn_retryDelay := 4 * ?d, rn_next := jitterLater r3 (4 * ?d) (4 * ?d sdiv 4)\<rparr>"
    using renew_tick_transient[of rn2 C ?g s2 e ?i ?m r3] f t3 n by (simp add: r2 r1)
  show ?thesis unfolding three_waits_def Let_def prod.case t1 t2 t3 fst_conv by (simp add: r1 r2 r3)
qed

text \<open>
  C37: renewals are scheduled at two thirds of the granted lease, so a third of it remains as margin. While
  the server fails transiently, three retries come within the margin when the waits are not lengthened at
  random; but the random lengthening can push the third one beyond the margin, after the lease has ended,
  by no more than an eighth of the margin.
\<close>

theorem renewal_retry_bounds:
  assumes "\<forall>s. \<exists>s'. cl_UpdateArrival C (renewal_of (grantedLease (hl_task h)) h) s = (s', Inl (UnavailableError e))"
    "320 \<le> grantedLease (hl_task h)" "grantedLease (hl_task h) < 2 ^ 62"
  shows "renewInterval (hl_task h) + renewalMargin (hl_task h) = grantedLease (hl_task h) \<and>
    grantedLease (hl_task h) \<le> 3 * renewalMargin (hl_task h) \<and> three_waits C h (0, 0, 0) s \<le> renewalMargin (hl_task h) \<and>
    8 * three_waits C h rs s \<le> 9 * renewalMargin (hl_task h) \<and> (\<exists>rs. three_waits C h rs s > renewalMargin (hl_task h))"
proof -
  let ?g = "grantedLease (hl_task h)" and ?i = "renewInterval (hl_task h)" and ?m = "renewalMargin (hl_task h)"
  let ?d = "?m div 8"
  have g: "0 \<le> ?g" by (simp add: grantedLease_def)
  note sc = schedule_of_lease[OF g assms(3)]
  have m: "96 \<le> ?m" "32 \<le> ?m" "?g \<le> 3 * ?m" using assms(2) sc by linarith+
  have "(2 :: int) ^ 62 = 2 * 2 ^ 61" "(2 :: int) \<le> 2 ^ 61" by simp_all
  then have m61: "?m < 2 ^ 61" using assms(3) sc g by linarith
  have d: "0 < ?d" "?d < 2 ^ 61" "0 < 2 * ?d" "2 * ?d < 2 ^ 61" "0 < 4 * ?d" "4 * ?d < 2 ^ 61" using m m61 by linarith+
  note w = three_waits_eq[OF assms(1) m(2) assms(3), unfolded Let_def]
  note j = jitterLater_range[OF d(1,2)] jitterLater_range[OF d(3,4)] jitterLater_range[OF d(5,6)]
  obtain r1 r2 r3 where rs: "rs = (r1, r2, r3)" by (cases rs)
  have a: "three_waits C h (0, 0, 0) s = 7 * ?d" using j by (simp add: w)
  have b: "three_waits C h rs s \<le> ?d + ?d div 4 + (2 * ?d + 2 * ?d div 4) + (4 * ?d + 4 * ?d div 4)"
    unfolding rs w using j(1)[of r1] j(4)[of r2] j(7)[of r3] by linarith
  have c: "three_waits C h (?d div 4, 2 * ?d div 4, 4 * ?d div 4) s = ?d + ?d div 4 + (2 * ?d + 2 * ?d div 4) + (4 * ?d + 4 * ?d div 4)"
    unfolding w using j(3) j(6) j(9) by linarith
  have "12 \<le> ?d" "?m < 8 * ?d + 8" using m(1) by linarith+
  then have "?m < 8 * ?d + ?d div 4 + 2 * ?d div 4" by linarith
  with c have "three_waits C h (?d div 4, 2 * ?d div 4, 4 * ?d div 4) s > ?m" by simp
  then have ex: "\<exists>rs. three_waits C h rs s > ?m" ..
  have "?d div 4 + 2 * ?d div 4 \<le> ?d" "4 * ?d div 4 = ?d" "8 * ?d \<le> ?m" using d(1) by linarith+
  with b have "8 * three_waits C h rs s \<le> 9 * ?m" by linarith
  moreover have "?i + ?m = ?g" "three_waits C h (0, 0, 0) s \<le> ?m" using sc a m(2) by linarith+
  ultimately show ?thesis using m(3) ex by blast
qed

text \<open>A client whose server is away.\<close>

definition ex_away :: "nat Client" where
  "ex_away = \<lparr>cl_Claim = (\<lambda>opts s. None), cl_ClaimDocs = (\<lambda>args s. (s, Inl Canceled)), cl_Modify = (\<lambda>args s. (s, Inl Canceled)),
     cl_UpdateArrival = (\<lambda>entries s. (Suc s, Inl (UnavailableError ''away'')))\<rparr>"

theorem renewal_retry_bounds_witness:
  "renewalMargin (hl_task \<lparr>hl_task = (zero_Task\<lparr>t_At := 2400\<rparr>), hl_sets = []\<rparr>) = 800 \<and>
   (\<exists>rs. three_waits ex_away \<lparr>hl_task = zero_Task\<lparr>t_At := 2400\<rparr>, hl_sets = []\<rparr> rs 0 > 800)"
proof -
  let ?h = "\<lparr>hl_task = zero_Task\<lparr>t_At := 2400\<rparr>, hl_sets = []\<rparr>"
  have "grantedLease (hl_task ?h) = 2400" "renewalMargin (hl_task ?h) = 800" by code_simp+
  with renewal_retry_bounds[of ex_away ?h "''away''" 0 "(0, 0, 0)"] show ?thesis by (simp add: ex_away_def)
qed

section \<open>Shutting down\<close>

definition new_Worker :: "'k Worker" where
  "new_Worker = \<lparr>wk_closed = False, wk_runs = [], wk_wg = 0\<rparr>"

text \<open>What runs and calls of Shutdown do to the worker, in any order.\<close>

inductive wstep :: "'k Worker \<Rightarrow> 'k Worker \<Rightarrow> bool" where
  "run \<notin> fst ` set (wk_runs w) \<Longrightarrow> join run w = Inr w' \<Longrightarrow> wstep w w'"
| "run \<in> fst ` set (wk_runs w) \<Longrightarrow> wstep w (leave run w)"
| "run \<in> fst ` set (wk_runs w) \<Longrightarrow> startClaim run w = Inr w' \<Longrightarrow> wstep w w'"
| "wstep w (endClaim run w)"
| "wstep w (Shutdown_begin w)"
| "wk_closed w \<Longrightarrow> wstep w (Shutdown_cancel w)"

definition worker_ok :: "'k Worker \<Rightarrow> bool" where
  "worker_ok w \<longleftrightarrow> distinct (map fst (wk_runs w)) \<and> wk_wg w = int (length (wk_runs w)) \<and>
     (wk_closed w \<longrightarrow> (\<forall>(k, r) \<in> set (wk_runs w). ar_claim r \<noteq> Some False))"

lemma map_runs: "map (fst \<circ> (\<lambda>(k, r). (k, f k r))) rs = map fst rs"
  by (induction rs) auto

lemma length_delete: "distinct (map fst rs) \<Longrightarrow> k \<in> fst ` set rs \<Longrightarrow> int (length (gm_del k rs)) = int (length rs) - 1"
proof (induction rs)
  case (Cons x rs)
  show ?case
  proof (cases "fst x = k")
    case True
    with Cons.prems(1) have "gm_del k rs = rs" by (auto simp: delete_idem)
    with True show ?thesis by (cases x) simp
  next
    case False
    with Cons show ?thesis by (cases x) auto
  qed
qed simp

lemma update_fresh: "k \<notin> fst ` set rs \<Longrightarrow> gm_set k v rs = rs @ [(k, v)]"
  by (induction rs) auto

lemma worker_ok_step:
  assumes "wstep w w'" "worker_ok w"
  shows "worker_ok w' \<and> (wk_closed w \<longrightarrow> wk_closed w')"
  using assms
proof cases
  case (1 run)
  then have "gm_set run \<lparr>ar_canceled = False, ar_claim = None\<rparr> (wk_runs w) = wk_runs w @ [(run, \<lparr>ar_canceled = False, ar_claim = None\<rparr>)]"
    by (simp add: update_fresh)
  with 1 assms(2) show ?thesis by (auto simp: join_def worker_ok_def split: if_splits)
next
  case (2 run)
  have "set (gm_del run (wk_runs w)) \<subseteq> set (wk_runs w)" by (auto simp: AList.delete_eq)
  with 2 assms(2) length_delete[of "wk_runs w" run] show ?thesis
    by (auto simp: leave_def worker_ok_def intro: distinct_delete)
next
  case (3 run)
  then show ?thesis
    using assms(2) by (auto simp: startClaim_def on_run_def worker_ok_def map_runs split: if_splits)
next
  case (4 run)
  then show ?thesis
    using assms(2) by (auto simp: endClaim_def on_run_def worker_ok_def map_runs split: if_splits)
next
  case 5
  then show ?thesis
    using assms(2) by (auto simp: Shutdown_begin_def closeRuns_def worker_ok_def map_runs)
next
  case 6
  then show ?thesis
    using assms(2) by (auto simp: Shutdown_cancel_def closeRuns_def worker_ok_def map_runs)
qed



end
