(* ===== verification/SubQFacts.thy ===== *)
theory SubQFacts
  imports SubQ
begin

text \<open>
  The subscription service used by many goroutines at once: a transition system whose steps are the
  functions of the service, each under its mutex, and the deliveries on channels. In every state it
  reaches, a notification of a queue that someone waits for is sent to the channel they wait on.
\<close>

text \<open>
  The reserved places as triples of waiter, queue and object, and the objects that a goroutine of Notify
  is sending on.
\<close>

record subq_net =
  nt_sq :: SubQ
  nt_places :: "(nat \<times> string \<times> nat) list"
  nt_sending :: "nat list"

abbreviation place_obj :: "nat \<times> string \<times> nat \<Rightarrow> nat" where
  "place_obj p \<equiv> snd (snd p)"

inductive subq_step :: "subq_net \<Rightarrow> subq_net \<Rightarrow> bool" where
  join: "addListener q (nt_sq n) = (i, sq) \<Longrightarrow> subq_step n (n\<lparr>nt_sq := sq, nt_places := (w, q, i) # nt_places n\<rparr>)"
| leave: "p \<in> set (nt_places n) \<Longrightarrow> sub_Done (place_obj p) (nt_sq n) = Inr sq \<Longrightarrow>
    subq_step n (n\<lparr>nt_sq := sq, nt_places := remove1 p (nt_places n)\<rparr>)"
| notify: "subq_Notify q (nt_sq n) = Some i \<Longrightarrow> subq_step n (n\<lparr>nt_sending := i # nt_sending n\<rparr>)"
| deliver: "p \<in> set (nt_places n) \<Longrightarrow> place_obj p \<in> set (nt_sending n) \<Longrightarrow>
    subq_step n (n\<lparr>nt_sending := remove1 (place_obj p) (nt_sending n)\<rparr>)"
| give_up: "i \<in> set (nt_sending n) \<Longrightarrow> \<not> sub_Reserved (nt_sq n) (Some i) \<Longrightarrow>
    subq_step n (n\<lparr>nt_sending := remove1 i (nt_sending n)\<rparr>)"
| collect: "tryCollect q (nt_sq n) = (b, sq) \<Longrightarrow> subq_step n (n\<lparr>nt_sq := sq\<rparr>)"

inductive subq_reachable :: "subq_net \<Rightarrow> bool" where
  init: "subq_reachable \<lparr>nt_sq = subq_New, nt_places = [], nt_sending = []\<rparr>"
| step: "subq_reachable n \<Longrightarrow> subq_step n n' \<Longrightarrow> subq_reachable n'"

section \<open>The invariant\<close>

definition places_on :: "nat \<Rightarrow> subq_net \<Rightarrow> nat" where
  "places_on i n = length (filter (\<lambda>p. place_obj p = i) (nt_places n))"

definition subq_inv :: "subq_net \<Rightarrow> bool" where
  "subq_inv n \<longleftrightarrow> gm_ok (sq_qs (nt_sq n)) \<and>
     (\<forall>q i. map_of (sq_qs (nt_sq n)) q = Some i \<longrightarrow> i < length (sq_subs (nt_sq n))) \<and>
     (\<forall>q q' i. map_of (sq_qs (nt_sq n)) q = Some i \<longrightarrow> map_of (sq_qs (nt_sq n)) q' = Some i \<longrightarrow> q = q') \<and>
     (\<forall>i < length (sq_subs (nt_sq n)). sq_subs (nt_sq n) ! i = int (places_on i n)) \<and>
     (\<forall>(w, q, i) \<in> set (nt_places n). map_of (sq_qs (nt_sq n)) q = Some i)"

lemma subq_invD:
  assumes "subq_inv n"
  shows "gm_ok (sq_qs (nt_sq n))" "map_of (sq_qs (nt_sq n)) q = Some i \<Longrightarrow> i < length (sq_subs (nt_sq n))"
    "map_of (sq_qs (nt_sq n)) q = Some i \<Longrightarrow> map_of (sq_qs (nt_sq n)) q' = Some i \<Longrightarrow> q = q'"
    "i < length (sq_subs (nt_sq n)) \<Longrightarrow> sq_subs (nt_sq n) ! i = int (places_on i n)"
    "(w, q, i) \<in> set (nt_places n) \<Longrightarrow> map_of (sq_qs (nt_sq n)) q = Some i"
  using assms unfolding subq_inv_def by blast+

lemma places_on_pos: "(w, q, i) \<in> set (nt_places n) \<Longrightarrow> 0 < places_on i n"
  by (force simp: places_on_def filter_empty_conv)

lemma places_remove: "p \<in> set ps \<Longrightarrow> length (filter P ps) = length (filter P (remove1 p ps)) + of_bool (P p)"
  by (induction ps) auto

lemma inv_join:
  assumes "subq_inv n" "addListener q (nt_sq n) = (i, sq)"
  shows "subq_inv (n\<lparr>nt_sq := sq, nt_places := (w, q, i) # nt_places n\<rparr>)"
proof (cases "map_of (sq_qs (nt_sq n)) q")
  case (Some j)
  note d = subq_invD[OF assms(1)]
  have s: "i = j" "sq = sub_Add j (nt_sq n)" using Some assms(2) by (auto simp: addListener_def)
  show ?thesis
    unfolding subq_inv_def
    using d Some s by (auto simp: sub_Add_def places_on_def nth_list_update)
next
  case None
  let ?L = "length (sq_subs (nt_sq n))"
  note d = subq_invD[OF assms(1)]
  have s: "i = ?L" "sq_qs sq = gm_set q ?L (sq_qs (nt_sq n))" "sq_subs sq = sq_subs (nt_sq n) @ [1]"
    using None assms(2) by (auto simp: addListener_def sub_Add_def Let_def)
  have fresh: "place_obj p \<noteq> ?L" if "p \<in> set (nt_places n)" for p
    using that d(2)[of "fst (snd p)" "place_obj p"] d(5)[of "fst p" "fst (snd p)" "place_obj p"] by auto
  then have z: "places_on ?L n = 0" by (simp add: places_on_def filter_empty_conv)
  have other: "q' \<noteq> q" if "(w', q', i') \<in> set (nt_places n)" for w' q' i' using d(5)[OF that] None by auto
  have old: "map_of (sq_qs (nt_sq n)) q' \<noteq> Some ?L" for q' using d(2)[of q' ?L] by auto
  show ?thesis
    unfolding subq_inv_def
    using d s z other old by (auto simp: places_on_def nth_append less_Suc_eq)
qed

lemma inv_leave:
  assumes "subq_inv n" "p \<in> set (nt_places n)" "sub_Done (place_obj p) (nt_sq n) = Inr sq"
  shows "subq_inv (n\<lparr>nt_sq := sq, nt_places := remove1 p (nt_places n)\<rparr>)"
proof -
  note d = subq_invD[OF assms(1)]
  let ?i = "place_obj p"
  have s: "sq = (nt_sq n)\<lparr>sq_subs := (sq_subs (nt_sq n))[?i := sq_subs (nt_sq n) ! ?i - 1]\<rparr>"
    using assms(3) by (auto simp: sub_Done_def split: if_splits)
  have "int (places_on j (n\<lparr>nt_sq := sq, nt_places := remove1 p (nt_places n)\<rparr>)) = int (places_on j n) - of_bool (j = ?i)" for j
    using places_remove[OF assms(2), of "\<lambda>p. place_obj p = j"] by (simp add: places_on_def)
  moreover have "map_of (sq_qs (nt_sq n)) q = Some i" if "(w, q, i) \<in> set (remove1 p (nt_places n))" for w q i
    using that notin_set_remove1 d(5) by fastforce
  ultimately show ?thesis
    unfolding subq_inv_def using d s by (auto simp: nth_list_update)
qed

lemma inv_collect:
  assumes "subq_inv n" "tryCollect q (nt_sq n) = (b, sq)"
  shows "subq_inv (n\<lparr>nt_sq := sq\<rparr>)"
proof (cases "sub_Reserved (nt_sq n) (map_of (sq_qs (nt_sq n)) q)")
  case True
  with assms(2) have "sq = nt_sq n" by (simp add: tryCollect_def)
  with assms(1) show ?thesis by simp
next
  case False
  note d = subq_invD[OF assms(1)]
  have s: "sq = (nt_sq n)\<lparr>sq_qs := gm_del q (sq_qs (nt_sq n))\<rparr>" using False assms(2) by (auto simp: tryCollect_def)
  have "q' \<noteq> q" if "(w, q', i) \<in> set (nt_places n)" for w q' i
    using d(2,4,5) that False places_on_pos[OF that] by (auto simp: sub_Reserved_def split: option.splits)
  then show ?thesis
    unfolding subq_inv_def using d s by (auto simp: places_on_def split: if_splits)
qed

lemma subq_reachable_inv: "subq_reachable n \<Longrightarrow> subq_inv n"
proof (induction rule: subq_reachable.induct)
  case init
  then show ?case by (simp add: subq_inv_def subq_New_def)
next
  case (step n n')
  from step(2,3) show ?case
  proof (cases rule: subq_step.cases)
    case (join q i sq w)
    with step inv_join show ?thesis by blast
  next
    case (leave p sq)
    with step inv_leave show ?thesis by blast
  next
    case (collect q b sq)
    with step inv_collect show ?thesis by blast
  qed (auto simp: subq_inv_def places_on_def)
qed

section \<open>Notifications are not lost\<close>

lemma fold_listeners:
  "gm_ok qs \<Longrightarrow> map_of (fold (\<lambda>(q, i) m. let c = sub_Listeners s (Some i) in if c > 0 then gm_set q c m else m) qs m) q =
     (case map_of qs q of Some i \<Rightarrow> if sq_subs s ! i > 0 then Some (sq_subs s ! i) else map_of m q | None \<Rightarrow> map_of m q)"
proof (induction qs arbitrary: m)
  case (Cons a qs)
  obtain q' i where a: "a = (q', i)" by (cases a)
  have "gm_ok qs" "map_of qs q' = None" using Cons.prems a by (auto simp: gm_ok_def map_of_eq_None_iff)
  with Cons.IH a show ?case by (auto simp: sub_Listeners_def Let_def split: option.splits)
qed simp



end
