(* ===== verification/Mesh.thy ===== *)
theory Mesh
  imports QueueNames
begin

text \<open>
  Authorization: the requests of package authz (authz.go), the policy documents of meshpolicy (document.go)
  and the mesh authorizer (mesh/authorizer.go). A queue and a namespace of a request are the same record;
  a nil pointer in a list is \<open>None\<close>. The checks of label names and values are those of a third-party package
  and are arguments.
\<close>

section \<open>Requests\<close>

type_synonym Action = string

record Resource =
  rs_Exact :: string
  rs_Prefix :: string
  rs_Actions :: "Action list"

record AuthzRequest =
  aq_Principal :: "string option"   \<comment> \<open>the subject of the verified principal\<close>
  aq_ClaimantId :: string
  aq_Queues :: "Resource option list"
  aq_Namespaces :: "Resource option list"

record AuthzError =
  az_Failed :: "Resource option list"
  az_FailedNamespaces :: "Resource option list"
  az_Errors :: "string list"

section \<open>Policy documents\<close>

type_synonym labels = "(string, string) gomap"

record Policy =
  po_Pattern :: string
  po_MatchType :: string
  po_AllowedCallers :: "labels list"

record Document =
  do_Initialized :: bool
  do_Queues :: "Policy list"
  do_Namespaces :: "Policy list"
  do_Identities :: "(string, labels) gomap"

definition validateLabels :: "(string \<Rightarrow> bool) \<Rightarrow> (string \<Rightarrow> bool) \<Rightarrow> labels \<Rightarrow> goerror option" where
  "validateLabels isName isVal ls =
     first_some (\<lambda>(key, val). if \<not> isName key then Some (PlainError ''invalid label key'')
       else if \<not> isVal val then Some (PlainError ''invalid value for label'') else None) ls"

definition validatePolicy :: "(string \<Rightarrow> bool) \<Rightarrow> (string \<Rightarrow> bool) \<Rightarrow> Policy \<Rightarrow> goerror option" where
  "validatePolicy isName isVal p =
     (if po_Pattern p = [] then Some (PlainError ''pattern is empty'')
      else if po_MatchType p \<noteq> ''Exact'' \<and> po_MatchType p \<noteq> ''Prefix'' then Some (PlainError ''unknown match type'')
      else if po_AllowedCallers p = [] then Some (PlainError ''allowed callers is empty'')
      else first_some (\<lambda>matcher. if matcher = [] then Some (PlainError ''allowed caller has no labels'')
             else validateLabels isName isVal matcher) (po_AllowedCallers p))"

definition Document_Validate :: "(string \<Rightarrow> bool) \<Rightarrow> (string \<Rightarrow> bool) \<Rightarrow> Document \<Rightarrow> goerror option" where
  "Document_Validate isName isVal d =
     (if \<not> do_Initialized d then Some (PlainError ''mesh document is not initialized'')
      else err_or (first_some (validatePolicy isName isVal) (do_Queues d))
          (err_or (first_some (validatePolicy isName isVal) (do_Namespaces d))
             (first_some (\<lambda>(subject, ls).
                if subject = [] then Some (PlainError ''identity subject is empty'')
                else if ls = [] then Some (PlainError ''identity has no labels'')
                else validateLabels isName isVal ls) (do_Identities d))))"

section \<open>Compiled policy\<close>

record resourceGrant =
  rg_exact :: string
  rg_prefix :: string

record subjectGrants =
  sg_queues :: "resourceGrant list"
  sg_namespaces :: "resourceGrant list"

type_synonym compiledPolicy = "(string, subjectGrants) gomap"

definition newGrant :: "string \<Rightarrow> string \<Rightarrow> resourceGrant" where
  "newGrant pattern matchType =
     (if matchType = ''Exact'' then \<lparr>rg_exact = pattern, rg_prefix = []\<rparr> else \<lparr>rg_exact = [], rg_prefix = pattern\<rparr>)"

text \<open>A label that is missing reads as the empty string.\<close>

definition label_of :: "labels \<Rightarrow> string \<Rightarrow> string" where
  "label_of ls key = (case map_of ls key of None \<Rightarrow> [] | Some v \<Rightarrow> v)"

definition callerSatisfies :: "labels \<Rightarrow> labels list \<Rightarrow> bool" where
  "callerSatisfies ls alternatives =
     list_ex (\<lambda>required. list_all (\<lambda>(key, val). label_of ls key = val) required) alternatives"

definition HasSuffix :: "string \<Rightarrow> string \<Rightarrow> bool" where
  "HasSuffix s suf \<longleftrightarrow> length suf \<le> length s \<and> drop (length s - length suf) s = suf"

definition queue_grants :: "labels \<Rightarrow> Policy \<Rightarrow> resourceGrant list" where
  "queue_grants ls p =
     (if \<not> callerSatisfies ls (po_AllowedCallers p) then []
      else newGrant (po_Pattern p) (po_MatchType p) #
        (if po_MatchType p = ''Exact'' \<and> HasSuffix (po_Pattern p) ''/inbox''
         then [\<lparr>rg_exact = [], rg_prefix = take (length (po_Pattern p) - 5) (po_Pattern p) @ ''response/''\<rparr>] else []))"

definition compile :: "Document \<Rightarrow> compiledPolicy" where
  "compile d = map (\<lambda>(subject, ls). (subject,
     \<lparr>sg_queues = concat (map (queue_grants ls) (do_Queues d)),
      sg_namespaces = map (\<lambda>p. newGrant (po_Pattern p) (po_MatchType p))
        (filter (\<lambda>p. callerSatisfies ls (po_AllowedCallers p)) (do_Namespaces d))\<rparr>)) (do_Identities d)"

text \<open>strings.Split at one byte.\<close>

fun strings_Split :: "string \<Rightarrow> char \<Rightarrow> string list" where
  "strings_Split [] sep = [[]]"
| "strings_Split (ch # s) sep =
     (if ch = sep then [] # strings_Split s sep
      else case strings_Split s sep of [] \<Rightarrow> [[ch]] | p # ps \<Rightarrow> (ch # p) # ps)"

definition ownQueuePrefix :: "string \<Rightarrow> string option" where
  "ownQueuePrefix subject =
     (case strings_Split subject (CHR '':'') of
        [a, b, c, d] \<Rightarrow>
          if a = ''system'' \<and> b = ''serviceaccount'' then Some (''/'' @ c @ ''/'' @ d @ ''/'') else None
      | _ \<Rightarrow> None)"

definition grantsFor :: "compiledPolicy option \<Rightarrow> string \<Rightarrow> subjectGrants" where
  "grantsFor policy subject =
     (let grants = (case policy of
            None \<Rightarrow> \<lparr>sg_queues = [], sg_namespaces = []\<rparr>
          | Some p \<Rightarrow> (case map_of p subject of None \<Rightarrow> \<lparr>sg_queues = [], sg_namespaces = []\<rparr> | Some g \<Rightarrow> g))
      in case ownQueuePrefix subject of
           None \<Rightarrow> grants
         | Some prefix \<Rightarrow> grants\<lparr>sg_queues := sg_queues grants @ [\<lparr>rg_exact = [], rg_prefix = prefix\<rparr>]\<rparr>)"

section \<open>Decisions\<close>

definition grant_matches :: "string \<Rightarrow> string \<Rightarrow> resourceGrant \<Rightarrow> bool" where
  "grant_matches exact prefix g \<longleftrightarrow>
     exact \<noteq> [] \<and> rg_exact g \<noteq> [] \<and> exact = rg_exact g \<or>
     exact \<noteq> [] \<and> rg_prefix g \<noteq> [] \<and> strings_HasPrefix exact (rg_prefix g) \<or>
     prefix \<noteq> [] \<and> rg_prefix g \<noteq> [] \<and> strings_HasPrefix prefix (rg_prefix g)"

definition matchesAny :: "string \<Rightarrow> string \<Rightarrow> resourceGrant list \<Rightarrow> bool" where
  "matchesAny exact prefix grants = list_ex (grant_matches exact prefix) grants"

fun uniqueActions :: "Action list \<Rightarrow> Action list \<Rightarrow> Action list" where
  "uniqueActions seen [] = []"
| "uniqueActions seen (a # as) = (if a \<in> set seen then uniqueActions seen as else a # uniqueActions (a # seen) as)"

text \<open>disallowedQueues and disallowedNamespaces.\<close>

definition disallowed :: "Resource option list \<Rightarrow> resourceGrant list \<Rightarrow> Resource option list" where
  "disallowed wants grants =
     map (map_option (\<lambda>want. want\<lparr>rs_Actions := uniqueActions [] (rs_Actions want)\<rparr>))
       (filter (\<lambda>want. case want of
          None \<Rightarrow> True
        | Some w \<Rightarrow> rs_Exact w = [] \<and> rs_Prefix w = [] \<or> rs_Actions w \<noteq> [] \<and> \<not> matchesAny (rs_Exact w) (rs_Prefix w) grants) wants)"

definition decisionErrors :: "string \<Rightarrow> string \<Rightarrow> bool \<Rightarrow> string list" where
  "decisionErrors claimantID subject resourceFailure =
     (if resourceFailure \<and> subject \<noteq> [] then [''User: '' @ subject] else []) @
     (if claimantID \<noteq> [] \<and> subject \<noteq> [] \<and> \<not> strings_HasPrefix claimantID (subject @ ''#'')
      then [''claimant_id does not match authenticated user''] else [])"

text \<open>The result: an error of the context, a denial, or nil.\<close>

definition Authorize :: "goerror option \<Rightarrow> compiledPolicy option \<Rightarrow> AuthzRequest option \<Rightarrow> (goerror + AuthzError) option" where
  "Authorize ctxErr policy req =
     (case ctxErr of
        Some e \<Rightarrow> Some (Inl e)
      | None \<Rightarrow>
          (case req of
             None \<Rightarrow> Some (Inr \<lparr>az_Failed = [], az_FailedNamespaces = [], az_Errors = [''authorization request is missing'']\<rparr>)
           | Some rq \<Rightarrow>
               let subject = (case aq_Principal rq of None \<Rightarrow> [] | Some sub \<Rightarrow> sub);
                   grants = grantsFor policy subject;
                   failedQueues = disallowed (aq_Queues rq) (sg_queues grants);
                   failedNamespaces = disallowed (aq_Namespaces rq) (sg_namespaces grants);
                   errors = decisionErrors (aq_ClaimantId rq) subject (length failedQueues + length failedNamespaces \<noteq> 0)
               in if length (sg_queues grants) + length (sg_namespaces grants) \<noteq> 0 \<and> failedQueues = [] \<and> failedNamespaces = [] \<and> errors = []
                  then None
                  else Some (Inr \<lparr>az_Failed = failedQueues, az_FailedNamespaces = failedNamespaces, az_Errors = errors\<rparr>)))"

text \<open>A rejected document leaves the policy as it was.\<close>

definition ReplaceMesh :: "(string \<Rightarrow> bool) \<Rightarrow> (string \<Rightarrow> bool) \<Rightarrow> goerror option \<Rightarrow> Document \<Rightarrow> compiledPolicy option \<Rightarrow>
    compiledPolicy option \<times> goerror option" where
  "ReplaceMesh isName isVal ctxErr d policy =
     (case ctxErr of
        Some e \<Rightarrow> (policy, Some e)
      | None \<Rightarrow>
          (case Document_Validate isName isVal d of
             Some e \<Rightarrow> (policy, Some e)
           | None \<Rightarrow> (Some (compile d), None)))"

definition mesh_Ready :: "compiledPolicy option \<Rightarrow> bool" where
  "mesh_Ready policy \<longleftrightarrow> policy \<noteq> None"

end
