(* ===== verification/MeshFacts.thy ===== *)
theory MeshFacts
  imports Mesh
begin

text \<open>
  The mesh authorizer enforces its policy document: what a document permits is defined on names, and the
  decisions of the compiled policy are compared with it.
\<close>

section \<open>What a document permits\<close>

definition beneath :: "string \<Rightarrow> string \<Rightarrow> bool" where
  "beneath p n \<longleftrightarrow> (\<exists>r. n = p @ r)"

definition caller_allowed :: "Document \<Rightarrow> string \<Rightarrow> Policy \<Rightarrow> bool" where
  "caller_allowed d sub p \<longleftrightarrow> (\<exists>ls. map_of (do_Identities d) sub = Some ls \<and>
     (\<exists>required \<in> set (po_AllowedCallers p). \<forall>(key, val) \<in> set required. label_of ls key = val))"

text \<open>A queue named exactly as an inbox also opens the responses beside it.\<close>

definition queue_covers :: "Policy \<Rightarrow> string \<Rightarrow> bool" where
  "queue_covers p n \<longleftrightarrow>
     (if po_MatchType p = ''Exact'' then n = po_Pattern p \<or> (\<exists>base. po_Pattern p = base @ ''/inbox'' \<and> beneath (base @ ''/response/'') n)
      else beneath (po_Pattern p) n)"

definition ns_covers :: "Policy \<Rightarrow> string \<Rightarrow> bool" where
  "ns_covers p n \<longleftrightarrow> (if po_MatchType p = ''Exact'' then n = po_Pattern p else beneath (po_Pattern p) n)"

definition permits_queue :: "Document \<Rightarrow> string \<Rightarrow> string \<Rightarrow> bool" where
  "permits_queue d sub n \<longleftrightarrow> (\<exists>p. ownQueuePrefix sub = Some p \<and> beneath p n) \<or>
     (\<exists>p \<in> set (do_Queues d). caller_allowed d sub p \<and> queue_covers p n)"

definition permits_ns :: "Document \<Rightarrow> string \<Rightarrow> string \<Rightarrow> bool" where
  "permits_ns d sub n \<longleftrightarrow> (\<exists>p \<in> set (do_Namespaces d). caller_allowed d sub p \<and> ns_covers p n)"

text \<open>The names that a wanted resource stands for.\<close>

definition wanted_names :: "Resource \<Rightarrow> string set" where
  "wanted_names w = {n. rs_Exact w \<noteq> [] \<and> n = rs_Exact w \<or> rs_Prefix w \<noteq> [] \<and> beneath (rs_Prefix w) n}"

definition subject_of :: "AuthzRequest \<Rightarrow> string" where
  "subject_of rq = (case aq_Principal rq of None \<Rightarrow> [] | Some sub \<Rightarrow> sub)"

section \<open>Grants and names\<close>

lemma HasPrefix_beneath: "strings_HasPrefix s p \<longleftrightarrow> beneath p s"
  by (metis append_eq_conv_conj append_take_drop_id strings_HasPrefix_def beneath_def)

lemma beneath_trans: "beneath p q \<Longrightarrow> beneath q n \<Longrightarrow> beneath p n"
  by (auto simp: beneath_def)

lemma HasSuffix_iff: "HasSuffix s suf \<longleftrightarrow> (\<exists>base. s = base @ suf)"
proof
  assume "HasSuffix s suf"
  then have "s = take (length s - length suf) s @ suf"
    unfolding HasSuffix_def by (metis append_take_drop_id)
  then show "\<exists>base. s = base @ suf" ..
qed (auto simp: HasSuffix_def)

text \<open>A grant stands for the one name, or for the names under its prefix.\<close>

definition grant_names :: "resourceGrant \<Rightarrow> string set" where
  "grant_names g = {n. rg_exact g \<noteq> [] \<and> n = rg_exact g \<or> rg_prefix g \<noteq> [] \<and> beneath (rg_prefix g) n}"

lemma matches_exact: "e \<noteq> [] \<Longrightarrow> matchesAny e [] gs \<longleftrightarrow> (\<exists>g \<in> set gs. e \<in> grant_names g)"
  by (auto simp: matchesAny_def list_ex_iff grant_matches_def grant_names_def HasPrefix_beneath)

lemma matches_names:
  assumes "matchesAny (rs_Exact w) (rs_Prefix w) gs" "rs_Exact w = [] \<or> rs_Prefix w = []" "n \<in> wanted_names w"
  shows "\<exists>g \<in> set gs. n \<in> grant_names g"
proof -
  from assms(1) obtain g where g: "g \<in> set gs" "grant_matches (rs_Exact w) (rs_Prefix w) g"
    by (auto simp: matchesAny_def list_ex_iff)
  then have "n \<in> grant_names g"
    using assms(2,3) beneath_trans[of "rg_prefix g" "rs_Prefix w" n]
    by (auto simp: grant_matches_def grant_names_def wanted_names_def HasPrefix_beneath)
  with g(1) show ?thesis by blast
qed

text \<open>A valid document has a pattern in every policy and only the two kinds of match.\<close>

lemma valid_policies:
  assumes "Document_Validate isName isVal d = None"
  shows "\<forall>p \<in> set (do_Queues d) \<union> set (do_Namespaces d). po_Pattern p \<noteq> [] \<and> (po_MatchType p = ''Exact'' \<or> po_MatchType p = ''Prefix'')"
  using assms by (auto simp: Document_Validate_def validatePolicy_def split: if_splits)

lemma newGrant_names:
  assumes "pat \<noteq> []"
  shows "grant_names (newGrant pat mt) = {n. if mt = ''Exact'' then n = pat else beneath pat n}"
  using assms by (auto simp: newGrant_def grant_names_def)

lemma callerSatisfies_iff:
  "callerSatisfies ls alts \<longleftrightarrow> (\<exists>required \<in> set alts. \<forall>(key, val) \<in> set required. label_of ls key = val)"
  by (simp add: callerSatisfies_def list_ex_iff list_all_iff case_prod_beta)

lemma queue_grants_names:
  assumes "po_Pattern p \<noteq> []"
  shows "(\<exists>g \<in> set (queue_grants ls p). n \<in> grant_names g) \<longleftrightarrow> callerSatisfies ls (po_AllowedCallers p) \<and> queue_covers p n"
proof (cases "callerSatisfies ls (po_AllowedCallers p)")
  case True
  have inbox: "take (length (po_Pattern p) - 5) (po_Pattern p) @ ''response/'' = base @ ''/response/''" if "po_Pattern p = base @ ''/inbox''" for base
    using that by simp
  have "(\<exists>g \<in> set (queue_grants ls p). n \<in> grant_names g) \<longleftrightarrow> n \<in> grant_names (newGrant (po_Pattern p) (po_MatchType p)) \<or>
      po_MatchType p = ''Exact'' \<and> (\<exists>base. po_Pattern p = base @ ''/inbox'' \<and> beneath (base @ ''/response/'') n)"
    using True inbox unfolding queue_grants_def HasSuffix_iff by (auto simp: grant_names_def)
  then show ?thesis using True assms by (auto simp: newGrant_names queue_covers_def)
qed (simp add: queue_grants_def)

lemma own_prefix_nonempty: "ownQueuePrefix sub = Some p \<Longrightarrow> p \<noteq> []"
  by (auto simp: ownQueuePrefix_def split: list.splits if_splits)

text \<open>The grants of a subject stand for exactly the names that the document permits.\<close>

lemma map_of_vals: "map_of (map (\<lambda>(k, v). (k, f v)) xs) k = map_option f (map_of xs k)"
  by (induction xs) auto

lemma map_of_compile:
  "map_of (compile d) sub = map_option (\<lambda>ls. \<lparr>sg_queues = concat (map (queue_grants ls) (do_Queues d)),
      sg_namespaces = map (\<lambda>p. newGrant (po_Pattern p) (po_MatchType p))
        (filter (\<lambda>p. callerSatisfies ls (po_AllowedCallers p)) (do_Namespaces d))\<rparr>) (map_of (do_Identities d) sub)"
  by (simp only: compile_def map_of_vals)

lemma grants_permit:
  assumes "Document_Validate isName isVal d = None"
  shows "(\<exists>g \<in> set (sg_queues (grantsFor (Some (compile d)) sub)). n \<in> grant_names g) \<longleftrightarrow> permits_queue d sub n"
    "(\<exists>g \<in> set (sg_namespaces (grantsFor (Some (compile d)) sub)). n \<in> grant_names g) \<longleftrightarrow> permits_ns d sub n"
proof -
  let ?G = "case map_of (compile d) sub of None \<Rightarrow> \<lparr>sg_queues = [], sg_namespaces = []\<rparr> | Some g \<Rightarrow> g"
  have v: "\<And>p. p \<in> set (do_Queues d) \<Longrightarrow> po_Pattern p \<noteq> []" "\<And>p. p \<in> set (do_Namespaces d) \<Longrightarrow> po_Pattern p \<noteq> []"
    using valid_policies[OF assms] by auto
  have c: "caller_allowed d sub p \<longleftrightarrow> (\<exists>ls. map_of (do_Identities d) sub = Some ls \<and> callerSatisfies ls (po_AllowedCallers p))" for p
    by (simp add: caller_allowed_def callerSatisfies_iff)
  have q: "(\<exists>g \<in> set (sg_queues ?G). n \<in> grant_names g) \<longleftrightarrow> (\<exists>p \<in> set (do_Queues d). caller_allowed d sub p \<and> queue_covers p n)"
    using queue_grants_names[OF v(1), of _ _ n] by (cases "map_of (do_Identities d) sub") (simp_all add: map_of_compile c)
  have "n \<in> grant_names (newGrant (po_Pattern p) (po_MatchType p)) \<longleftrightarrow> ns_covers p n" if "p \<in> set (do_Namespaces d)" for p
    using newGrant_names[OF v(2)[OF that]] by (simp add: ns_covers_def)
  then have s: "(\<exists>g \<in> set (sg_namespaces ?G). n \<in> grant_names g) \<longleftrightarrow> permits_ns d sub n"
    by (cases "map_of (do_Identities d) sub") (auto simp: map_of_compile permits_ns_def c)
  have own: "set (sg_queues (grantsFor (Some (compile d)) sub)) = set (sg_queues ?G) \<union> {\<lparr>rg_exact = [], rg_prefix = p\<rparr> |p. ownQueuePrefix sub = Some p}"
    by (simp add: grantsFor_def Let_def split: option.split)
  have "(\<exists>p. ownQueuePrefix sub = Some p \<and> n \<in> grant_names \<lparr>rg_exact = [], rg_prefix = p\<rparr>) \<longleftrightarrow> (\<exists>p. ownQueuePrefix sub = Some p \<and> beneath p n)"
    using own_prefix_nonempty[of sub] by (auto simp: grant_names_def)
  with q show "(\<exists>g \<in> set (sg_queues (grantsFor (Some (compile d)) sub)). n \<in> grant_names g) \<longleftrightarrow> permits_queue d sub n"
    unfolding own permits_queue_def by blast
  have "sg_namespaces (grantsFor (Some (compile d)) sub) = sg_namespaces ?G"
    by (simp add: grantsFor_def Let_def split: option.split)
  with s show "(\<exists>g \<in> set (sg_namespaces (grantsFor (Some (compile d)) sub)). n \<in> grant_names g) \<longleftrightarrow> permits_ns d sub n"
    by simp
qed

text \<open>A want passes when it names a resource and, if it asks for actions, a grant matches it.\<close>

definition want_ok :: "(string \<Rightarrow> bool) \<Rightarrow> Resource option \<Rightarrow> bool" where
  "want_ok permitted want \<longleftrightarrow> (\<exists>w. want = Some w \<and> (rs_Exact w \<noteq> [] \<or> rs_Prefix w \<noteq> []) \<and>
     (rs_Actions w \<noteq> [] \<longrightarrow> rs_Exact w = [] \<or> rs_Prefix w = [] \<longrightarrow> (\<forall>n \<in> wanted_names w. permitted n)))"

definition exact_want :: "Resource option \<Rightarrow> bool" where
  "exact_want want \<longleftrightarrow> (\<exists>w. want = Some w \<and> rs_Prefix w = [])"

lemma disallowed_sound:
  assumes "disallowed wants gs = []" "\<And>n. (\<exists>g \<in> set gs. n \<in> grant_names g) \<longleftrightarrow> permitted n" "want \<in> set wants"
  shows "want_ok permitted want"
proof (cases want)
  case (Some w)
  have "rs_Exact w \<noteq> [] \<or> rs_Prefix w \<noteq> []" "rs_Actions w \<noteq> [] \<Longrightarrow> matchesAny (rs_Exact w) (rs_Prefix w) gs"
    using assms(1,3) Some by (auto simp: disallowed_def filter_empty_conv)
  with Some assms(2) matches_names[of w gs] show ?thesis by (auto simp: want_ok_def)
qed (use assms(1,3) in \<open>auto simp: disallowed_def filter_empty_conv\<close>)

lemma disallowed_complete:
  assumes "\<And>n. (\<exists>g \<in> set gs. n \<in> grant_names g) \<longleftrightarrow> permitted n" "\<forall>want \<in> set wants. exact_want want \<and> want_ok permitted want"
  shows "disallowed wants gs = []"
proof -
  have "\<exists>w. want = Some w \<and> rs_Exact w \<noteq> [] \<and> (rs_Actions w \<noteq> [] \<longrightarrow> matchesAny (rs_Exact w) (rs_Prefix w) gs)" if "want \<in> set wants" for want
    using that assms(1)[symmetric] assms(2) by (fastforce simp: exact_want_def want_ok_def wanted_names_def matches_exact)
  then show ?thesis by (fastforce simp: disallowed_def filter_empty_conv)
qed

definition speaks_for :: "AuthzRequest \<Rightarrow> bool" where
  "speaks_for rq \<longleftrightarrow> aq_ClaimantId rq = [] \<or> subject_of rq = [] \<or> beneath (subject_of rq @ ''#'') (aq_ClaimantId rq)"

lemma Authorize_None:
  "Authorize None policy (Some rq) = None \<longleftrightarrow>
     (let g = grantsFor policy (subject_of rq) in (sg_queues g \<noteq> [] \<or> sg_namespaces g \<noteq> []) \<and>
        disallowed (aq_Queues rq) (sg_queues g) = [] \<and> disallowed (aq_Namespaces rq) (sg_namespaces g) = [] \<and> speaks_for rq)"
  unfolding Authorize_def Let_def subject_of_def[symmetric]
  by (simp add: decisionErrors_def speaks_for_def HasPrefix_beneath) blast

text \<open>What a request needs from a document.\<close>

definition request_ok :: "Document \<Rightarrow> AuthzRequest \<Rightarrow> bool" where
  "request_ok d rq \<longleftrightarrow> (\<forall>want \<in> set (aq_Queues rq). want_ok (permits_queue d (subject_of rq)) want) \<and>
     (\<forall>want \<in> set (aq_Namespaces rq). want_ok (permits_ns d (subject_of rq)) want) \<and> speaks_for rq"


definition ex_document :: Document where
  "ex_document = \<lparr>do_Initialized = True,
     do_Queues = [\<lparr>po_Pattern = ''/a/inbox'', po_MatchType = ''Exact'', po_AllowedCallers = [[(''app'', ''web'')]]\<rparr>],
     do_Namespaces = [], do_Identities = [(''u'', [(''app'', ''web'')])]\<rparr>"

definition ex_request :: "string \<Rightarrow> AuthzRequest" where
  "ex_request q = \<lparr>aq_Principal = Some ''u'', aq_ClaimantId = ''u#1'',
     aq_Queues = [Some \<lparr>rs_Exact = q, rs_Prefix = [], rs_Actions = [''CLAIM'']\<rparr>], aq_Namespaces = []\<rparr>"


end
