(* ===== verification/Spec2Isabelle.thy ===== *)
theory Spec2Isabelle
  imports DependencyFacts DocsetFacts EQMemReadFacts EQMemSteps WorkerFacts SubQFacts MeshFacts
begin

text \<open>
  A verification development of EntroQ, a task queue in Go. Tasks wait in queues until they arrive; a claim
  gives a task to a claimant for a while; a modification inserts, changes, deletes and depends on tasks
  and docs, all at once and only at the versions it names. The development models the client package, the
  in-memory backend, the packages they share, and the worker that claims, renews and commits.

  \<^bold>\<open>Parts and theories.\<close>

  \<^item> \<open>EqPrelude\<close>: instants and durations in nanoseconds, int32 as 32-bit words, Go maps as association
    lists, errors as values of a sum, the lemma collections and the generic facts.
  \<^item> \<open>EntroqTypes\<close>, \<open>TaskOps\<close>, \<open>DocOps\<close>, \<open>Modifications\<close>, \<open>Queries\<close>: the data and pure functions of the client
    package (task.go, doc.go, arrival.go, entroq.go, stats.go): builders of modifications, their dependencies and the
    dependency error. \<open>DependencyFacts\<close> shows that the error is complete and exact.
  \<^item> \<open>Validate\<close>, \<open>Docset\<close>: the packages validate and docset of pkg/backend/internal, with the storage
    callbacks as arguments. \<open>DocsetFacts\<close> shows that Evaluate refuses exactly what it must and plans one
    version step for every set written.
  \<^item> \<open>ClaimHeap\<close>, \<open>TaskQueue\<close>, \<open>DocNamespace\<close>: the containers of pkg/backend/eqmem (claimheap.go, taskqueue.go,
    docnamespace.go). \<open>ClaimHeapFacts\<close> and \<open>ClaimIndex\<close> show that the heap with its index refines a map from
    IDs to arrival times; \<open>DocNamespaceFacts\<close> that a namespace over two ordered trees refines two maps. The
    ordered tree is a third-party package: a record of operations with the laws \<open>btree_ok\<close>, which sorted
    lists satisfy.
  \<^item> \<open>EQMem\<close>, \<open>EQMemModify\<close>, \<open>EQMemReads\<close>, \<open>EQMemDocs\<close>: the backend itself (eqmem.go, docs.go, ns.go, doclocks.go,
    readiness.go): its state as a record, claims, modifications under queue and namespace locks, reads, doc claims and the
    collection of locks. \<open>EQMemQueues\<close>, \<open>EQMemTasks\<close>, \<open>EQMemNamespaces\<close> and \<open>EQMemDocTx\<close> hold the abstract
    views (a store of tasks, a store of docs, the locks) and the lemmas that each stage of a
    modification acts on them as specified; \<open>EQMemClaim\<close>, \<open>EQMemCommit\<close>, \<open>EQMemDocCommit\<close>, \<open>EQMemReadFacts\<close> and
    \<open>EQMemDocFacts\<close> the properties of the operations; \<open>EQMemSteps\<close> those of sequences of operations.
  \<^item> \<open>QueueNames\<close>, \<open>QueueGC\<close> (pkg/queues) with \<open>QueueNameFacts\<close>: escaping, parameters and namespaces of queue
    names at the level of bytes, and the instant at which a name switches its collection on.
  \<^item> \<open>SubQ\<close>, \<open>SubQFacts\<close> (pkg/subq): subscriptions as a transition system.
  \<^item> \<open>Backend\<close>, \<open>Client\<close>, \<open>JsonSyntax\<close> (the Backend interface, EntroQ and scoped clients): clients over any
    backend given as a record of operations on its state. \<open>ClientFacts\<close> composes them with the
    in-memory backend.
  \<^item> \<open>Collector\<close>, \<open>CollectorFacts\<close> (pkg/backend/internal/gc, eqmem/gc.go): the collectors over the Backend
    interface; what they rely on is the locale \<open>task_backend\<close>, interpreted on the in-memory backend.
  \<^item> \<open>Worker\<close>, \<open>WorkerHold\<close>, \<open>WorkerFacts\<close> (pkg/worker): sentinels, the commit of results, renewal, one task
    from claim to commit, the loop of Run and Shutdown, over a client given as a record; the properties
    compose the worker with the client and the in-memory backend.
  \<^item> \<open>Mesh\<close>, \<open>MeshFacts\<close> (pkg/authz): requests for authorization, policy documents and the mesh authorizer; its
    decisions are compared with what the document permits, stated on names.

  \<^bold>\<open>Conventions.\<close> A struct is a record whose fields carry a prefix; a method is a function that returns the
  new state. An error is a value; a panic is the error \<open>Panic\<close>. Reads of the clock, random draws, the order in
  which Go ranges over a map, scheduling and the text of formatted messages are arguments, so that a
  property holds for all of them. Operations of the backend that run under locks are atomic: each theorem on
  sequences or interleavings says what its steps are.

  \<^bold>\<open>Bounds and fuel.\<close> The loops of the client's blocking claims and of the collectors take fuel; the
  properties \<open>PollTryClaim_returns\<close> and \<open>collectOnce_spec\<close> say how much is enough. Versions and counters are
  words and wrap; durations that the code adds or multiplies wrap where the theories write \<open>wrap64\<close>.

  \<^bold>\<open>Not modelled.\<close> The other backends (PostgreSQL, Redis, SQLite) are statements run by a database; the gRPC and JSON
  services, the gRPC backend and the protobuf conversions are written against generated code that is not part of the
  program's own sources; authentication is cryptography of third-party packages; commands, metrics, Kubernetes and
  HTTP parts are I/O. The files of the write-ahead log of the in-memory backend are written by a third-party package.
\<close>

end
